(* ===== verification/Prelude.thy ===== *)
theory Prelude
  imports Main "HOL-Library.Word" "HOL-Library.Monad_Syntax" "HOL-Library.Multiset"
begin

text \<open>
  Shared vocabulary of the development: machine integers, pointers and stores, the collections
  of facts the component proofs draw on, and generic lemmas on words, lists and options.

  \<^item> A C pointer is a \<^theory_text>\<open>ptr\<close>; \<open>NULL\<close> is \<open>0\<close>. A heap of objects of one struct type is a
    partial map from pointers to records. Reading or writing through a pointer that is not
    allocated is undefined behaviour in C and \<open>None\<close> in the model.
  \<^item> A function that may run into undefined behaviour or may not return is a computation in the
    option monad; a theorem that it succeeds is a theorem that its result is \<open>Some\<close>.
\<close>

unbundle bit_operations_syntax

type_synonym ptr = nat
type_synonym u8 = "8 word"
type_synonym u16 = "16 word"
type_synonym u32 = "32 word"
type_synonym u64 = "64 word"
type_synonym 'a heap = "ptr \<rightharpoonup> 'a"

abbreviation (input) NULL :: ptr where "NULL \<equiv> 0"

named_theorems unat_simps \<open>reading word operations as arithmetic on natural numbers\<close>
named_theorems bind_simps \<open>unfolding the option monad\<close>

subsection \<open>Words\<close>

lemma unat_and_mask [unat_simps]:
  "unat (w AND mask n) = unat w mod 2 ^ n" for w :: "'a::len word"
  by (simp add: unsigned_take_bit_eq flip: take_bit_eq_mask take_bit_eq_mod)

lemma unat_drop_bit [unat_simps]:
  "unat (drop_bit n w) = unat w div 2 ^ n" for w :: "'a::len word"
  by (simp add: unat_drop_bit_eq flip: drop_bit_eq_div)

lemma unat_less_pow32 [simp]: "unat w < 4294967296" for w :: u32
  using unsigned_less [of w, where ?'a = nat] by simp

lemma unat_diff32:
  "unat (a - b) = (if unat b \<le> unat a then unat a - unat b else 4294967296 + unat a - unat b)"
  for a b :: u32
  by (simp add: unat_sub_if') arith

lemma unat_inc32:
  "unat (a + 1) = (if unat a = 4294967295 then 0 else unat a + 1)" for a :: u32
  using unat_less_pow32 [of a] by (simp add: unat_plus_if' del: unat_less_pow32)

lemma unat_add64: "unat a + unat b < 2 ^ 64 \<Longrightarrow> unat (a + b) = unat a + unat b" for a b :: u64
  by (simp add: unat_plus_if')

lemma unat_diff64: "unat b \<le> unat a \<Longrightarrow> unat (a - b) = unat a - unat b" for a b :: u64
  by (simp add: unat_sub_if')

lemma unat_of_nat64: "n < 2 ^ 64 \<Longrightarrow> unat (of_nat n :: u64) = n"
  by (simp add: unsigned_of_nat take_bit_nat_eq_self_iff)

subsection \<open>Maps\<close>

lemma restrict_map_UNIV [simp]: "m |` UNIV = m"
  by (simp add: restrict_map_def)

subsection \<open>The option monad\<close>

lemma bind_Some_iff [bind_simps]: "(Option.bind m f = Some y) = (\<exists>x. m = Some x \<and> f x = Some y)"
  by (simp add: Option.bind_eq_Some_conv)

end
