(* ===== verification/Timewheel.thy ===== *)
theory Timewheel
  imports Prelude
begin

text \<open>
  The hierarchical timing wheel of \<open>src/timewheel.c\<close> and \<open>src/timewheel.h\<close>.

  The wheel keeps 256 near slots and four levels of 64 slots, each slot an intrusive list of
  timer nodes. A slot is the list of the pointers linked into it, in list order; the nodes
  live in the heap \<open>nodes\<close>. Arrays are functions from indices, and \<open>move_list\<close>, the one place
  whose level is not masked, checks its bounds. The spinlock comes from \<open>spinlock.h\<close>, which is
  not part of the repository, and the callbacks are the user's: both are fields of the
  environment record \<open>tw_env\<close>. The field \<open>calls\<close> has no counterpart in the C struct: it is
  the trace of callback invocations, each with the wheel's time at the call.
\<close>

section \<open>The data\<close>

definition TIME_NEAR_SHIFT :: nat where "TIME_NEAR_SHIFT = 8"
definition TIME_NEAR :: u32 where "TIME_NEAR = push_bit TIME_NEAR_SHIFT 1"
definition TIME_LEVEL_SHIFT :: nat where "TIME_LEVEL_SHIFT = 6"
definition TIME_LEVEL :: u32 where "TIME_LEVEL = push_bit TIME_LEVEL_SHIFT 1"
definition TIME_NEAR_MASK :: u32 where "TIME_NEAR_MASK = TIME_NEAR - 1"
definition TIME_LEVEL_MASK :: u32 where "TIME_LEVEL_MASK = TIME_LEVEL - 1"

type_synonym handler = nat

record timer_node =
  expire :: u32
  callback :: handler
  cancel :: u8
  node_id :: int

type_synonym link_list = "ptr list"

record s_timer =
  near :: "nat \<Rightarrow> link_list"
  tv :: "nat \<Rightarrow> nat \<Rightarrow> link_list"
  lock :: nat
  time :: u32
  current :: u64
  current_point :: u64
  nodes :: "timer_node heap"
  calls :: "(ptr \<times> u32) list"

record tw_env =
  spin_acquire :: "nat \<Rightarrow> nat option"
  spin_release :: "nat \<Rightarrow> nat"
  spin_init :: nat
  run_cb :: "handler \<Rightarrow> ptr \<Rightarrow> s_timer \<Rightarrow> s_timer option"

definition spinlock_lock :: "tw_env \<Rightarrow> s_timer \<Rightarrow> s_timer option" where
  "spinlock_lock e T = map_option (\<lambda>l. T\<lparr>lock := l\<rparr>) (spin_acquire e (lock T))"

definition spinlock_unlock :: "tw_env \<Rightarrow> s_timer \<Rightarrow> s_timer" where
  "spinlock_unlock e T = T\<lparr>lock := spin_release e (lock T)\<rparr>"

section \<open>The operations\<close>

text \<open>\<open>link_clear\<close> returns the chain and the emptied list; \<open>link\<close> appends at the tail.\<close>

definition link_clear :: "link_list \<Rightarrow> ptr list \<times> link_list" where
  "link_clear l = (l, [])"

definition link :: "link_list \<Rightarrow> ptr \<Rightarrow> link_list" where
  "link l p = l @ [p]"

definition link_near :: "s_timer \<Rightarrow> nat \<Rightarrow> ptr \<Rightarrow> s_timer" where
  "link_near T i p = T\<lparr>near := (near T)(i := link (near T i) p)\<rparr>"

definition link_level :: "s_timer \<Rightarrow> nat \<Rightarrow> nat \<Rightarrow> ptr \<Rightarrow> s_timer" where
  "link_level T k i p = T\<lparr>tv := (tv T)(k := (tv T k)(i := link (tv T k i) p))\<rparr>"

definition add_node :: "s_timer \<Rightarrow> ptr \<Rightarrow> s_timer option" where
  "add_node T p = do {
     n \<leftarrow> nodes T p;
     let tm = expire n;
     let current_time = time T;
     let msec = tm - current_time;
     Some (if msec < TIME_NEAR then
             link_near T (unat (tm AND TIME_NEAR_MASK)) p
           else if msec < push_bit (TIME_NEAR_SHIFT + TIME_LEVEL_SHIFT) 1 then
             link_level T 0 (unat (drop_bit TIME_NEAR_SHIFT tm AND TIME_LEVEL_MASK)) p
           else if msec < push_bit (TIME_NEAR_SHIFT + 2 * TIME_LEVEL_SHIFT) 1 then
             link_level T 1
               (unat (drop_bit (TIME_NEAR_SHIFT + TIME_LEVEL_SHIFT) tm AND TIME_LEVEL_MASK)) p
           else if msec < push_bit (TIME_NEAR_SHIFT + 3 * TIME_LEVEL_SHIFT) 1 then
             link_level T 2
               (unat (drop_bit (TIME_NEAR_SHIFT + 2 * TIME_LEVEL_SHIFT) tm AND TIME_LEVEL_MASK)) p
           else
             link_level T 3
               (unat (drop_bit (TIME_NEAR_SHIFT + 3 * TIME_LEVEL_SHIFT) tm AND TIME_LEVEL_MASK)) p)
   }"

text \<open>A callback runs with the pointer of its node; the invocation is recorded.\<close>

definition invoke :: "tw_env \<Rightarrow> timer_node \<Rightarrow> ptr \<Rightarrow> s_timer \<Rightarrow> s_timer option" where
  "invoke e n p T = run_cb e (callback n) p (T\<lparr>calls := calls T @ [(p, time T)]\<rparr>)"

definition free_node :: "ptr \<Rightarrow> s_timer \<Rightarrow> s_timer" where
  "free_node p T = T\<lparr>nodes := (nodes T)(p := None)\<rparr>"

text \<open>
  \<open>m\<close> is the pointer \<open>malloc\<close> returned and \<open>junk\<close> what the fresh block holds in the byte of
  \<open>cancel\<close>, which the code does not initialise. The result is the node or \<open>NULL\<close>.
\<close>

definition add_timer ::
  "tw_env \<Rightarrow> s_timer \<Rightarrow> int \<Rightarrow> handler \<Rightarrow> int \<Rightarrow> ptr \<Rightarrow> u8 \<Rightarrow> (ptr \<times> s_timer) option" where
  "add_timer e T tm func threadid m junk = do {
     T1 \<leftarrow> spinlock_lock e T;
     (if m = NULL then None else Some ());
     let n = \<lparr>expire = word_of_int tm + time T1, callback = func, cancel = junk,
              node_id = threadid\<rparr>;
     let T2 = T1\<lparr>nodes := (nodes T1)(m \<mapsto> n)\<rparr>;
     if tm \<le> 0 then do {
       T3 \<leftarrow> invoke e n m T2;
       let T4 = spinlock_unlock e T3;
       Some (NULL, free_node m T4)
     } else do {
       T3 \<leftarrow> add_node T2 m;
       Some (m, spinlock_unlock e T3)
     }
   }"

fun relink :: "ptr list \<Rightarrow> s_timer \<Rightarrow> s_timer option" where
  "relink [] T = Some T"
| "relink (p # temp) T = add_node T p \<bind> relink temp"

definition move_list :: "s_timer \<Rightarrow> nat \<Rightarrow> nat \<Rightarrow> s_timer option" where
  "move_list T level idx =
     (if level < 4 \<and> idx < 64 then
        (let (cur, rest) = link_clear (tv T level idx)
         in relink cur (T\<lparr>tv := (tv T)(level := (tv T level)(idx := rest))\<rparr>))
      else None)"

partial_function (option) shift_loop ::
  "u32 \<Rightarrow> u32 \<Rightarrow> u32 \<Rightarrow> nat \<Rightarrow> s_timer \<Rightarrow> s_timer option" where
  "shift_loop ct msk tm i T =
     (if ct AND (msk - 1) = 0 then
        (let idx = tm AND TIME_LEVEL_MASK
         in if idx \<noteq> 0 then move_list T i (unat idx)
            else shift_loop ct (push_bit TIME_LEVEL_SHIFT msk) (drop_bit TIME_LEVEL_SHIFT tm)
                   (i + 1) T)
      else Some T)"

definition timer_shift :: "s_timer \<Rightarrow> s_timer option" where
  "timer_shift T =
     (let ct = time T + 1;
          T1 = T\<lparr>time := ct\<rparr>
      in if ct = 0 then move_list T1 3 0
         else shift_loop ct TIME_NEAR (drop_bit TIME_NEAR_SHIFT ct) 0 T1)"

text \<open>The \<open>do ... while\<close> loop reads its first node unconditionally.\<close>

fun dispatch_list :: "tw_env \<Rightarrow> ptr list \<Rightarrow> s_timer \<Rightarrow> s_timer option" where
  "dispatch_list e [] T = None"
| "dispatch_list e (temp # cur) T = do {
     n \<leftarrow> nodes T temp;
     T1 \<leftarrow> (if cancel n = 0 then invoke e n temp T else Some T);
     let T2 = free_node temp T1;
     if cur = [] then Some T2 else dispatch_list e cur T2
   }"

partial_function (option) exec_loop :: "tw_env \<Rightarrow> nat \<Rightarrow> s_timer \<Rightarrow> s_timer option" where
  "exec_loop e idx T =
     (if near T idx = [] then Some T
      else do {
        let (cur, rest) = link_clear (near T idx);
        let T1 = spinlock_unlock e (T\<lparr>near := (near T)(idx := rest)\<rparr>);
        T2 \<leftarrow> dispatch_list e cur T1;
        T3 \<leftarrow> spinlock_lock e T2;
        exec_loop e idx T3
      })"

definition timer_execute :: "tw_env \<Rightarrow> s_timer \<Rightarrow> s_timer option" where
  "timer_execute e T = exec_loop e (unat (time T AND TIME_NEAR_MASK)) T"

definition timer_update :: "tw_env \<Rightarrow> s_timer \<Rightarrow> s_timer option" where
  "timer_update e T = do {
     T1 \<leftarrow> spinlock_lock e T;
     T2 \<leftarrow> timer_execute e T1;
     T3 \<leftarrow> timer_shift T2;
     T4 \<leftarrow> timer_execute e T3;
     Some (spinlock_unlock e T4)
   }"

definition del_timer :: "s_timer \<Rightarrow> ptr \<Rightarrow> s_timer option" where
  "del_timer T p = map_option (\<lambda>n. T\<lparr>nodes := (nodes T)(p \<mapsto> n\<lparr>cancel := 1\<rparr>)\<rparr>) (nodes T p)"

definition timer_create_timer :: "tw_env \<Rightarrow> s_timer" where
  "timer_create_timer e =
     \<lparr>near = (\<lambda>_. []), tv = (\<lambda>_ _. []), lock = spin_init e, time = 0, current = 0,
      current_point = 0, nodes = Map.empty, calls = []\<rparr>"

definition gettime :: "int \<Rightarrow> int \<Rightarrow> u64" where
  "gettime tv_sec tv_nsec = word_of_int tv_sec * 100 + word_of_int (tv_nsec div 10000000)"

fun update_times :: "tw_env \<Rightarrow> nat \<Rightarrow> s_timer \<Rightarrow> s_timer option" where
  "update_times e 0 T = Some T"
| "update_times e (Suc i) T = timer_update e T \<bind> update_times e i"

definition expire_timer :: "tw_env \<Rightarrow> u64 \<Rightarrow> s_timer \<Rightarrow> s_timer option" where
  "expire_timer e cp T =
     (if cp \<noteq> current_point T then
        (let diff = ucast (cp - current_point T) :: u32
         in update_times e (unat diff) (T\<lparr>current_point := cp\<rparr>))
      else Some T)"

definition init_timer :: "tw_env \<Rightarrow> u64 \<Rightarrow> s_timer" where
  "init_timer e cp = (timer_create_timer e)\<lparr>current_point := cp\<rparr>"

definition clear_near :: "nat \<Rightarrow> s_timer \<Rightarrow> s_timer" where
  "clear_near i T = (fold free_node (near T i) T)\<lparr>near := (near T)(i := snd (link_clear (near T i)))\<rparr>"

definition clear_level :: "nat \<Rightarrow> nat \<Rightarrow> s_timer \<Rightarrow> s_timer" where
  "clear_level k i T =
     (fold free_node (tv T k i) T)
       \<lparr>tv := (tv T)(k := (tv T k)(i := snd (link_clear (tv T k i))))\<rparr>"

definition clear_timer :: "s_timer \<Rightarrow> s_timer" where
  "clear_timer T =
     fold (\<lambda>k. fold (clear_level k) [0..<64]) [0..<4] (fold clear_near [0..<256] T)"

end
