(* ===== verification/Timewheel_Slots.thy ===== *)
theory Timewheel_Slots
  imports Timewheel
begin

text \<open>
  The slots of the timing wheel as values, and the arithmetic of the cascade: which slot
  \<open>add_node\<close> chooses (\<open>add_node_put\<close>), which slot \<open>timer_shift\<close> empties at a given time
  (\<open>timer_shift_eq\<close>), and the relation between an expiry, the time and the slot of a node
  (\<open>placed\<close>) that one tick of time keeps (\<open>placed_next\<close>, \<open>moved_live\<close>).
\<close>

section \<open>Slots\<close>

datatype slot = Near nat | Lev nat nat

fun wheel :: "s_timer \<Rightarrow> slot \<Rightarrow> ptr list" where
  "wheel T (Near i) = near T i"
| "wheel T (Lev k i) = tv T k i"

fun put :: "slot \<Rightarrow> ptr \<Rightarrow> s_timer \<Rightarrow> s_timer" where
  "put (Near i) p T = link_near T i p"
| "put (Lev k i) p T = link_level T k i p"

definition lvl :: "nat \<Rightarrow> nat" where
  "lvl d = (if d < 2 ^ 14 then 0 else if d < 2 ^ 20 then 1 else if d < 2 ^ 26 then 2 else 3)"

text \<open>The slot for expiry \<open>e\<close> at time \<open>t\<close>, in natural numbers.\<close>

definition add_slot :: "u32 \<Rightarrow> u32 \<Rightarrow> slot" where
  "add_slot t e = (let d = unat (e - t) in
     if d < 256 then Near (unat e mod 256)
     else Lev (lvl d) (unat e div 2 ^ (8 + 6 * lvl d) mod 64))"

lemma tw_consts:
  "TIME_NEAR = 256" "TIME_NEAR_MASK = mask 8" "TIME_LEVEL_MASK = mask 6"
  "TIME_NEAR_SHIFT = 8" "TIME_LEVEL_SHIFT = 6"
  by (simp_all add: TIME_NEAR_def TIME_NEAR_MASK_def TIME_LEVEL_MASK_def TIME_LEVEL_def
      TIME_NEAR_SHIFT_def TIME_LEVEL_SHIFT_def mask_eq_exp_minus_1)

lemma put_wheel [simp]:
  "wheel (put s p T) s' = (if s' = s then wheel T s @ [p] else wheel T s')"
  by (cases s; cases s') (auto simp: link_near_def link_level_def link_def)

lemma put_fields [simp]:
  "nodes (put s p T) = nodes T" "time (put s p T) = time T" "lock (put s p T) = lock T"
  "calls (put s p T) = calls T"
  by (cases s; simp add: link_near_def link_level_def)+

lemma add_node_put:
  assumes "nodes T p = Some n"
  shows "add_node T p = Some (put (add_slot (time T) (expire n)) p T)"
proof -
  define d where "d = expire n - time T"
  show ?thesis
    using assms unfolding add_node_def add_slot_def
    by (simp add: d_def [symmetric] lvl_def Let_def tw_consts unat_simps word_less_nat_alt)
qed


section \<open>The arithmetic of the cascade\<close>

text \<open>
  A node of level \<open>k\<close> has a period \<open>M = 2 ^ (8 + 6 * k)\<close>: its slot is visited when the time
  is a multiple of \<open>M\<close> whose quotient by \<open>M\<close> is the slot's index modulo 64. A node whose
  expiry is \<open>d\<close> ticks away, with \<open>r = e mod M < d \<le> r + 64 * M\<close>, meets that time exactly
  \<open>d - r\<close> ticks from now.
\<close>

lemma mod_add_cancel: "x mod N = y mod N" if "(x + r) mod N = (y + r) mod N" for x y r N :: nat
proof (cases "x \<le> y")
  case True
  then have "N dvd (y + r) - (x + r)"
    using that by (metis add_le_mono1 mod_eq_dvd_iff_nat)
  with True show ?thesis by (metis add_diff_cancel_right mod_eq_dvd_iff_nat)
next
  case False
  then have "N dvd (x + r) - (y + r)"
    using that by (metis add_le_mono1 mod_eq_dvd_iff_nat nat_le_linear)
  with False show ?thesis by (simp add: mod_eq_dvd_iff_nat)
qed

lemma cascade_hit:
  fixes ct d r e M W :: nat
  assumes e: "e = (ct + d) mod W" and dvd: "64 * M dvd W" and M: "0 < M"
    and r: "r = e mod M" and d: "r \<le> d" "d < r + 64 * M"
  shows "d = r \<longleftrightarrow> ct mod M = 0 \<and> ct div M mod 64 = e div M mod 64"
proof -
  define N where "N = M * 64"
  define A where "A = M * (e div M mod 64)"
  have em: "e mod N = (ct + d) mod N"
    using dvd by (simp add: e N_def mod_mod_cancel mult.commute)
  have split: "x mod N = M * (x div M mod 64) + x mod M" for x
    unfolding N_def by (rule mod_mult2_eq)
  have eA: "e mod N = A + r" by (simp add: split A_def r)
  have N0: "0 < N" using M by (simp add: N_def)
  have AN: "(A + r) mod N = A + r" using N0 by (simp flip: eA)
  have AN': "A mod N = A" using N0 eA by (metis AN add_lessD1 mod_less mod_less_divisor)
  show ?thesis
  proof
    assume "d = r"
    with em eA AN have "(ct + r) mod N = (A + r) mod N" by simp
    then have "ct mod N = A" using AN' by (metis mod_add_cancel)
    moreover from this have "ct mod M = 0"
      by (metis A_def N_def dvd_triv_left mod_mod_cancel mod_mult_self1_is_0)
    ultimately show "ct mod M = 0 \<and> ct div M mod 64 = e div M mod 64"
      using split [of ct] M by (simp add: A_def)
  next
    assume "ct mod M = 0 \<and> ct div M mod 64 = e div M mod 64"
    then have "ct mod N = A" using split [of ct] by (simp add: A_def)
    then have "(ct + r) mod N = (ct + d) mod N"
      using em eA AN by (metis mod_add_left_eq)
    then have "N dvd (ct + d) - (ct + r)" using d(1)
      by (metis add_left_mono mod_eq_dvd_iff_nat)
    then have "N dvd d - r" by simp
    then show "d = r" using d by (auto simp: N_def mult.commute dest: dvd_imp_le)
  qed
qed


fun placed :: "u32 \<Rightarrow> slot \<Rightarrow> u32 \<Rightarrow> bool" where
  "placed t (Near i) e \<longleftrightarrow> i = unat e mod 256 \<and> unat (e - t) < 256"
| "placed t (Lev k i) e \<longleftrightarrow>
     k < 4 \<and> i = unat e div 2 ^ (8 + 6 * k) mod 64 \<and>
     (k < 3 \<and> i = 0 \<or>
      unat e mod 2 ^ (8 + 6 * k) < unat (e - t) \<and>
      unat (e - t) \<le> unat e mod 2 ^ (8 + 6 * k) + 64 * 2 ^ (8 + 6 * k))"

text \<open>The slots with index 0 of the three lower levels are never visited.\<close>

fun live :: "slot \<Rightarrow> bool" where
  "live (Near i) = True"
| "live (Lev k i) = (\<not> (k < 3 \<and> i = 0))"

lemma lvl_less [simp]: "lvl d < 4"
  by (simp add: lvl_def)

lemma placed_add_slot: "placed t (add_slot t e) e"
proof -
  define d where "d = unat (e - t)"
  have m: "unat e mod 2 ^ (8 + 6 * lvl d) < 2 ^ (8 + 6 * lvl d)" by simp
  have "d < 4294967296" by (simp add: d_def)
  then have "256 \<le> d \<Longrightarrow> 2 ^ (8 + 6 * lvl d) \<le> d \<and> d \<le> 64 * 2 ^ (8 + 6 * lvl d)"
    by (simp add: lvl_def)
  with m have "256 \<le> d \<Longrightarrow> unat e mod 2 ^ (8 + 6 * lvl d) < d \<and>
      d \<le> unat e mod 2 ^ (8 + 6 * lvl d) + 64 * 2 ^ (8 + 6 * lvl d)"
    by (meson less_le_trans trans_le_add2)
  then show ?thesis
    by (auto simp: add_slot_def Let_def d_def [symmetric])
qed

text \<open>The slot that \<open>timer_shift\<close> empties at time \<open>ct\<close>.\<close>

definition shift_slot :: "nat \<Rightarrow> (nat \<times> nat) option" where
  "shift_slot ct =
     (if ct = 0 then Some (3, 0)
      else if ct mod 2 ^ 8 \<noteq> 0 then None
      else if ct div 2 ^ 8 mod 64 \<noteq> 0 then Some (0, ct div 2 ^ 8 mod 64)
      else if ct div 2 ^ 14 mod 64 \<noteq> 0 then Some (1, ct div 2 ^ 14 mod 64)
      else if ct div 2 ^ 20 mod 64 \<noteq> 0 then Some (2, ct div 2 ^ 20 mod 64)
      else Some (3, ct div 2 ^ 26 mod 64))"

lemma shift_slot_bounds: "shift_slot ct = Some (k, i) \<Longrightarrow> k < 4 \<and> i < 64 \<and> live (Lev k i)"
  by (auto simp: shift_slot_def split: if_splits)

lemma mod_pow_split: "x mod 2 ^ (m + 6) = 2 ^ m * (x div 2 ^ m mod 64) + x mod 2 ^ m" for x :: nat
  using mod_mult2_eq [of x "2 ^ m" 64] by (simp add: power_add)

lemma ct_split:
  fixes ct :: nat
  assumes "ct < 4294967296"
  shows "ct mod 16384 = 256 * (ct div 256 mod 64) + ct mod 256"
    and "ct mod 1048576 = 16384 * (ct div 16384 mod 64) + ct mod 16384"
    and "ct mod 67108864 = 1048576 * (ct div 1048576 mod 64) + ct mod 1048576"
    and "67108864 * (ct div 67108864 mod 64) + ct mod 67108864 = ct"
proof -
  have "ct mod 4294967296 = ct" using assms by (rule mod_less)
  with mod_pow_split [of ct 26, simplified]
  show "67108864 * (ct div 67108864 mod 64) + ct mod 67108864 = ct" by (rule subst)
qed (use mod_pow_split [of ct 8] mod_pow_split [of ct 14] mod_pow_split [of ct 20] in simp_all)

lemma zero_split:
  fixes ct :: nat
  assumes "ct < 4294967296"
  shows "ct mod 2 ^ 14 = 0 \<longleftrightarrow> ct mod 2 ^ 8 = 0 \<and> ct div 2 ^ 8 mod 64 = 0"
    and "ct mod 2 ^ 20 = 0 \<longleftrightarrow> ct mod 2 ^ 14 = 0 \<and> ct div 2 ^ 14 mod 64 = 0"
    and "ct mod 2 ^ 26 = 0 \<longleftrightarrow> ct mod 2 ^ 20 = 0 \<and> ct div 2 ^ 20 mod 64 = 0"
    and "ct = 0 \<longleftrightarrow> ct mod 2 ^ 26 = 0 \<and> ct div 2 ^ 26 mod 64 = 0"
proof -
  show "ct mod 2 ^ 14 = 0 \<longleftrightarrow> ct mod 2 ^ 8 = 0 \<and> ct div 2 ^ 8 mod 64 = 0"
    using ct_split(1) [OF assms] by auto
  show "ct mod 2 ^ 20 = 0 \<longleftrightarrow> ct mod 2 ^ 14 = 0 \<and> ct div 2 ^ 14 mod 64 = 0"
    using ct_split(2) [OF assms] by auto
  show "ct mod 2 ^ 26 = 0 \<longleftrightarrow> ct mod 2 ^ 20 = 0 \<and> ct div 2 ^ 20 mod 64 = 0"
    using ct_split(3) [OF assms] by auto
  have "ct = 0" if "ct mod 67108864 = 0" "ct div 67108864 mod 64 = 0"
    using ct_split(4) [OF assms] unfolding that by simp
  then show "ct = 0 \<longleftrightarrow> ct mod 2 ^ 26 = 0 \<and> ct div 2 ^ 26 mod 64 = 0"
    by auto
qed

lemma shift_slot_iff:
  assumes "ct < 4294967296" "k < 4" "live (Lev k i)"
  shows "shift_slot ct = Some (k, i) \<longleftrightarrow>
    ct mod 2 ^ (8 + 6 * k) = 0 \<and> ct div 2 ^ (8 + 6 * k) mod 64 = i"
proof -
  define a b c f where abcf: "a = ct div 256 mod 64" "b = ct div 16384 mod 64"
    "c = ct div 1048576 mod 64" "f = ct div 67108864 mod 64"
  define x8 x14 x20 x26 where x: "x8 = ct mod 256" "x14 = ct mod 16384"
    "x20 = ct mod 1048576" "x26 = ct mod 67108864"
  have s: "x14 = 256 * a + x8" "x20 = 16384 * b + x14" "x26 = 1048576 * c + x20"
    "67108864 * f + x26 = ct"
    unfolding abcf x by (rule ct_split [OF assms(1)])+
  have d: "shift_slot ct = (if ct = 0 then Some (3, 0) else if x8 \<noteq> 0 then None
     else if a \<noteq> 0 then Some (0, a) else if b \<noteq> 0 then Some (1, b)
     else if c \<noteq> 0 then Some (2, c) else Some (3, f))"
    unfolding shift_slot_def abcf x by simp
  from \<open>k < 4\<close> consider (0) "k = 0" | (1) "k = 1" | (2) "k = 2" | (3) "k = 3" by linarith
  note k_cases = this
  from k_cases have e: "shift_slot ct = Some (k, i) \<longleftrightarrow>
     (k = 0 \<and> x8 = 0 \<and> a = i) \<or> (k = 1 \<and> x14 = 0 \<and> b = i) \<or>
     (k = 2 \<and> x20 = 0 \<and> c = i) \<or> (k = 3 \<and> x26 = 0 \<and> f = i)"
    using s assms(3) unfolding d by cases auto
  from k_cases show ?thesis
    unfolding e by cases (simp_all add: abcf x)
qed


lemma level_mask_eq_0: "(drop_bit m ct AND TIME_LEVEL_MASK = 0) = (unat ct div 2 ^ m mod 64 = 0)"
  for ct :: u32
  by (simp add: tw_consts unat_simps flip: unat_eq_0)

lemma low_mask_eq_0: "(ct AND mask m = 0) = (unat ct mod 2 ^ m = 0)" for ct :: u32
  by (simp add: unat_simps flip: unat_eq_0)

lemma shift_loop_stage:
  "shift_loop ct (push_bit m 1) (drop_bit m ct) i T =
     (if unat ct mod 2 ^ m = 0 then
        (if unat ct div 2 ^ m mod 64 \<noteq> 0 then move_list T i (unat ct div 2 ^ m mod 64)
         else shift_loop ct (push_bit (m + 6) 1) (drop_bit (m + 6) ct) (i + 1) T)
      else Some T)"
proof -
  have m: "(ct AND (push_bit m 1 - 1) = 0) = (unat ct mod 2 ^ m = 0)"
    using low_mask_eq_0 [of ct m] by (simp add: mask_eq_exp_minus_1)
  have i: "unat (drop_bit m ct AND TIME_LEVEL_MASK) = unat ct div 2 ^ m mod 64"
    by (simp add: tw_consts unat_simps)
  have shifts: "push_bit TIME_LEVEL_SHIFT (push_bit m 1) = (push_bit (m + 6) 1 :: u32)"
    "drop_bit TIME_LEVEL_SHIFT (drop_bit m ct) = drop_bit (m + 6) ct"
    by (simp_all only: tw_consts push_bit_push_bit drop_bit_drop_bit add.commute)
  show ?thesis
    by (subst shift_loop.simps) (simp only: m i level_mask_eq_0 Let_def shifts)
qed

lemma timer_shift_eq:
  "timer_shift T =
     (let T1 = T\<lparr>time := time T + 1\<rparr>
      in case shift_slot (unat (time T + 1)) of
           None \<Rightarrow> Some T1
         | Some (k, i) \<Rightarrow> move_list T1 k i)"
proof -
  define ct where "ct = time T + 1"
  define T1 where "T1 = T\<lparr>time := ct\<rparr>"
  have z: "ct = 0 \<longleftrightarrow> unat ct = 0" by (simp add: unat_eq_0)
  define L where "L m i = shift_loop ct (push_bit m 1) (drop_bit m ct) i T1" for m i
  define a b c f where abcf: "a = unat ct div 2 ^ 8 mod 64" "b = unat ct div 2 ^ 14 mod 64"
    "c = unat ct div 2 ^ 20 mod 64" "f = unat ct div 2 ^ 26 mod 64"
  have st: "L m i = (if unat ct mod 2 ^ m = 0 then
      (if unat ct div 2 ^ m mod 64 \<noteq> 0 then move_list T1 i (unat ct div 2 ^ m mod 64)
       else L m' i') else Some T1)"
    if "m' = m + 6" "i' = i + 1" for m i m' i'
    unfolding L_def that by (rule shift_loop_stage)
  note s = zero_split [OF unat_less_pow32 [of ct], folded abcf]
  define x8 where "x8 = unat ct mod 2 ^ 8"
  have L8: "L 8 0 = (if x8 = 0 then if a \<noteq> 0 then move_list T1 0 a else L 14 1 else Some T1)"
    and L14: "L 14 1 = (if x8 = 0 \<and> a = 0 then if b \<noteq> 0 then move_list T1 1 b else L 20 2
      else Some T1)"
    and L20: "L 20 2 = (if (x8 = 0 \<and> a = 0) \<and> b = 0 then
      if c \<noteq> 0 then move_list T1 2 c else L 26 3 else Some T1)"
    and L26: "L 26 3 = (if ((x8 = 0 \<and> a = 0) \<and> b = 0) \<and> c = 0 then
      if f \<noteq> 0 then move_list T1 3 f else L 32 4 else Some T1)"
    using st [of 14 8 1 0] st [of 20 14 2 1] st [of 26 20 3 2] st [of 32 26 4 3]
    unfolding abcf [symmetric] s x8_def [symmetric] by simp_all
  have L: "L 8 0 = (case shift_slot (unat ct) of None \<Rightarrow> Some T1 | Some (k, i) \<Rightarrow> move_list T1 k i)"
    if "ct \<noteq> 0"
    using that unfolding L8 L14 L20 L26 shift_slot_def z s abcf [symmetric] x8_def [symmetric]
    by auto
  from L [unfolded L_def] show ?thesis
    unfolding timer_shift_def Let_def ct_def [symmetric] T1_def [symmetric]
    by (simp add: z TIME_NEAR_def TIME_NEAR_SHIFT_def shift_slot_def)
qed


lemma div_mod_64: "x div 2 ^ m mod 64 = x mod (2 ^ m * 64) div 2 ^ m" for x :: nat
  by (simp add: mod_mult2_eq)

section \<open>One tick of time and the placement of a node\<close>

lemma dist_next: "e \<noteq> t \<Longrightarrow> unat (e - (t + 1)) = unat (e - t) - 1" for e t :: u32
  using unat_minus_one [of "e - t"] by (simp add: diff_diff_add)

lemma dist_0: "unat (e - t) = 0 \<longleftrightarrow> e = t" for e t :: u32
  by (simp add: unat_eq_0)

lemma unat_target: "unat e = (unat t + unat (e - t)) mod 4294967296" for e t :: u32
  using unat_word_ariths(1) [of t "e - t"] by simp

lemma live_hit:
  assumes p: "placed t (Lev k i) e" and l: "live (Lev k i)"
  shows "unat (e - (t + 1)) = unat e mod 2 ^ (8 + 6 * k) \<longleftrightarrow>
    shift_slot (unat (t + 1)) = Some (k, i)"
proof -
  let ?M = "2 ^ (8 + 6 * k) :: nat" and ?r = "unat e mod 2 ^ (8 + 6 * k)"
  have k: "k < 4" and i: "i = unat e div ?M mod 64" and lt: "?r < unat (e - t)"
    and le: "unat (e - t) \<le> ?r + 64 * ?M"
    using p l by auto
  have "e \<noteq> t" using lt by auto
  then have d: "unat (e - (t + 1)) = unat (e - t) - 1" by (rule dist_next)
  have "64 * ?M dvd 4294967296"
  proof -
    have "64 * ?M = 2 ^ (14 + 6 * k)" by (simp add: power_add)
    moreover have "(2::nat) ^ (14 + 6 * k) dvd 2 ^ 32" using k by (intro le_imp_power_dvd) simp
    ultimately show ?thesis by simp
  qed
  then have "unat (e - (t + 1)) = ?r \<longleftrightarrow>
      unat (t + 1) mod ?M = 0 \<and> unat (t + 1) div ?M mod 64 = unat e div ?M mod 64"
    using lt le d by (intro cascade_hit [OF unat_target]) auto
  also have "\<dots> \<longleftrightarrow> shift_slot (unat (t + 1)) = Some (k, i)"
    using shift_slot_iff [OF unat_less_pow32 k l] i by auto
  finally show ?thesis .
qed

lemma placed_next:
  assumes p: "placed t s e" and n: "e \<noteq> t \<or> (\<forall>i. s \<noteq> Near i)"
    and h: "\<And>k i. s = Lev k i \<Longrightarrow> shift_slot (unat (t + 1)) \<noteq> Some (k, i)"
  shows "placed (t + 1) s e"
proof (cases s)
  case (Near i)
  with p n show ?thesis by (auto simp: dist_next)
next
  case (Lev k i)
  show ?thesis
  proof (cases "live (Lev k i)")
    case True
    have r: "unat e mod 2 ^ (8 + 6 * k) < unat (e - t)" using p True Lev by auto
    then have "e \<noteq> t" by auto
    then have "unat (e - (t + 1)) = unat (e - t) - 1" by (rule dist_next)
    moreover have "unat (e - (t + 1)) \<noteq> unat e mod 2 ^ (8 + 6 * k)"
      using live_hit [OF p [unfolded Lev] True] h [OF Lev] by simp
    ultimately show ?thesis using p r True unfolding Lev by auto
  qed (use p Lev in auto)
qed

lemma moved_live:
  assumes "placed t (Lev k i) e" and h: "shift_slot (unat (t + 1)) = Some (k, i)"
  shows "live (add_slot (t + 1) e)"
proof -
  let ?d = "unat (e - (t + 1))"
  have l: "live (Lev k i)" and k: "k < 4" using shift_slot_bounds [OF h] by auto
  have d: "unat e mod 2 ^ (8 + 6 * k) = ?d"
    using live_hit [OF assms(1) l] h by simp
  have lt: "?d < 2 ^ (8 + 6 * k)" by (simp flip: d)
  show ?thesis
  proof (cases "?d < 256")
    case False
    let ?j = "lvl ?d"
    have b: "2 ^ (8 + 6 * ?j) \<le> ?d" "?j < 3 \<Longrightarrow> ?d < 2 ^ (8 + 6 * ?j) * 64"
      using False unat_less_pow32 [of "e - (t + 1)"] by (auto simp: lvl_def)
    have "2 ^ (8 + 6 * ?j) < (2::nat) ^ (8 + 6 * k)" using b(1) lt by linarith
    then have jk: "?j < k" by (simp add: power_strict_increasing_iff)
    then have dv: "(2::nat) ^ (8 + 6 * ?j) * 64 dvd 2 ^ (8 + 6 * k)"
      using le_imp_power_dvd [of "14 + 6 * ?j" "8 + 6 * k" "2::nat"] by (simp add: power_add)
    have "unat e mod (2 ^ (8 + 6 * ?j) * 64) = ?d mod (2 ^ (8 + 6 * ?j) * 64)"
      using mod_mod_cancel [OF dv, of "unat e"] unfolding d by (rule sym)
    then have "unat e div 2 ^ (8 + 6 * ?j) mod 64 = ?d div 2 ^ (8 + 6 * ?j) mod 64"
      unfolding div_mod_64 [of "unat e"] div_mod_64 [of "?d"] by (rule arg_cong)
    also have "\<dots> = ?d div 2 ^ (8 + 6 * ?j)"
      using b(2) jk k by (simp add: less_mult_imp_div_less)
    also have "\<dots> \<noteq> 0" using b(1) by (simp add: div_greater_zero_iff)
    finally show ?thesis using False by (simp add: add_slot_def Let_def)
  qed (simp add: add_slot_def)
qed

end
