(* ===== verification/Timewheel_Correct.thy ===== *)
theory Timewheel_Correct
  imports Timewheel_Slots
begin

text \<open>
  The invariant of the timing wheel and the correctness of its operations: moving and
  dispatching lists, one tick (\<open>timer_update_correct\<close>), runs of ticks, scheduling,
  cancelling and clearing. The last section holds the properties.
\<close>

section \<open>The invariant of the wheel\<close>

definition wheel_inv :: "s_timer \<Rightarrow> bool" where
  "wheel_inv T \<longleftrightarrow>
     (\<forall>s p. p \<in> set (wheel T s) \<longrightarrow> (\<exists>n. nodes T p = Some n \<and> placed (time T) s (expire n))) \<and>
     (\<forall>s. distinct (wheel T s)) \<and>
     (\<forall>s s' p. p \<in> set (wheel T s) \<longrightarrow> p \<in> set (wheel T s') \<longrightarrow> s = s')"

definition unlinked :: "s_timer \<Rightarrow> ptr \<Rightarrow> bool" where
  "unlinked T p \<longleftrightarrow> (\<forall>s. p \<notin> set (wheel T s))"

text \<open>Between two ticks nothing is due: the slot of the current time is empty.\<close>

definition at_rest :: "s_timer \<Rightarrow> bool" where
  "at_rest T \<longleftrightarrow> near T (unat (time T) mod 256) = []"

definition frame :: "s_timer \<Rightarrow> s_timer \<Rightarrow> bool" where
  "frame T T' \<longleftrightarrow> nodes T' = nodes T \<and> time T' = time T \<and> lock T' = lock T \<and> calls T' = calls T"

abbreviation target :: "s_timer \<Rightarrow> ptr \<Rightarrow> slot" where
  "target T p \<equiv> add_slot (time T) (expire (the (nodes T p)))"

lemma wheel_inv_node:
  "wheel_inv T \<Longrightarrow> p \<in> set (wheel T s) \<Longrightarrow> \<exists>n. nodes T p = Some n \<and> placed (time T) s (expire n)"
  by (auto simp: wheel_inv_def)

lemma wheel_inv_unique:
  "wheel_inv T \<Longrightarrow> p \<in> set (wheel T s) \<Longrightarrow> p \<in> set (wheel T s') \<Longrightarrow> s = s'"
  by (auto simp: wheel_inv_def)

lemma relink_eq:
  assumes "\<forall>p\<in>set ps. p \<in> dom (nodes T)"
  shows "\<exists>T'. relink ps T = Some T' \<and> frame T T' \<and>
    (\<forall>s. wheel T' s = wheel T s @ filter (\<lambda>p. target T p = s) ps)"
  using assms
proof (induction ps arbitrary: T)
  case (Cons p ps)
  then obtain n where n: "nodes T p = Some n" by auto
  let ?T = "put (target T p) p T"
  have f: "frame T ?T" by (simp add: frame_def)
  then have "\<forall>q\<in>set ps. q \<in> dom (nodes ?T)" using Cons.prems by (auto simp: frame_def)
  from Cons.IH [OF this] obtain T' where "relink ps ?T = Some T'" "frame ?T T'"
    "\<forall>s. wheel T' s = wheel ?T s @ filter (\<lambda>q. target ?T q = s) ps" by blast
  then show ?case using n f add_node_put [OF n] by (auto simp: frame_def)
qed (simp add: frame_def)

lemma move_list_eq:
  assumes "k < 4" "i < 64" and d: "\<forall>p\<in>set (tv T k i). p \<in> dom (nodes T)"
  shows "\<exists>T'. move_list T k i = Some T' \<and> frame T T' \<and>
    (\<forall>s. wheel T' s = (if s = Lev k i then [] else wheel T s) @
       filter (\<lambda>p. target T p = s) (tv T k i))"
proof -
  let ?T = "T\<lparr>tv := (tv T)(k := (tv T k)(i := []))\<rparr>"
  have w: "wheel ?T s = (if s = Lev k i then [] else wheel T s)" for s by (cases s) auto
  have "\<forall>p\<in>set (tv T k i). p \<in> dom (nodes ?T)" using d by simp
  from relink_eq [OF this] show ?thesis
    using assms(1,2) by (simp only: w) (auto simp: move_list_def link_clear_def frame_def)
qed

text \<open>
  The effect of moving the nodes of one slot to their targets keeps the invariant, provided
  the other nodes are still well placed at the new time.
\<close>

lemma wheel_inv_moved:
  assumes inv: "wheel_inv T"
    and nodes: "nodes T' = nodes T"
    and w: "\<And>s. wheel T' s = (if s = m then [] else wheel T s) @
        filter (\<lambda>p. add_slot (time T') (expire (the (nodes T p))) = s) (wheel T m)"
    and keep: "\<And>s p n. s \<noteq> m \<Longrightarrow> p \<in> set (wheel T s) \<Longrightarrow> nodes T p = Some n \<Longrightarrow>
        placed (time T') s (expire n)"
  shows "wheel_inv T'"
proof -
  have 1: "\<exists>n. nodes T' p = Some n \<and> placed (time T') s (expire n)" if "p \<in> set (wheel T' s)" for p s
  proof -
    from that w consider "s \<noteq> m" "p \<in> set (wheel T s)"
      | "p \<in> set (wheel T m)" "add_slot (time T') (expire (the (nodes T p))) = s"
      by (auto split: if_splits)
    then show ?thesis
    proof cases
      case 1
      with wheel_inv_node [OF inv this(2)] keep show ?thesis by (auto simp: nodes)
    next
      case 2
      with wheel_inv_node [OF inv this(1)] placed_add_slot show ?thesis by (auto simp: nodes)
    qed
  qed
  have "distinct (wheel T' s)" for s
    using inv by (auto simp: w wheel_inv_def)
  moreover have "s = s'" if "p \<in> set (wheel T' s)" "p \<in> set (wheel T' s')" for s s' p
    using that wheel_inv_unique [OF inv, of p] by (auto simp: w split: if_splits)
  ultimately show ?thesis using 1 by (auto simp: wheel_inv_def)
qed

lemma rest_not_due:
  assumes "wheel_inv T" "at_rest T" "p \<in> set (wheel T (Near i))" "nodes T p = Some n"
  shows "expire n \<noteq> time T"
  using wheel_inv_node [OF assms(1,3)] assms(2-4) by (auto simp: at_rest_def)

lemma placed_shift:
  assumes "wheel_inv T" "at_rest T" "p \<in> set (wheel T s)" "nodes T p = Some n"
    and "\<And>k i. s = Lev k i \<Longrightarrow> shift_slot (unat (time T + 1)) \<noteq> Some (k, i)"
  shows "placed (time T + 1) s (expire n)"
  using wheel_inv_node [OF assms(1,3)] assms(4,5) rest_not_due [OF assms(1,2)] assms(3)
  by (intro placed_next) auto

lemma timer_shift_correct:
  assumes inv: "wheel_inv T" and rest: "at_rest T"
  shows "\<exists>T'. timer_shift T = Some T' \<and> nodes T' = nodes T \<and> lock T' = lock T \<and>
    calls T' = calls T \<and> time T' = time T + 1 \<and> wheel_inv T' \<and>
    (\<forall>p s. p \<in> set (wheel T s) \<and> live s \<longrightarrow> (\<exists>s'. live s' \<and> p \<in> set (wheel T' s'))) \<and>
    (\<forall>p. unlinked T p \<longrightarrow> unlinked T' p) \<and>
    (\<forall>s. \<not> live s \<longrightarrow> set (wheel T s) \<subseteq> set (wheel T' s))"
proof (cases "shift_slot (unat (time T + 1))")
  case None
  let ?T = "T\<lparr>time := time T + 1\<rparr>"
  have w: "wheel ?T s = wheel T s" for s by (cases s) auto
  have "wheel_inv ?T"
    using placed_shift [OF inv rest] inv None unfolding wheel_inv_def by (fastforce simp: w)
  then show ?thesis using None by (auto simp: timer_shift_eq Let_def unlinked_def w)
next
  case (Some ki)
  then obtain k i where ki: "shift_slot (unat (time T + 1)) = Some (k, i)" by (cases ki) auto
  let ?T = "T\<lparr>time := time T + 1\<rparr>"
  have w: "wheel ?T s = wheel T s" for s by (cases s) auto
  have b: "k < 4" "i < 64" and l: "live (Lev k i)" using shift_slot_bounds [OF ki] by auto
  have "\<forall>p\<in>set (tv ?T k i). p \<in> dom (nodes ?T)"
    using inv wheel_inv_node [of T _ "Lev k i"] by fastforce
  from move_list_eq [OF b this] obtain T' where T': "move_list ?T k i = Some T'" "frame ?T T'"
    and wT: "\<And>s. wheel T' s = (if s = Lev k i then [] else wheel T s) @
      filter (\<lambda>p. target ?T p = s) (wheel T (Lev k i))"
    by (auto simp: w)
  have f: "nodes T' = nodes T" "time T' = time T + 1" "lock T' = lock T" "calls T' = calls T"
    using T'(2) by (auto simp: frame_def)
  have inv': "wheel_inv T'"
  proof (rule wheel_inv_moved [OF inv f(1)])
    show "placed (time T') s (expire n)"
      if "s \<noteq> Lev k i" "p \<in> set (wheel T s)" "nodes T p = Some n" for s p n
      using placed_shift [OF inv rest that(2,3)] that(1) ki by (auto simp: f)
  qed (simp add: wT f)
  have "\<exists>s'. live s' \<and> p \<in> set (wheel T' s')" if p: "p \<in> set (wheel T s)" "live s" for p s
  proof (cases "s = Lev k i")
    case True
    from wheel_inv_node [OF inv p(1)] obtain n where
      n: "nodes T p = Some n" "placed (time T) (Lev k i) (expire n)" using True by auto
    have "live (target ?T p)" using moved_live [OF n(2) ki] n(1) by simp
    then show ?thesis using p True by (intro exI [of _ "target ?T p"]) (simp add: wT)
  qed (use p in \<open>auto simp: wT\<close>)
  moreover have "set (wheel T s) \<subseteq> set (wheel T' s)" if "\<not> live s" for s
    using that l by (auto simp: wT)
  moreover have "unlinked T' p" if "unlinked T p" for p
    using that by (auto simp: unlinked_def wT simp del: wheel.simps)
  moreover have "timer_shift T = Some T'"
    using ki T'(1) by (simp add: timer_shift_eq)
  ultimately show ?thesis using f inv' by blast
qed

section \<open>Callbacks\<close>

text \<open>
  What a callback may do to the wheel: schedule new timers (in nodes that were free, outside
  the slot of the current time). It returns with the lock as it found it.
\<close>

definition extends :: "s_timer \<Rightarrow> s_timer \<Rightarrow> bool" where
  "extends T T' \<longleftrightarrow>
     time T' = time T \<and> lock T' = lock T \<and> calls T' = calls T \<and> nodes T \<subseteq>\<^sub>m nodes T' \<and>
     near T' (unat (time T) mod 256) = near T (unat (time T) mod 256) \<and>
     (\<forall>s. \<exists>xs. wheel T' s = wheel T s @ xs \<and> set xs \<inter> dom (nodes T) = {})"

definition cb_ok :: "tw_env \<Rightarrow> nat \<Rightarrow> bool" where
  "cb_ok e l0 \<longleftrightarrow> (\<forall>h p T. wheel_inv T \<longrightarrow> lock T = l0 \<longrightarrow>
     (\<exists>T'. run_cb e h p T = Some T' \<and> wheel_inv T' \<and> extends T T'))"

definition lock_pair :: "tw_env \<Rightarrow> nat \<Rightarrow> nat \<Rightarrow> bool" where
  "lock_pair e l0 l1 \<longleftrightarrow> spin_acquire e l0 = Some l1 \<and> spin_release e l1 = l0"

text \<open>The invocations that emptying the slot \<open>ps\<close> makes: the nodes that are not cancelled.\<close>

definition due_calls :: "s_timer \<Rightarrow> ptr list \<Rightarrow> (ptr \<times> u32) list" where
  "due_calls T ps =
     map (\<lambda>p. (p, time T)) (filter (\<lambda>p. cancel (the (nodes T p)) = 0) ps)"

lemma wheel_upd [simp]:
  "wheel (T\<lparr>calls := c\<rparr>) s = wheel T s" "wheel (T\<lparr>nodes := m\<rparr>) s = wheel T s"
  "wheel (T\<lparr>lock := l\<rparr>) s = wheel T s" "wheel (T\<lparr>time := t\<rparr>) s = wheel T s"
  "wheel (free_node p T) s = wheel T s" "wheel (spinlock_unlock e T) s = wheel T s"
  by (cases s; simp add: free_node_def spinlock_unlock_def)+

lemma wheel_inv_free: "wheel_inv T \<Longrightarrow> unlinked T p \<Longrightarrow> wheel_inv (free_node p T)"
  unfolding wheel_inv_def unlinked_def by (auto simp: free_node_def)

lemma dispatch_list_correct:
  assumes "cb_ok e l0" "wheel_inv T" "lock T = l0" "ps \<noteq> []" "distinct ps"
    "\<forall>p\<in>set ps. unlinked T p \<and> p \<in> dom (nodes T)"
  shows "\<exists>T'. dispatch_list e ps T = Some T' \<and> wheel_inv T' \<and> time T' = time T \<and>
    lock T' = lock T \<and>
    near T' (unat (time T) mod 256) = near T (unat (time T) mod 256) \<and>
    calls T' = calls T @ due_calls T ps \<and>
    (\<forall>s. \<exists>xs. wheel T' s = wheel T s @ xs) \<and>
    (\<forall>q\<in>dom (nodes T) - set ps. nodes T' q = nodes T q)"
  using assms(2-)
proof (induction ps arbitrary: T)
  case (Cons p ps)
  from Cons.prems obtain n where n: "nodes T p = Some n" by auto
  define T0 where "T0 = T\<lparr>calls := calls T @ [(p, time T)]\<rparr>"
  have inv0: "wheel_inv T0" "lock T0 = l0"
    using Cons.prems by (auto simp: T0_def wheel_inv_def)
  obtain T1 where T1: "(if cancel n = 0 then invoke e n p T else Some T) = Some T1"
    and inv1: "wheel_inv T1"
    and ext: "time T1 = time T" "lock T1 = lock T" "nodes T \<subseteq>\<^sub>m nodes T1"
      "near T1 (unat (time T) mod 256) = near T (unat (time T) mod 256)"
      "\<forall>s. \<exists>xs. wheel T1 s = wheel T s @ xs \<and> set xs \<inter> dom (nodes T) = {}"
    and calls1: "calls T1 = calls T @ due_calls T [p]"
  proof (cases "cancel n = 0")
    case True
    from assms(1) inv0 obtain T1 where "run_cb e (callback n) p T0 = Some T1" "wheel_inv T1"
      "extends T0 T1" unfolding cb_ok_def by blast
    then show ?thesis
      using True n that [of T1] by (auto simp: invoke_def T0_def extends_def due_calls_def)
  next
    case False
    with n Cons.prems that [of T] show ?thesis by (auto simp: due_calls_def)
  qed
  have unl1: "unlinked T1 q" if "q \<in> set (p # ps)" for q
    unfolding unlinked_def
  proof
    fix s
    from ext(5) obtain xs where "wheel T1 s = wheel T s @ xs" "set xs \<inter> dom (nodes T) = {}"
      by blast
    then show "q \<notin> set (wheel T1 s)" using Cons.prems(5) that by (auto simp: unlinked_def)
  qed
  have dom1: "nodes T1 q = nodes T q" if "q \<in> dom (nodes T)" for q
    using ext(3) that by (auto simp: map_le_def)
  let ?T2 = "free_node p T1"
  have inv2: "wheel_inv ?T2" using inv1 unl1 by (intro wheel_inv_free) auto
  have near2: "near ?T2 i = near T1 i" for i by (simp add: free_node_def)
  show ?case
  proof (cases "ps = []")
    case True
    then show ?thesis
      using n T1 inv2 ext calls1 dom1 by (auto simp: free_node_def)
  next
    case False
    have f2: "time ?T2 = time T" "lock ?T2 = lock T" "calls ?T2 = calls T1"
      "nodes ?T2 = (nodes T1)(p := None)"
      using ext by (auto simp: free_node_def)
    have all: "\<forall>q\<in>set ps. unlinked ?T2 q \<and> q \<in> dom (nodes ?T2)"
      using unl1 dom1 Cons.prems(4,5) by (auto simp: unlinked_def f2 domIff)
    have "lock ?T2 = l0" "distinct ps" using Cons.prems(2,4) f2 by auto
    from Cons.IH [OF inv2 this(1) False this(2) all] obtain T' where
      T': "dispatch_list e ps ?T2 = Some T'" "wheel_inv T'" "time T' = time T" "lock T' = lock T"
        "near T' (unat (time T) mod 256) = near ?T2 (unat (time T) mod 256)"
        "calls T' = calls T1 @ due_calls ?T2 ps" "\<forall>s. \<exists>xs. wheel T' s = wheel ?T2 s @ xs"
        "\<forall>q\<in>dom (nodes ?T2) - set ps. nodes T' q = nodes ?T2 q"
      unfolding f2 by blast
    have "due_calls ?T2 ps = due_calls T ps"
      using Cons.prems(4,5) dom1 f2 unfolding due_calls_def
      by (intro arg_cong2 [where f = map]) (auto intro!: filter_cong)
    then have "calls T' = calls T @ due_calls T (p # ps)"
      using T'(6) calls1 by (simp add: due_calls_def)
    moreover have "\<forall>s. \<exists>xs. wheel T' s = wheel T s @ xs"
      using T'(7) ext(5) by (metis append_assoc wheel_upd(5))
    moreover have "nodes T' q = nodes T q" if "q \<in> dom (nodes T) - set (p # ps)" for q
      using that T'(8) dom1 [of q] by (auto simp: f2 domIff)
    ultimately show ?thesis
      using n T1 False T' ext(4) near2 by (auto simp: bind_simps)
  qed
qed simp

section \<open>A tick\<close>

definition calls_of :: "ptr \<Rightarrow> s_timer \<Rightarrow> (ptr \<times> u32) list" where
  "calls_of p T = filter (\<lambda>c. fst c = p) (calls T)"

lemma near_current:
  assumes "placed t (Near (unat t mod 256)) e" shows "e = t"
proof -
  let ?d = "unat (e - t)"
  have "unat e mod 256 = (unat t + ?d) mod 256"
    by (subst unat_target [of e t]) (simp add: mod_mod_cancel)
  then have "256 dvd (unat t + ?d) - unat t"
    using assms by (metis le_add1 mod_eq_dvd_iff_nat placed.simps(1))
  then have "?d = 0" using assms by (auto dest: dvd_imp_le)
  then show ?thesis by (simp add: dist_0)
qed

lemma near_index: "unat (t AND TIME_NEAR_MASK) = unat t mod 256" for t :: u32
  by (simp add: tw_consts unat_simps)

lemma wheel_inv_cong:
  "wheel T' = wheel T \<Longrightarrow> nodes T' = nodes T \<Longrightarrow> time T' = time T \<Longrightarrow> wheel_inv T' = wheel_inv T"
  unfolding wheel_inv_def by simp

lemma wheel_inv_clear:
  assumes "wheel_inv T" "nodes T' = nodes T" "time T' = time T"
    "\<And>s. wheel T' s = (if s = m then [] else wheel T s)"
  shows "wheel_inv T'"
  using assms(1) unfolding wheel_inv_def by (auto simp: assms split: if_splits)

lemma timer_execute_rest: "at_rest T \<Longrightarrow> timer_execute e T = Some T"
  by (simp add: timer_execute_def near_index at_rest_def exec_loop.simps)

lemma due_calls_of:
  assumes "distinct ps"
  shows "filter (\<lambda>c. fst c = p) (due_calls T ps) =
    (if p \<in> set ps \<and> cancel (the (nodes T p)) = 0 then [(p, time T)] else [])"
  using assms unfolding due_calls_def by (induction ps) auto

lemma timer_execute_correct:
  assumes cb: "cb_ok e l0" and lp: "lock_pair e l0 l1" and inv: "wheel_inv T" and l: "lock T = l1"
  defines "cur \<equiv> unat (time T) mod 256"
  shows "\<exists>T'. timer_execute e T = Some T' \<and> wheel_inv T' \<and> at_rest T' \<and> time T' = time T \<and>
    lock T' = l1 \<and> calls T' = calls T @ due_calls T (near T cur) \<and>
    (\<forall>s. s \<noteq> Near cur \<longrightarrow> (\<exists>xs. wheel T' s = wheel T s @ xs)) \<and>
    (\<forall>q\<in>dom (nodes T) - set (near T cur). nodes T' q = nodes T q)"
proof (cases "near T cur = []")
  case True
  with inv l show ?thesis
    by (intro exI [of _ T]) (auto simp: timer_execute_rest at_rest_def cur_def due_calls_def)
next
  case False
  let ?ps = "near T cur"
  let ?T0 = "T\<lparr>near := (near T)(cur := [])\<rparr>"
  let ?T1 = "spinlock_unlock e ?T0"
  have w0: "wheel ?T0 s = (if s = Near cur then [] else wheel T s)" for s by (cases s) auto
  have f1: "time ?T1 = time T" "lock ?T1 = l0" "calls ?T1 = calls T" "nodes ?T1 = nodes T"
    "near ?T1 cur = []"
    using lp l by (auto simp: spinlock_unlock_def lock_pair_def)
  have w1: "wheel ?T1 s = (if s = Near cur then [] else wheel T s)" for s by (simp add: w0)
  have inv1: "wheel_inv ?T1" by (rule wheel_inv_clear [OF inv _ _ w1]) (simp_all add: f1)
  have d: "distinct ?ps" using inv by (metis wheel.simps(1) wheel_inv_def)
  have u: "\<forall>p\<in>set ?ps. unlinked ?T1 p \<and> p \<in> dom (nodes ?T1)"
  proof
    fix p assume "p \<in> set ?ps"
    then have p: "p \<in> set (wheel T (Near cur))" by simp
    show "unlinked ?T1 p \<and> p \<in> dom (nodes ?T1)"
      using wheel_inv_node [OF inv p] wheel_inv_unique [OF inv p]
      by (auto simp: unlinked_def w0 f1 simp del: wheel.simps split: if_splits)
  qed
  have due: "due_calls ?T1 ?ps = due_calls T ?ps" by (simp add: due_calls_def f1)
  from dispatch_list_correct [OF cb inv1 f1(2) False d u] obtain T2 where
    T2: "dispatch_list e ?ps ?T1 = Some T2" "wheel_inv T2" "time T2 = time T" "lock T2 = l0"
      "near T2 cur = []" "calls T2 = calls T @ due_calls T ?ps"
      "\<forall>s. \<exists>xs. wheel T2 s = wheel ?T1 s @ xs"
      "\<forall>q\<in>dom (nodes T) - set ?ps. nodes T2 q = nodes T q"
    unfolding f1 due cur_def [symmetric] by blast
  let ?T3 = "T2\<lparr>lock := l1\<rparr>"
  have l3: "spinlock_lock e T2 = Some ?T3"
    using lp T2(4) by (simp add: spinlock_lock_def lock_pair_def)
  have "exec_loop e cur T = Some ?T3"
    using False T2(1,5) l3
    by (simp add: exec_loop.simps [of e cur T] exec_loop.simps [of e cur ?T3] link_clear_def)
  then have "timer_execute e T = Some ?T3"
    by (simp add: timer_execute_def near_index cur_def)
  moreover have "wheel_inv ?T3" using T2(2) by (auto simp: wheel_inv_def)
  moreover have "\<exists>xs. wheel ?T3 s = wheel T s @ xs" if "s \<noteq> Near cur" for s
    using T2(7) that w1 [of s] by (metis wheel_upd(3))
  ultimately show ?thesis
    using T2 by (auto simp: at_rest_def cur_def)
qed

lemma timer_update_correct:
  assumes cb: "cb_ok e l0" and lp: "lock_pair e l0 l1" and inv: "wheel_inv T"
    and rest: "at_rest T" and l: "lock T = l0"
  shows "\<exists>T'. timer_update e T = Some T' \<and> wheel_inv T' \<and> at_rest T' \<and> lock T' = l0 \<and>
    time T' = time T + 1 \<and>
    (\<forall>p s n. p \<in> set (wheel T s) \<longrightarrow> nodes T p = Some n \<longrightarrow>
       (if live s \<and> expire n = time T + 1
        then calls_of p T' = calls_of p T @ (if cancel n = 0 then [(p, expire n)] else [])
        else calls_of p T' = calls_of p T \<and> nodes T' p = Some n \<and>
          (\<exists>s'. p \<in> set (wheel T' s') \<and> (if live s then live s' else s' = s))))"
proof -
  let ?L = "T\<lparr>lock := l1\<rparr>"
  have 1: "spinlock_lock e T = Some ?L"
    using lp l by (simp add: spinlock_lock_def lock_pair_def)
  have invL: "wheel_inv ?L" and restL: "at_rest ?L"
    using inv rest by (auto simp: wheel_inv_def at_rest_def)
  from timer_shift_correct [OF invL restL] obtain S where
    S: "timer_shift ?L = Some S" "nodes S = nodes T" "lock S = l1" "calls S = calls T"
      "time S = time T + 1" "wheel_inv S"
      "\<And>p s. p \<in> set (wheel T s) \<Longrightarrow> live s \<Longrightarrow> \<exists>s'. live s' \<and> p \<in> set (wheel S s')"
      "\<And>s. \<not> live s \<Longrightarrow> set (wheel T s) \<subseteq> set (wheel S s)"
    by auto
  let ?cur = "unat (time S) mod 256"
  from timer_execute_correct [OF cb lp S(6,3)] obtain X where
    X: "timer_execute e S = Some X" "wheel_inv X" "at_rest X" "time X = time S" "lock X = l1"
      "calls X = calls S @ due_calls S (near S ?cur)"
      "\<And>s. s \<noteq> Near ?cur \<Longrightarrow> \<exists>xs. wheel X s = wheel S s @ xs"
      "\<And>q. q \<in> dom (nodes S) - set (near S ?cur) \<Longrightarrow> nodes X q = nodes S q"
    by auto
  let ?U = "spinlock_unlock e X"
  have U: "time ?U = time X" "lock ?U = l0" "calls ?U = calls X" "nodes ?U = nodes X"
    "near ?U = near X"
    using lp X(5) by (auto simp: spinlock_unlock_def lock_pair_def)
  have "wheel_inv ?U" "at_rest ?U" using X(2,3) by (auto simp: wheel_inv_def at_rest_def U)
  moreover have "timer_update e T = Some ?U"
    using 1 S(1) X(1) by (simp add: timer_update_def timer_execute_rest [OF restL])
  moreover have d: "distinct (near S ?cur)" using S(6) by (metis wheel.simps(1) wheel_inv_def)
  have co: "calls_of p ?U = calls_of p T @
      (if p \<in> set (near S ?cur) \<and> cancel (the (nodes T p)) = 0 then [(p, time T + 1)] else [])" for p
    using due_calls_of [OF d, of p] by (simp add: calls_of_def U X(6) S(2,4,5))
  have mem: "p \<in> set (near S ?cur) \<longleftrightarrow> live s \<and> expire n = time T + 1"
    if p: "p \<in> set (wheel T s)" and n: "nodes T p = Some n" for p s n
  proof
    assume m: "p \<in> set (near S ?cur)"
    then have "placed (time S) (Near ?cur) (expire n)"
      using wheel_inv_node [OF S(6), of p "Near ?cur"] n S(2) by auto
    then have "expire n = time S" by (rule near_current)
    moreover have "live s"
      using S(8) [of s] p m wheel_inv_unique [OF S(6), of p s "Near ?cur"] by fastforce
    ultimately show "live s \<and> expire n = time T + 1" by (simp add: S(5))
  next
    assume a: "live s \<and> expire n = time T + 1"
    with S(7) [OF p] obtain s' where s': "live s'" "p \<in> set (wheel S s')" by auto
    have "placed (time S) s' (expire n)" using wheel_inv_node [OF S(6) s'(2)] n S(2) by auto
    then have "s' = Near ?cur" using s'(1) a S(5) by (cases s') auto
    then show "p \<in> set (near S ?cur)" using s'(2) by simp
  qed
  have stay: "nodes ?U p = Some n \<and>
      (\<exists>s'. p \<in> set (wheel ?U s') \<and> (if live s then live s' else s' = s))"
    if p: "p \<in> set (wheel T s)" and n: "nodes T p = Some n"
      and x: "\<not> (live s \<and> expire n = time T + 1)" for p s n
  proof -
    have np: "p \<notin> set (near S ?cur)" using mem [OF p n] x by simp
    obtain s' where s': "p \<in> set (wheel S s')" "if live s then live s' else s' = s"
      using S(7) [OF p] S(8) p by (cases "live s") auto
    have "s' \<noteq> Near ?cur" using np s'(1) by auto
    with X(7) have "p \<in> set (wheel X s')" using s'(1) by fastforce
    moreover have "nodes X p = Some n" using X(8) [of p] n np S(2) by auto
    ultimately show ?thesis using s'(2) U by auto
  qed
  have "if live s \<and> expire n = time T + 1
        then calls_of p ?U = calls_of p T @ (if cancel n = 0 then [(p, expire n)] else [])
        else calls_of p ?U = calls_of p T \<and> nodes ?U p = Some n \<and>
          (\<exists>s'. p \<in> set (wheel ?U s') \<and> (if live s then live s' else s' = s))"
    if "p \<in> set (wheel T s)" and "nodes T p = Some n" for p s n
    using co [of p] mem [OF that] stay [OF that] that(2) by auto
  moreover have "time ?U = time T + 1" "lock ?U = l0" using U X(4) S(5) by auto
  ultimately show ?thesis by blast
qed


section \<open>Runs\<close>

lemma rest_live_future:
  assumes "wheel_inv T" "at_rest T" "p \<in> set (wheel T s)" "live s" "nodes T p = Some n"
  shows "expire n \<noteq> time T"
proof (cases s)
  case (Near i)
  with rest_not_due [OF assms(1,2)] assms(3,5) show ?thesis by simp
next
  case (Lev k i)
  with wheel_inv_node [OF assms(1,3)] assms(4,5) show ?thesis by auto
qed

lemma update_times_live:
  assumes cb: "cb_ok e l0" and lp: "lock_pair e l0 l1"
  shows "wheel_inv T \<Longrightarrow> at_rest T \<Longrightarrow> lock T = l0 \<Longrightarrow> p \<in> set (wheel T s) \<Longrightarrow> live s \<Longrightarrow>
    nodes T p = Some n \<Longrightarrow> k \<le> unat (expire n - time T) \<Longrightarrow>
    \<exists>T'. update_times e k T = Some T' \<and> wheel_inv T' \<and> at_rest T' \<and> lock T' = l0 \<and>
      calls_of p T' = calls_of p T @
        (if k = unat (expire n - time T) \<and> cancel n = 0 then [(p, expire n)] else [])"
proof (induction k arbitrary: T s)
  case 0
  with rest_live_future [OF 0(1,2,4,5,6)] show ?case by (simp add: dist_0)
next
  case (Suc k)
  from timer_update_correct [OF cb lp Suc.prems(1-3)] obtain U where
    U: "timer_update e T = Some U" "wheel_inv U" "at_rest U" "lock U = l0" "time U = time T + 1"
      "if live s \<and> expire n = time T + 1
        then calls_of p U = calls_of p T @ (if cancel n = 0 then [(p, expire n)] else [])
        else calls_of p U = calls_of p T \<and> nodes U p = Some n \<and>
          (\<exists>s'. p \<in> set (wheel U s') \<and> (if live s then live s' else s' = s))"
    using Suc.prems(4,6) by blast
  have ne: "expire n \<noteq> time T" using rest_live_future [OF Suc.prems(1,2,4,5,6)] .
  have d: "unat (expire n - time U) = unat (expire n - time T) - 1"
    using dist_next [OF ne] U(5) by simp
  show ?case
  proof (cases "expire n = time T + 1")
    case True
    then have "unat (expire n - time T) = 1" by simp
    with True U Suc.prems(5,7) show ?thesis by auto
  next
    case False
    with U(6) Suc.prems(5) obtain s' where
      s': "p \<in> set (wheel U s')" "live s'" "nodes U p = Some n" "calls_of p U = calls_of p T"
      by auto
    have "k \<le> unat (expire n - time U)" using Suc.prems(7) d by simp
    from Suc.IH [OF U(2,3,4) s'(1,2,3) this] s'(4) d Suc.prems(7) U(1) show ?thesis
      by (auto simp: bind_simps)
  qed
qed

lemma update_times_dead:
  assumes cb: "cb_ok e l0" and lp: "lock_pair e l0 l1"
  shows "wheel_inv T \<Longrightarrow> at_rest T \<Longrightarrow> lock T = l0 \<Longrightarrow> p \<in> set (wheel T s) \<Longrightarrow> \<not> live s \<Longrightarrow>
    nodes T p = Some n \<Longrightarrow>
    \<exists>T'. update_times e k T = Some T' \<and> calls_of p T' = calls_of p T \<and> p \<in> set (wheel T' s) \<and>
      nodes T' p = Some n"
proof (induction k arbitrary: T)
  case (Suc k)
  from timer_update_correct [OF cb lp Suc.prems(1-3)] obtain U where
    U: "timer_update e T = Some U" "wheel_inv U" "at_rest U" "lock U = l0"
      "calls_of p U = calls_of p T" "nodes U p = Some n" "p \<in> set (wheel U s)"
    using Suc.prems(4-6) by (metis (full_types))
  from Suc.IH [OF U(2,3,4,7) Suc.prems(5) U(6)] U(1,5) show ?case by auto
qed simp

section \<open>Scheduling\<close>

lemma put_inv:
  assumes "wheel_inv T" "unlinked T p" "nodes T p = Some n"
  shows "wheel_inv (put (target T p) p T)"
  using assms placed_add_slot [of "time T" "expire n"] unfolding wheel_inv_def unlinked_def
  by (auto split: if_splits)

lemma unlinked_fresh: "wheel_inv T \<Longrightarrow> nodes T p = None \<Longrightarrow> unlinked T p"
  unfolding unlinked_def by (metis option.distinct(1) wheel_inv_node)

lemma add_slot_future:
  assumes "0 < d" "d < 2 ^ 31"
  shows "add_slot t (word_of_int d + t) \<noteq> Near (unat t mod 256)"
proof
  let ?e = "word_of_int d + t :: u32"
  assume "add_slot t ?e = Near (unat t mod 256)"
  then have "?e = t" using near_current placed_add_slot [of t ?e] by metis
  then have "word_of_int d = (0 :: u32)" by simp
  moreover have "uint (word_of_int d :: u32) = d"
    using assms by (simp add: uint_word_of_int)
  ultimately show False using assms(1) by simp
qed

lemma add_timer_pending:
  fixes h :: handler and i :: int and junk :: u8
  assumes inv: "wheel_inv T" and rest: "at_rest T" and lp: "lock_pair e (lock T) l1"
    and d: "0 < tm" "tm < 2 ^ 31" and m: "m \<noteq> NULL" "nodes T m = None"
  defines "n \<equiv> \<lparr>expire = word_of_int tm + time T, callback = h, cancel = junk, node_id = i\<rparr>"
  shows "\<exists>T'. add_timer e T tm h i m junk = Some (m, T') \<and> wheel_inv T' \<and> at_rest T' \<and>
    extends T T' \<and> nodes T' m = Some n \<and>
    m \<in> set (wheel T' (add_slot (time T) (expire n)))"
proof -
  let ?T1 = "T\<lparr>lock := l1, nodes := (nodes T)(m \<mapsto> n)\<rparr>"
  let ?s = "add_slot (time T) (expire n)"
  let ?T2 = "put ?s m ?T1"
  let ?T3 = "spinlock_unlock e ?T2"
  have w1: "wheel ?T1 s = wheel T s" for s by (cases s) auto
  have "wheel_inv ?T1"
    using inv m(2) unfolding wheel_inv_def w1 by (auto; metis option.distinct(1))
  moreover have "unlinked ?T1 m"
    using unlinked_fresh [OF inv m(2)] by (simp add: unlinked_def w1)
  ultimately have inv2: "wheel_inv ?T2"
    using put_inv [of ?T1 m n] by simp
  have 1: "add_timer e T tm h i m junk = Some (m, ?T3)"
    using lp m(1) d add_node_put [of ?T1 m n]
    by (simp add: add_timer_def spinlock_lock_def lock_pair_def n_def)
  have w3: "wheel ?T3 s = (if s = ?s then wheel T s @ [m] else wheel T s)" for s
    by (simp add: w1)
  have f3: "nodes ?T3 = (nodes T)(m \<mapsto> n)" "time ?T3 = time T" "calls ?T3 = calls T"
    "lock ?T3 = lock T"
    using lp by (auto simp: spinlock_unlock_def lock_pair_def)
  have ns: "?s \<noteq> Near (unat (time T) mod 256)"
    using add_slot_future [OF d] by (simp add: n_def)
  have near3: "near ?T3 (unat (time T) mod 256) = near T (unat (time T) mod 256)"
    using w3 [of "Near (unat (time T) mod 256)"] ns by simp
  have app: "\<exists>xs. wheel ?T3 s = wheel T s @ xs \<and> set xs \<inter> dom (nodes T) = {}" for s
    using m(2) unfolding w3 by (cases "s = ?s") (auto intro: exI [of _ "[m]"])
  have le: "nodes T \<subseteq>\<^sub>m nodes ?T3"
    unfolding f3 using m(2) by (auto simp: map_le_def)
  have "extends T ?T3"
    unfolding extends_def by (intro conjI allI f3 le near3 app)
  moreover have "wheel_inv ?T3"
    using inv2 by (subst wheel_inv_cong [of _ ?T2]) (auto simp: spinlock_unlock_def)
  moreover have "at_rest ?T3" using rest near3 f3 by (simp add: at_rest_def)
  ultimately show ?thesis using 1 w3 [of ?s] f3 by auto
qed

section \<open>Cancelling and clearing\<close>

lemma in_set_nonempty: "x \<in> set xs \<Longrightarrow> (xs \<noteq> [] \<Longrightarrow> P) \<Longrightarrow> P"
  by (cases xs) auto

lemma del_timer_node:
  assumes "wheel_inv T" "nodes T p = Some n"
  shows "\<exists>T'. del_timer T p = Some T' \<and> wheel_inv T' \<and> (at_rest T' \<longleftrightarrow> at_rest T) \<and>
    wheel T' = wheel T \<and> time T' = time T \<and> lock T' = lock T \<and> calls T' = calls T \<and>
    nodes T' = (nodes T)(p \<mapsto> n\<lparr>cancel := 1\<rparr>)"
proof -
  let ?T = "T\<lparr>nodes := (nodes T)(p \<mapsto> n\<lparr>cancel := 1\<rparr>)\<rparr>"
  have "wheel ?T = wheel T" by (rule ext) simp
  moreover have "wheel_inv ?T" using assms unfolding wheel_inv_def by fastforce
  ultimately show ?thesis using assms(2) by (simp add: del_timer_def at_rest_def)
qed

lemma fold_free [simp]:
  "nodes (fold free_node ps T) = nodes T |` (- set ps)"
  "near (fold free_node ps T) = near T" "tv (fold free_node ps T) = tv T"
  by (induction ps arbitrary: T) (auto simp: free_node_def restrict_map_def fun_eq_iff)

lemma clear_near_all:
  "nodes (fold clear_near is T) = nodes T |` (- (\<Union>i\<in>set is. set (near T i))) \<and>
   near (fold clear_near is T) = (\<lambda>i. if i \<in> set is then [] else near T i) \<and>
   tv (fold clear_near is T) = tv T"
proof (induction "is" arbitrary: T)
  case (Cons i "is")
  let ?T = "clear_near i T"
  have "near ?T = (near T)(i := [])" "tv ?T = tv T" "nodes ?T = nodes T |` (- set (near T i))"
    by (simp_all add: clear_near_def link_clear_def)
  with Cons.IH [of ?T] show ?case by (auto simp: restrict_map_def fun_eq_iff)
qed simp

lemma clear_level_all:
  "nodes (fold (clear_level k) is T) = nodes T |` (- (\<Union>i\<in>set is. set (tv T k i))) \<and>
   tv (fold (clear_level k) is T) = (tv T)(k := \<lambda>i. if i \<in> set is then [] else tv T k i) \<and>
   near (fold (clear_level k) is T) = near T"
proof (induction "is" arbitrary: T)
  case (Cons i "is")
  let ?T = "clear_level k i T"
  have "tv ?T = (tv T)(k := (tv T k)(i := []))" "near ?T = near T"
    "nodes ?T = nodes T |` (- set (tv T k i))"
    by (simp_all add: clear_level_def link_clear_def)
  with Cons.IH [of ?T] show ?case by (auto simp: restrict_map_def fun_eq_iff)
qed simp

lemma clear_levels_all:
  "nodes (fold (\<lambda>k. fold (clear_level k) is) ks T) =
     nodes T |` (- (\<Union>k\<in>set ks. \<Union>i\<in>set is. set (tv T k i))) \<and>
   tv (fold (\<lambda>k. fold (clear_level k) is) ks T) =
     (\<lambda>k i. if k \<in> set ks \<and> i \<in> set is then [] else tv T k i) \<and>
   near (fold (\<lambda>k. fold (clear_level k) is) ks T) = near T"
proof (induction ks arbitrary: T)
  case (Cons k ks)
  let ?T = "fold (clear_level k) is T"
  from Cons.IH [of ?T] clear_level_all [of k "is" T] show ?case
    by (auto simp: restrict_map_def fun_eq_iff)
qed simp

lemma wheel_inv_slots:
  assumes "wheel_inv T"
  shows "near T i \<noteq> [] \<Longrightarrow> i < 256" and "tv T k i \<noteq> [] \<Longrightarrow> k < 4 \<and> i < 64"
proof -
  have v: "p \<in> set (wheel T s) \<Longrightarrow> \<exists>e. placed (time T) s e" for p s
    using wheel_inv_node [OF assms] by blast
  show "near T i \<noteq> [] \<Longrightarrow> i < 256"
    using v [of "hd (near T i)" "Near i"] by auto
  show "tv T k i \<noteq> [] \<Longrightarrow> k < 4 \<and> i < 64"
    using v [of "hd (tv T k i)" "Lev k i"] by auto
qed

section \<open>A concrete environment\<close>

text \<open>A lock word that is 0 when free and 1 when held, and callbacks that do nothing.\<close>

definition plain_env :: tw_env where
  "plain_env = \<lparr>spin_acquire = (\<lambda>l. if l = 0 then Some 1 else None), spin_release = (\<lambda>_. 0),
     spin_init = 0, run_cb = (\<lambda>_ _ T. Some T)\<rparr>"

lemma extends_refl: "extends T T"
  by (auto simp: extends_def)

lemma plain_env_ok: "cb_ok plain_env 0" "lock_pair plain_env 0 1"
  by (auto simp: cb_ok_def lock_pair_def plain_env_def extends_refl)

lemma create_inv:
  "wheel_inv ((timer_create_timer e)\<lparr>time := t\<rparr>)" "at_rest ((timer_create_timer e)\<lparr>time := t\<rparr>)"
proof -
  have "wheel ((timer_create_timer e)\<lparr>time := t\<rparr>) s = []" for s
    by (cases s) (simp_all add: timer_create_timer_def)
  then show "wheel_inv ((timer_create_timer e)\<lparr>time := t\<rparr>)" by (simp add: wheel_inv_def)
  show "at_rest ((timer_create_timer e)\<lparr>time := t\<rparr>)"
    by (simp add: at_rest_def timer_create_timer_def)
qed

section \<open>Properties\<close>

text \<open>
  C1. A timer added with a positive delay fires exactly when the wheel's time reaches its expiry:
  \<open>add_timer\<close> returns the node, and after \<open>k \<le> tm\<close> calls of \<open>timer_update\<close> the callback has
  run exactly once if \<open>k = tm\<close> and the node is not cancelled (the byte \<open>cancel\<close> that
  \<open>malloc\<close> left is 0), and not at all before. This holds for every slot but the slots of
  index 0 of the three lower levels (see the next property); callbacks may schedule timers.
\<close>

theorem scheduled_timer_fires:
  assumes "wheel_inv T" "at_rest T" "lock_pair e (lock T) held" "cb_ok e (lock T)"
    and "0 < tm" "tm < 2 ^ 31" and "m \<noteq> NULL" "nodes T m = None"
    and "live (add_slot (time T) (word_of_int tm + time T))" and "k \<le> nat tm"
  shows "\<exists>T1 T'. add_timer e T tm h i m junk = Some (m, T1) \<and> update_times e k T1 = Some T' \<and>
    calls_of m T' = calls_of m T @
      (if k = nat tm \<and> junk = 0 then [(m, word_of_int tm + time T)] else [])"
proof -
  from add_timer_pending [OF assms(1-3,5-8), of h i junk] obtain T1 where
    T1: "add_timer e T tm h i m junk = Some (m, T1)" "wheel_inv T1" "at_rest T1" "extends T T1"
      "nodes T1 m = Some \<lparr>expire = word_of_int tm + time T, callback = h, cancel = junk, node_id = i\<rparr>"
      "m \<in> set (wheel T1 (add_slot (time T) (word_of_int tm + time T)))"
    by auto
  have x: "lock T1 = lock T" "time T1 = time T" "calls_of m T1 = calls_of m T"
    using T1(4) by (auto simp: extends_def calls_of_def)
  have d: "unat (word_of_int tm :: u32) = nat tm"
    using assms(5,6) by (simp add: uint_word_of_int flip: nat_uint_eq)
  from update_times_live [OF assms(4,3) T1(2,3) x(1) T1(6) assms(9) T1(5), of k] show ?thesis
    using T1(1) assms(10) d by (auto simp: x)
qed

theorem scheduled_timer_fires_witness:
  "\<exists>T1 T'. add_timer plain_env (timer_create_timer plain_env) 300 7 0 5 0 = Some (5, T1) \<and>
     update_times plain_env 300 T1 = Some T' \<and> calls_of 5 T' = [(5, 300)]"
  using scheduled_timer_fires [where T = "timer_create_timer plain_env" and e = plain_env and held = 1
      and tm = 300 and m = 5 and k = 300 and h = 7 and i = 0 and junk = 0]
    create_inv [where e = plain_env and t = 0] plain_env_ok
  by (simp add: timer_create_timer_def plain_env_def add_slot_def lvl_def Let_def calls_of_def)

text \<open>
  A timer whose slot is the one of index 0 of level 0, 1 or 2 is lost: however many ticks pass,
  its callback never runs and its node stays allocated in that slot. A wheel that has run for
  16300 ticks loses a timer of 300 ticks this way.
\<close>

theorem dead_slot_timer_never_fires:
  assumes "wheel_inv T" "at_rest T" "lock_pair e (lock T) held" "cb_ok e (lock T)"
    and "0 < tm" "tm < 2 ^ 31" and "m \<noteq> NULL" "nodes T m = None"
    and "\<not> live (add_slot (time T) (word_of_int tm + time T))"
  shows "\<exists>T1 T'. add_timer e T tm h i m junk = Some (m, T1) \<and> update_times e k T1 = Some T' \<and>
    calls_of m T' = calls_of m T \<and> m \<in> dom (nodes T')"
proof -
  from add_timer_pending [OF assms(1-3,5-8), of h i junk] obtain T1 where
    T1: "add_timer e T tm h i m junk = Some (m, T1)" "wheel_inv T1" "at_rest T1" "extends T T1"
      "nodes T1 m = Some \<lparr>expire = word_of_int tm + time T, callback = h, cancel = junk, node_id = i\<rparr>"
      "m \<in> set (wheel T1 (add_slot (time T) (word_of_int tm + time T)))"
    by auto
  have x: "lock T1 = lock T" "calls_of m T1 = calls_of m T"
    using T1(4) by (auto simp: extends_def calls_of_def)
  from update_times_dead [OF assms(4,3) T1(2,3) x(1) T1(6) assms(9) T1(5), of k] show ?thesis
    using T1(1) by (auto simp: x)
qed

theorem dead_slot_timer_never_fires_witness:
  "\<exists>T1 T'. add_timer plain_env ((timer_create_timer plain_env)\<lparr>time := 16300\<rparr>) 300 7 0 5 0 =
     Some (5, T1) \<and> update_times plain_env 100000 T1 = Some T' \<and> calls_of 5 T' = []"
  using dead_slot_timer_never_fires [where T = "(timer_create_timer plain_env)\<lparr>time := 16300\<rparr>"
      and e = plain_env and held = 1 and tm = 300 and m = 5 and h = 7 and i = 0 and junk = 0
      and k = 100000]
    create_inv [where e = plain_env and t = 16300] plain_env_ok
  by (simp add: timer_create_timer_def plain_env_def add_slot_def lvl_def Let_def calls_of_def) blast

text \<open>
  C5. One tick: \<open>timer_update\<close> returns, advances the time by one, restores the lock and keeps
  the wheel's invariant; nothing is due afterwards.
\<close>

theorem timer_update_keeps_invariant:
  assumes "cb_ok e (lock T)" "lock_pair e (lock T) held" "wheel_inv T" "at_rest T"
  shows "\<exists>T'. timer_update e T = Some T' \<and> wheel_inv T' \<and> at_rest T' \<and> lock T' = lock T \<and>
    time T' = time T + 1"
  using timer_update_correct [OF assms(1-4) refl] by blast

theorem timer_update_keeps_invariant_witness:
  "\<exists>T'. timer_update plain_env (timer_create_timer plain_env) = Some T' \<and> wheel_inv T' \<and>
     at_rest T' \<and> time T' = 1"
  using timer_update_keeps_invariant [where e = plain_env and T = "timer_create_timer plain_env" and held = 1]
    create_inv [where e = plain_env and t = 0] plain_env_ok
  by (simp add: timer_create_timer_def plain_env_def) blast

text \<open>
  A pending timer that \<open>del_timer\<close> cancels is never called: its node waits in the wheel and is
  released at its expiry without a call.
\<close>

theorem cancelled_timer_is_silent:
  assumes "cb_ok e (lock T)" "lock_pair e (lock T) held" "wheel_inv T" "at_rest T"
    and "p \<in> set (wheel T s)" "live s" "nodes T p = Some n" "k \<le> unat (expire n - time T)"
  shows "\<exists>T1 T'. del_timer T p = Some T1 \<and> update_times e k T1 = Some T' \<and>
    calls_of p T' = calls_of p T"
proof -
  from del_timer_node [OF assms(3,7)] obtain T1 where
    T1: "del_timer T p = Some T1" "wheel_inv T1" "at_rest T1" "wheel T1 = wheel T"
      "time T1 = time T" "lock T1 = lock T" "calls T1 = calls T"
      "nodes T1 p = Some (n\<lparr>cancel := 1\<rparr>)"
    using assms(4) by auto
  have "p \<in> set (wheel T1 s)" using assms(5) T1(4) by simp
  from update_times_live [OF assms(1,2) T1(2,3,6) this assms(6) T1(8), of k] assms(8) T1
  show ?thesis by (auto simp: calls_of_def)
qed

theorem cancelled_timer_is_silent_witness:
  "\<exists>T0 T T'. add_timer plain_env (timer_create_timer plain_env) 300 7 0 5 0 = Some (5, T0) \<and>
     del_timer T0 5 = Some T \<and> update_times plain_env 300 T = Some T' \<and> calls_of 5 T' = []"
proof -
  let ?C = "timer_create_timer plain_env"
  from add_timer_pending [of ?C plain_env 1 300 5 7 0 0] create_inv [where e = plain_env and t = 0]
    plain_env_ok
  obtain T0 n where T0: "add_timer plain_env ?C 300 7 0 5 0 = Some (5, T0)" "wheel_inv T0"
    "at_rest T0" "extends ?C T0" "nodes T0 5 = Some n" "expire n = 300"
    "5 \<in> set (wheel T0 (Lev 0 1))"
    by (auto simp: timer_create_timer_def plain_env_def add_slot_def lvl_def Let_def)
  have "lock T0 = 0" "time T0 = 0" "calls_of 5 T0 = []"
    using T0(4) by (auto simp: extends_def timer_create_timer_def plain_env_def calls_of_def)
  with cancelled_timer_is_silent [where e = plain_env and T = T0 and held = 1 and p = 5
      and k = 300, OF _ _ T0(2,3,7) _ T0(5)] T0(1,6) plain_env_ok
  show ?thesis by fastforce
qed

text \<open>
  \<open>clear_timer\<close> empties every slot and frees exactly the nodes that were linked in one.
\<close>

theorem clear_timer_frees_linked:
  assumes "wheel_inv T"
  shows "(\<forall>s. wheel (clear_timer T) s = []) \<and>
    nodes (clear_timer T) = nodes T |` {p. unlinked T p}"
proof -
  let ?N = "fold clear_near [0..<256] T"
  have N: "nodes ?N = nodes T |` (- (\<Union>i<256. set (near T i)))" "tv ?N = tv T"
    "near ?N = (\<lambda>i. if i < 256 then [] else near T i)"
    using clear_near_all [of "[0..<256]" T] by (auto simp: atLeast0LessThan)
  have C: "nodes (clear_timer T) = nodes ?N |` (- (\<Union>k<4. \<Union>i<64. set (tv T k i)))"
    "tv (clear_timer T) = (\<lambda>k i. if k < 4 \<and> i < 64 then [] else tv T k i)"
    "near (clear_timer T) = near ?N"
    using clear_levels_all [of "[0..<64]" "[0..<4]" ?N]
    unfolding clear_timer_def N(2) by (simp_all add: atLeast0LessThan)
  have near_ix: "p \<in> set (near T i) \<Longrightarrow> i < 256"
    and tv_ix: "p \<in> set (tv T k i) \<Longrightarrow> k < 4 \<and> i < 64" for p k i
    using wheel_inv_slots [OF assms] by (metis in_set_nonempty)+
  have "unlinked T p \<longleftrightarrow> p \<notin> (\<Union>i<256. set (near T i)) \<and> p \<notin> (\<Union>k<4. \<Union>i<64. set (tv T k i))" for p
  proof -
    have "unlinked T p \<longleftrightarrow> (\<forall>i. p \<notin> set (near T i)) \<and> (\<forall>k i. p \<notin> set (tv T k i))"
      unfolding unlinked_def by (metis slot.exhaust wheel.simps)
    also have "\<dots> \<longleftrightarrow> p \<notin> (\<Union>i<256. set (near T i)) \<and> p \<notin> (\<Union>k<4. \<Union>i<64. set (tv T k i))"
      by (auto dest: near_ix tv_ix)
    finally show ?thesis .
  qed
  moreover have "wheel (clear_timer T) s = []" for s
    using wheel_inv_slots [OF assms] by (cases s) (auto simp: C N)
  ultimately show ?thesis unfolding C N by (auto simp: restrict_map_def fun_eq_iff)
qed

theorem clear_timer_frees_linked_witness:
  "\<exists>T. wheel_inv T \<and> 5 \<in> dom (nodes T) \<and> 5 \<notin> dom (nodes (clear_timer T))"
proof -
  let ?C = "timer_create_timer plain_env"
  from add_timer_pending [of ?C plain_env 1 300 5 7 0 0] create_inv [where e = plain_env and t = 0]
    plain_env_ok
  obtain T where T: "wheel_inv T" "5 \<in> dom (nodes T)" "5 \<in> set (wheel T (Lev 0 1))"
    by (auto simp: timer_create_timer_def plain_env_def add_slot_def lvl_def Let_def)
  have "\<not> unlinked T 5" using T(3) unfolding unlinked_def by blast
  then have "5 \<notin> dom (nodes (clear_timer T))"
    using clear_timer_frees_linked [OF T(1)] by simp
  with T(1,2) show ?thesis by blast
qed

end
