(* ===== verification/Rbtree.thy ===== *)
theory Rbtree
  imports Prelude
begin

text \<open>
  The red-black tree of \<open>util/rbtree.c\<close> and \<open>util/rbtree.h\<close>, at the level of its pointers.

  \<open>mem\<close> is the heap of the nodes, the shared \<open>nil\<close> node included. Every access through a
  pointer goes through \<open>get\<close> or \<open>put\<close>, which are \<open>None\<close> on a pointer that is not allocated;
  loops are partial functions, so \<open>None\<close> is also the value of a loop that does not end. The
  macro \<open>swap\<close> is the three exclusive ors it is in C, performed on the cells in their order.
\<close>

section \<open>The data\<close>

datatype color = RED | BLACK

record rb_node =
  color :: color
  left :: ptr
  right :: ptr
  parent :: ptr
  key :: int
  val :: ptr

record rbtree =
  root :: ptr
  nil :: ptr
  mem :: "rb_node heap"

definition get :: "rbtree \<Rightarrow> ptr \<Rightarrow> (rb_node \<Rightarrow> 'a) \<Rightarrow> 'a option" where
  "get T p f = map_option f (mem T p)"

definition put :: "rbtree \<Rightarrow> ptr \<Rightarrow> (rb_node \<Rightarrow> rb_node) \<Rightarrow> rbtree option" where
  "put T p f = map_option (\<lambda>n. T\<lparr>mem := (mem T)(p \<mapsto> f n)\<rparr>) (mem T p)"

text \<open>Exclusive or of the colours as the \<open>unsigned char\<close> values 0 and 1.\<close>

definition color_xor :: "color \<Rightarrow> color \<Rightarrow> color" where
  "color_xor a b = (if a = b then RED else BLACK)"

definition swap_color :: "rbtree \<Rightarrow> ptr \<Rightarrow> ptr \<Rightarrow> rbtree option" where
  "swap_color T a b = do {
     ca \<leftarrow> get T a color; cb \<leftarrow> get T b color;
     T \<leftarrow> put T a (\<lambda>n. n\<lparr>color := color_xor ca cb\<rparr>);
     ca \<leftarrow> get T a color; cb \<leftarrow> get T b color;
     T \<leftarrow> put T b (\<lambda>n. n\<lparr>color := color_xor ca cb\<rparr>);
     ca \<leftarrow> get T a color; cb \<leftarrow> get T b color;
     put T a (\<lambda>n. n\<lparr>color := color_xor ca cb\<rparr>)
   }"

definition swap_key :: "rbtree \<Rightarrow> ptr \<Rightarrow> ptr \<Rightarrow> rbtree option" where
  "swap_key T a b = do {
     ka \<leftarrow> get T a key; kb \<leftarrow> get T b key;
     T \<leftarrow> put T a (\<lambda>n. n\<lparr>key := ka XOR kb\<rparr>);
     ka \<leftarrow> get T a key; kb \<leftarrow> get T b key;
     T \<leftarrow> put T b (\<lambda>n. n\<lparr>key := ka XOR kb\<rparr>);
     ka \<leftarrow> get T a key; kb \<leftarrow> get T b key;
     put T a (\<lambda>n. n\<lparr>key := ka XOR kb\<rparr>)
   }"

definition rb_set_color :: "rbtree \<Rightarrow> ptr \<Rightarrow> color \<Rightarrow> rbtree option" where
  "rb_set_color T p c = put T p (\<lambda>n. n\<lparr>color := c\<rparr>)"

definition rb_node_is_red :: "rbtree \<Rightarrow> ptr \<Rightarrow> bool option" where
  "rb_node_is_red T p = get T p (\<lambda>n. color n = RED)"

definition rb_node_init :: "rbtree \<Rightarrow> ptr \<Rightarrow> ptr \<Rightarrow> rbtree option" where
  "rb_node_init T p par = do {
     T \<leftarrow> put T p (\<lambda>n. n\<lparr>parent := par\<rparr>);
     T \<leftarrow> put T p (\<lambda>n. n\<lparr>left := nil T, right := nil T\<rparr>);
     rb_set_color T p RED
   }"

section \<open>Rotations\<close>

definition left_rotate :: "rbtree \<Rightarrow> ptr \<Rightarrow> rbtree option" where
  "left_rotate T par = do {
     rchild \<leftarrow> get T par right;
     T \<leftarrow> swap_color T rchild par;
     rl \<leftarrow> get T rchild left;
     T \<leftarrow> put T par (\<lambda>n. n\<lparr>right := rl\<rparr>);
     T \<leftarrow> (if rl \<noteq> nil T then put T rl (\<lambda>n. n\<lparr>parent := par\<rparr>) else Some T);
     pp \<leftarrow> get T par parent;
     T \<leftarrow> put T rchild (\<lambda>n. n\<lparr>parent := pp\<rparr>);
     T \<leftarrow> (if pp = nil T then Some (T\<lparr>root := rchild\<rparr>)
           else do {
             ppl \<leftarrow> get T pp left;
             if par = ppl then put T pp (\<lambda>n. n\<lparr>left := rchild\<rparr>)
             else put T pp (\<lambda>n. n\<lparr>right := rchild\<rparr>)
           });
     T \<leftarrow> put T rchild (\<lambda>n. n\<lparr>left := par\<rparr>);
     put T par (\<lambda>n. n\<lparr>parent := rchild\<rparr>)
   }"

definition right_rotate :: "rbtree \<Rightarrow> ptr \<Rightarrow> rbtree option" where
  "right_rotate T par = do {
     child \<leftarrow> get T par left;
     T \<leftarrow> swap_color T child par;
     cr \<leftarrow> get T child right;
     T \<leftarrow> put T par (\<lambda>n. n\<lparr>left := cr\<rparr>);
     T \<leftarrow> (if cr \<noteq> nil T then put T cr (\<lambda>n. n\<lparr>parent := par\<rparr>) else Some T);
     pp \<leftarrow> get T par parent;
     T \<leftarrow> put T child (\<lambda>n. n\<lparr>parent := pp\<rparr>);
     T \<leftarrow> (if pp = nil T then Some (T\<lparr>root := child\<rparr>)
           else do {
             ppr \<leftarrow> get T pp right;
             if par = ppr then put T pp (\<lambda>n. n\<lparr>right := child\<rparr>)
             else put T pp (\<lambda>n. n\<lparr>left := child\<rparr>)
           });
     T \<leftarrow> put T child (\<lambda>n. n\<lparr>right := par\<rparr>);
     put T par (\<lambda>n. n\<lparr>parent := child\<rparr>)
   }"

section \<open>Lookup and insertion\<close>

partial_function (option) find_loop :: "rbtree \<Rightarrow> ptr \<Rightarrow> int \<Rightarrow> ptr option" where
  "find_loop T node k =
     (if node = nil T then Some node
      else do {
        nk \<leftarrow> get T node key;
        if nk = k then Some node
        else if nk < k then get T node right \<bind> (\<lambda>q. find_loop T q k)
        else get T node left \<bind> (\<lambda>q. find_loop T q k)
      })"

definition rbtree_find :: "rbtree \<Rightarrow> int \<Rightarrow> ptr option" where
  "rbtree_find T k =
     (if root T = nil T then Some NULL
      else do {
        node \<leftarrow> find_loop T (root T) k;
        Some (if node = nil T then NULL else node)
      })"

partial_function (option) insert_fixup_loop :: "rbtree \<Rightarrow> ptr \<Rightarrow> rbtree option" where
  "insert_fixup_loop T node = do {
     par \<leftarrow> get T node parent;
     red \<leftarrow> rb_node_is_red T par;
     if \<not> red then Some T
     else do {
       pp \<leftarrow> get T par parent;
       ppl \<leftarrow> get T pp left;
       if par = ppl then do {
         uncle \<leftarrow> get T pp right;
         ured \<leftarrow> rb_node_is_red T uncle;
         if ured then do {
           T \<leftarrow> swap_color T par pp;
           c \<leftarrow> get T par color;
           T \<leftarrow> rb_set_color T uncle c;
           insert_fixup_loop T pp
         } else do {
           q \<leftarrow> get T node parent;
           qr \<leftarrow> get T q right;
           (node, T) \<leftarrow> (if node = qr then do {
                 T \<leftarrow> left_rotate T q;
                 Some (q, T)
               } else Some (node, T));
           T \<leftarrow> right_rotate T pp;
           insert_fixup_loop T node
         }
       } else do {
         uncle \<leftarrow> get T pp left;
         ured \<leftarrow> rb_node_is_red T uncle;
         if ured then do {
           T \<leftarrow> swap_color T par pp;
           c \<leftarrow> get T par color;
           T \<leftarrow> rb_set_color T uncle c;
           insert_fixup_loop T pp
         } else do {
           parl \<leftarrow> get T par left;
           (node, T) \<leftarrow> (if node = parl then do {
                 T \<leftarrow> right_rotate T par;
                 Some (par, T)
               } else Some (node, T));
           T \<leftarrow> left_rotate T pp;
           insert_fixup_loop T node
         }
       }
     }
   }"

definition insert_fixup :: "rbtree \<Rightarrow> ptr \<Rightarrow> rbtree option" where
  "insert_fixup T node = do {
     par \<leftarrow> get T node parent;
     c \<leftarrow> get T par color;
     if c = BLACK then Some T
     else do {
       T \<leftarrow> insert_fixup_loop T node;
       rb_set_color T (root T) BLACK
     }
   }"

text \<open>The descent: the parent for the new node, or no result when the key is already there.\<close>

partial_function (option) insert_descend ::
  "rbtree \<Rightarrow> int \<Rightarrow> ptr \<Rightarrow> ptr \<Rightarrow> ptr option option" where
  "insert_descend T k tmp par =
     (if tmp = nil T then Some (Some par)
      else do {
        tk \<leftarrow> get T tmp key;
        if k < tk then get T tmp left \<bind> (\<lambda>q. insert_descend T k q tmp)
        else if tk < k then get T tmp right \<bind> (\<lambda>q. insert_descend T k q tmp)
        else Some None
      })"

definition rbtree_insert :: "rbtree \<Rightarrow> ptr \<Rightarrow> rbtree option" where
  "rbtree_insert T new_node = do {
     k \<leftarrow> get T new_node key;
     pos \<leftarrow> insert_descend T k (root T) (nil T);
     case pos of
       None \<Rightarrow> Some T
     | Some par \<Rightarrow> do {
         T \<leftarrow> rb_node_init T new_node par;
         T \<leftarrow> (if par = nil T then rb_set_color (T\<lparr>root := new_node\<rparr>) new_node BLACK
               else do {
                 pk \<leftarrow> get T par key;
                 if k < pk then put T par (\<lambda>n. n\<lparr>left := new_node\<rparr>)
                 else put T par (\<lambda>n. n\<lparr>right := new_node\<rparr>)
               });
         insert_fixup T new_node
       }
   }"

section \<open>Deletion\<close>

definition logic_delete :: "rbtree \<Rightarrow> ptr \<Rightarrow> ptr \<Rightarrow> (int \<times> rbtree) option" where
  "logic_delete T node child =
     (if node = NULL \<or> node = nil T then Some (- 1, T)
      else if child = NULL then Some (- 1, T)
      else do {
        par \<leftarrow> get T node parent;
        T \<leftarrow> (if child \<noteq> nil T then put T child (\<lambda>n. n\<lparr>parent := par\<rparr>) else Some T);
        T \<leftarrow> (if par = nil T then Some (T\<lparr>root := child\<rparr>)
              else do {
                pl \<leftarrow> get T par left;
                if node = pl then put T par (\<lambda>n. n\<lparr>left := child\<rparr>)
                else put T par (\<lambda>n. n\<lparr>right := child\<rparr>)
              });
        Some (0, T)
      })"

partial_function (option) min_loop :: "rbtree \<Rightarrow> ptr \<Rightarrow> ptr option" where
  "min_loop T node = do {
     l \<leftarrow> get T node left;
     if l \<noteq> nil T then min_loop T l else Some node
   }"

partial_function (option) up_loop :: "rbtree \<Rightarrow> ptr \<Rightarrow> ptr \<Rightarrow> ptr option" where
  "up_loop T node par = do {
     pl \<leftarrow> get T par left;
     if node \<noteq> pl \<and> par \<noteq> nil T then do {
       pp \<leftarrow> get T par parent;
       up_loop T par pp
     } else Some par
   }"

definition find_successor :: "rbtree \<Rightarrow> ptr \<Rightarrow> ptr option" where
  "find_successor T node =
     (if node = NULL then Some NULL
      else do {
        r \<leftarrow> get T node right;
        if r \<noteq> nil T then min_loop T r
        else do {
          par \<leftarrow> get T node parent;
          par \<leftarrow> up_loop T node par;
          Some (if par = nil T then NULL else par)
        }
      })"

partial_function (option) delete_fixup_again :: "rbtree \<Rightarrow> ptr \<Rightarrow> rbtree option" where
  "delete_fixup_again T node = do {
     l \<leftarrow> get T node left;
     r \<leftarrow> get T node right;
     if l \<noteq> nil T \<and> r = nil T then rb_set_color T l BLACK
     else if l = nil T \<and> r \<noteq> nil T then rb_set_color T r BLACK
     else do {
       red \<leftarrow> rb_node_is_red T node;
       if red then Some T
       else do {
         par \<leftarrow> get T node parent;
         if root T = node then Some (T\<lparr>root := nil T\<rparr>)
         else do {
           pl \<leftarrow> get T par left;
           pr \<leftarrow> get T par right;
           if node = pl then do {
             let brother = pr;
             bred \<leftarrow> rb_node_is_red T brother;
             if bred then left_rotate T par \<bind> (\<lambda>T. delete_fixup_again T node)
             else do {
               bl \<leftarrow> get T brother left;
               br \<leftarrow> get T brother right;
               pred \<leftarrow> rb_node_is_red T par;
               if br \<noteq> nil T then do {
                 T \<leftarrow> rb_set_color T br BLACK;
                 left_rotate T par
               } else if bl \<noteq> nil T then do {
                 T \<leftarrow> rb_set_color T bl BLACK;
                 T \<leftarrow> right_rotate T brother;
                 left_rotate T par
               } else if pred then swap_color T par brother
               else do {
                 T \<leftarrow> rb_set_color T brother RED;
                 delete_fixup_again T par
               }
             }
           } else if node = pr then do {
             let brother = pl;
             bred \<leftarrow> rb_node_is_red T brother;
             if bred then right_rotate T par \<bind> (\<lambda>T. delete_fixup_again T node)
             else do {
               bl \<leftarrow> get T brother left;
               br \<leftarrow> get T brother right;
               pred \<leftarrow> rb_node_is_red T par;
               if bl \<noteq> nil T then do {
                 T \<leftarrow> rb_set_color T bl BLACK;
                 right_rotate T par
               } else if br \<noteq> nil T then do {
                 T \<leftarrow> rb_set_color T br BLACK;
                 T \<leftarrow> left_rotate T brother;
                 right_rotate T par
               } else if pred then swap_color T par brother
               else do {
                 T \<leftarrow> rb_set_color T brother RED;
                 delete_fixup_again T par
               }
             }
           } else Some T
         }
       }
     }
   }"

definition delete_fixup :: "rbtree \<Rightarrow> ptr \<Rightarrow> rbtree option" where
  "delete_fixup T node =
     (if node = NULL \<or> node = nil T then Some T else delete_fixup_again T node)"

definition swap_val :: "rbtree \<Rightarrow> ptr \<Rightarrow> ptr \<Rightarrow> rbtree option" where
  "swap_val T a b = do {
     tmp \<leftarrow> get T a val;
     vb \<leftarrow> get T b val;
     T \<leftarrow> put T a (\<lambda>n. n\<lparr>val := vb\<rparr>);
     put T b (\<lambda>n. n\<lparr>val := tmp\<rparr>)
   }"

text \<open>\<open>remove_again\<close> is the code from the label \<open>again\<close> of \<open>rbtree_delete\<close>, up to \<open>free\<close>.\<close>

partial_function (option) remove_again :: "rbtree \<Rightarrow> ptr \<Rightarrow> (ptr \<times> rbtree) option" where
  "remove_again T node = do {
     l \<leftarrow> get T node left;
     r \<leftarrow> get T node right;
     if l = nil T \<or> r = nil T then do {
       let child = (if l \<noteq> nil T then l else r);
       T \<leftarrow> delete_fixup T node;
       child \<leftarrow> (if l = nil T \<and> r = nil T then get T node left else Some child);
       (ret, T) \<leftarrow> logic_delete T node child;
       Some (node, T)
     } else do {
       successor \<leftarrow> find_successor T node;
       T \<leftarrow> swap_key T successor node;
       T \<leftarrow> swap_val T successor node;
       remove_again T successor
     }
   }"

definition rbtree_delete :: "rbtree \<Rightarrow> int \<Rightarrow> (int \<times> rbtree) option" where
  "rbtree_delete T k = do {
     node \<leftarrow> rbtree_find T k;
     if node = NULL then Some (- 1, T)
     else do {
       (node, T) \<leftarrow> remove_again T node;
       Some (0, T\<lparr>mem := (mem T)(node := None)\<rparr>)
     }
   }"

section \<open>Printing, creation, destruction\<close>

partial_function (option) rbtree_print :: "rbtree \<Rightarrow> ptr \<Rightarrow> int list option" where
  "rbtree_print T node =
     (if node = NULL \<or> node = nil T then Some []
      else do {
        l \<leftarrow> get T node left;
        out1 \<leftarrow> rbtree_print T l;
        k \<leftarrow> get T node key;
        r \<leftarrow> get T node right;
        out2 \<leftarrow> rbtree_print T r;
        Some (out1 @ [k] @ out2)
      })"

definition rbtree_is_empty :: "rbtree \<Rightarrow> bool" where
  "rbtree_is_empty T = (root T = nil T)"

text \<open>\<open>z\<close> is the pointer \<open>calloc\<close> returned for the \<open>nil\<close> node.\<close>

definition rbtree_create :: "ptr \<Rightarrow> rbtree" where
  "rbtree_create z =
     \<lparr>root = z, nil = z,
      mem = [z \<mapsto> \<lparr>color = BLACK, left = NULL, right = NULL, parent = z, key = 0, val = NULL\<rparr>]\<rparr>"

partial_function (option) free_loop :: "rbtree \<Rightarrow> rbtree option" where
  "free_loop T =
     (if rbtree_is_empty T then Some T
      else do {
        k \<leftarrow> get T (root T) key;
        (ret, T) \<leftarrow> rbtree_delete T k;
        free_loop T
      })"

definition rbtree_free :: "rbtree \<Rightarrow> rbtree option" where
  "rbtree_free T = do {
     T \<leftarrow> free_loop T;
     Some (T\<lparr>mem := (mem T)(nil T := None), root := NULL, nil := NULL\<rparr>)
   }"

text \<open>The loops compute: their equations are code equations.\<close>

lemmas rb_loops [code] =
  find_loop.simps insert_fixup_loop.simps insert_descend.simps min_loop.simps up_loop.simps
  delete_fixup_again.simps remove_again.simps rbtree_print.simps free_loop.simps

end
