(* ===== verification/Rbtree_Rep.thy ===== *)
theory Rbtree_Rep
  imports Rbtree
begin

text \<open>
  The trees a heap of \<open>rb_node\<close>s holds, and what the rotations do to them. A position in a tree is
  a subtree and its context (a list of \<open>crumb\<close>s up to the root); \<open>at T t zs\<close> says that the heap of
  \<open>T\<close> holds the tree \<open>t\<close> in the context \<open>zs\<close>, the parent pointers included.
\<close>

section \<open>Trees in the heap\<close>

datatype rbt = Lf | Nd rbt ptr color int ptr rbt

datatype crumb = CL ptr color int ptr rbt | CR rbt ptr color int ptr

fun addrs :: "rbt \<Rightarrow> ptr list" where
  "addrs Lf = []"
| "addrs (Nd l a c k v r) = addrs l @ a # addrs r"

fun crumb_addrs :: "crumb \<Rightarrow> ptr list" where
  "crumb_addrs (CL a c k v r) = a # addrs r"
| "crumb_addrs (CR l a c k v) = a # addrs l"

definition ctx_addrs :: "crumb list \<Rightarrow> ptr list" where
  "ctx_addrs zs = concat (map crumb_addrs zs)"

text \<open>The pointer to a tree, and the pointer to the node a context hangs below.\<close>

fun rptr :: "ptr \<Rightarrow> rbt \<Rightarrow> ptr" where
  "rptr z Lf = z"
| "rptr z (Nd l a c k v r) = a"

fun cptr :: "ptr \<Rightarrow> crumb list \<Rightarrow> ptr" where
  "cptr z [] = z"
| "cptr z (CL a c k v r # zs) = a"
| "cptr z (CR l a c k v # zs) = a"

fun rep :: "rb_node heap \<Rightarrow> ptr \<Rightarrow> ptr \<Rightarrow> rbt \<Rightarrow> bool" where
  "rep h z par Lf \<longleftrightarrow> True"
| "rep h z par (Nd l a c k v r) \<longleftrightarrow>
     h a = Some \<lparr>color = c, left = rptr z l, right = rptr z r, parent = par, key = k, val = v\<rparr> \<and>
     rep h z a l \<and> rep h z a r"

fun rep_ctx :: "rb_node heap \<Rightarrow> ptr \<Rightarrow> ptr \<Rightarrow> ptr \<Rightarrow> crumb list \<Rightarrow> bool" where
  "rep_ctx h z rt p [] \<longleftrightarrow> rt = p"
| "rep_ctx h z rt p (CL a c k v r # zs) \<longleftrightarrow>
     h a = Some \<lparr>color = c, left = p, right = rptr z r, parent = cptr z zs, key = k, val = v\<rparr> \<and>
     rep h z a r \<and> rep_ctx h z rt a zs"
| "rep_ctx h z rt p (CR l a c k v # zs) \<longleftrightarrow>
     h a = Some \<lparr>color = c, left = rptr z l, right = p, parent = cptr z zs, key = k, val = v\<rparr> \<and>
     rep h z a l \<and> rep_ctx h z rt a zs"

text \<open>
  \<open>at T t zs\<close>: the tree of \<open>T\<close> is \<open>t\<close> in the context \<open>zs\<close>; its nodes are distinct, none is at the
  null pointer, and the \<open>nil\<close> node is allocated, black and not among them.
\<close>

definition at :: "rbtree \<Rightarrow> rbt \<Rightarrow> crumb list \<Rightarrow> bool" where
  "at T t zs \<longleftrightarrow>
     rep (mem T) (nil T) (cptr (nil T) zs) t \<and>
     rep_ctx (mem T) (nil T) (root T) (rptr (nil T) t) zs \<and>
     distinct (NULL # nil T # addrs t @ ctx_addrs zs) \<and> mem T NULL = None \<and>
     (\<exists>zn. mem T (nil T) = Some zn \<and> color zn = BLACK)"

lemma rep_upd [simp]: "x \<notin> set (addrs t) \<Longrightarrow> rep (h(x := n)) z par t = rep h z par t"
  by (induction t arbitrary: par) auto

lemma ctx_addrs_simps [simp]:
  "ctx_addrs [] = []" "ctx_addrs (c # zs) = crumb_addrs c @ ctx_addrs zs"
  by (simp_all add: ctx_addrs_def)

lemma rep_ctx_upd [simp]:
  "x \<notin> set (ctx_addrs zs) \<Longrightarrow> rep_ctx (h(x := n)) z rt p zs = rep_ctx h z rt p zs"
  by (induction h z rt p zs rule: rep_ctx.induct) auto

lemma rptr_in: "rptr z t = z \<or> rptr z t \<in> set (addrs t)"
  by (cases t) auto

lemma rptr_notin [simp]: "z \<noteq> x \<Longrightarrow> x \<notin> set (addrs t) \<Longrightarrow> rptr z t \<noteq> x"
  using rptr_in by metis

lemma cptr_in: "cptr z zs = z \<or> cptr z zs \<in> set (ctx_addrs zs)"
  by (cases "(z, zs)" rule: cptr.cases) auto

text \<open>\<open>get\<close> and \<open>put\<close> on known cells compute.\<close>

lemma get_put:
  "mem T p = Some n \<Longrightarrow> get T p f = Some (f n)"
  "mem T p = Some n \<Longrightarrow> put T p g = Some (T\<lparr>mem := (mem T)(p \<mapsto> g n)\<rparr>)"
  by (simp_all add: get_def put_def)

lemma color_xor_simps [simp]:
  "color_xor (color_xor a b) b = a" "color_xor (color_xor a b) a = b"
  "color_xor a (color_xor a b) = b"
  by (cases a; cases b; simp add: color_xor_def)+

lemma swap_color_eq:
  assumes "a \<noteq> b" "mem T a = Some na" "mem T b = Some nb"
  shows "swap_color T a b =
    Some (T\<lparr>mem := (mem T)(a \<mapsto> na\<lparr>color := color nb\<rparr>, b \<mapsto> nb\<lparr>color := color na\<rparr>)\<rparr>)"
  using assms by (simp add: swap_color_def get_def put_def fun_upd_twist)

lemma left_rotate_at:
  assumes "at T (Nd l a c k v (Nd m b c' k' v' r)) zs"
  shows "\<exists>T'. left_rotate T a = Some T' \<and> nil T' = nil T \<and> at T' (Nd (Nd l a c' k v m) b c k' v' r) zs \<and>
    (\<forall>x. x \<notin> set (addrs l @ addrs m @ addrs r @ a # b # ctx_addrs zs) \<longrightarrow> mem T' x = mem T x)"
proof -
  let ?h = "mem T" and ?z = "nil T"
  have d: "distinct (NULL # ?z # a # b # addrs l @ addrs m @ addrs r @ ctx_addrs zs)"
    using assms by (auto simp: at_def)
  then have d2: "distinct (NULL # ?z # addrs (Nd (Nd l a c' k v m) b c k' v' r) @ ctx_addrs zs)"
    by auto
  have n: "a \<noteq> b" "0 < a" "0 < b" "0 < ?z" "a \<noteq> ?z" "b \<noteq> ?z"
    "a \<notin> set (addrs l)" "a \<notin> set (addrs m)" "a \<notin> set (addrs r)" "a \<notin> set (ctx_addrs zs)"
    "b \<notin> set (addrs l)" "b \<notin> set (addrs m)" "b \<notin> set (addrs r)" "b \<notin> set (ctx_addrs zs)"
    using d by auto
  obtain zn where at:
    "?h a = Some \<lparr>color = c, left = rptr ?z l, right = b, parent = cptr ?z zs, key = k, val = v\<rparr>"
    "?h b = Some \<lparr>color = c', left = rptr ?z m, right = rptr ?z r, parent = a, key = k', val = v'\<rparr>"
    "rep ?h ?z a l" "rep ?h ?z b m" "rep ?h ?z b r" "rep_ctx ?h ?z (root T) a zs"
    "?h NULL = None" "?h ?z = Some zn" "color zn = BLACK"
    using assms by (auto simp: at_def)
  note sw = swap_color_eq [OF n(1) [symmetric] at(2) at(1)]
  note facts = at n d2
  have m: "m = Lf \<or> (\<exists>ml x mc mk mv mr. m = Nd ml x mc mk mv mr \<and> 0 < x \<and> x \<noteq> ?z \<and> x \<noteq> a \<and> x \<noteq> b \<and>
      x \<notin> set (addrs l) \<and> x \<notin> set (addrs ml) \<and> x \<notin> set (addrs mr) \<and> x \<notin> set (addrs r) \<and>
      x \<notin> set (ctx_addrs zs))"
    using d by (cases m) auto
  consider "zs = []" | y cc kk vv t zs' where "zs = CL y cc kk vv t # zs'"
    | y cc kk vv t zs' where "zs = CR t y cc kk vv # zs'"
    by (metis crumb.exhaust neq_Nil_conv)
  then show ?thesis
  proof cases
    case 1
    from m facts 1 show ?thesis
      unfolding left_rotate_def at_def
      by (elim disjE exE conjE; simp add: sw get_def put_def del: distinct.simps)
  next
    case 2
    with d have y: "0 < y" "y \<noteq> ?z" "y \<noteq> a" "y \<noteq> b" "y \<notin> set (addrs l)" "y \<notin> set (addrs m)" "y \<notin> set (addrs r)"
      "y \<notin> set (addrs t)" "y \<notin> set (ctx_addrs zs')" "a \<noteq> rptr ?z t"
      using rptr_in [of ?z t] by auto
    from m y facts 2 show ?thesis
      unfolding left_rotate_def at_def
      by (elim disjE exE conjE; simp add: sw get_def put_def del: distinct.simps)
  next
    case 3
    with d have y: "0 < y" "y \<noteq> ?z" "y \<noteq> a" "y \<noteq> b" "y \<notin> set (addrs l)" "y \<notin> set (addrs m)" "y \<notin> set (addrs r)"
      "y \<notin> set (addrs t)" "y \<notin> set (ctx_addrs zs')" "a \<noteq> rptr ?z t"
      using rptr_in [of ?z t] by auto
    from m y facts 3 show ?thesis
      unfolding left_rotate_def at_def
      by (elim disjE exE conjE; simp add: sw get_def put_def del: distinct.simps)
  qed
qed

lemma right_rotate_at:
  assumes "at T (Nd (Nd l b c' k' v' m) a c k v r) zs"
  shows "\<exists>T'. right_rotate T a = Some T' \<and> nil T' = nil T \<and> at T' (Nd l b c k' v' (Nd m a c' k v r)) zs \<and>
    (\<forall>x. x \<notin> set (addrs l @ addrs m @ addrs r @ a # b # ctx_addrs zs) \<longrightarrow> mem T' x = mem T x)"
proof -
  let ?h = "mem T" and ?z = "nil T"
  have d: "distinct (NULL # ?z # a # b # addrs l @ addrs m @ addrs r @ ctx_addrs zs)"
    using assms by (auto simp: at_def)
  then have d2: "distinct (NULL # ?z # addrs (Nd l b c k' v' (Nd m a c' k v r)) @ ctx_addrs zs)"
    by auto
  have n: "a \<noteq> b" "0 < a" "0 < b" "0 < ?z" "a \<noteq> ?z" "b \<noteq> ?z"
    "a \<notin> set (addrs l)" "a \<notin> set (addrs m)" "a \<notin> set (addrs r)" "a \<notin> set (ctx_addrs zs)"
    "b \<notin> set (addrs l)" "b \<notin> set (addrs m)" "b \<notin> set (addrs r)" "b \<notin> set (ctx_addrs zs)"
    using d by auto
  obtain zn where at:
    "?h a = Some \<lparr>color = c, left = b, right = rptr ?z r, parent = cptr ?z zs, key = k, val = v\<rparr>"
    "?h b = Some \<lparr>color = c', left = rptr ?z l, right = rptr ?z m, parent = a, key = k', val = v'\<rparr>"
    "rep ?h ?z b l" "rep ?h ?z b m" "rep ?h ?z a r" "rep_ctx ?h ?z (root T) a zs"
    "?h NULL = None" "?h ?z = Some zn" "color zn = BLACK"
    using assms by (auto simp: at_def)
  note sw = swap_color_eq [OF n(1) [symmetric] at(2) at(1)]
  note facts = at n d2
  have m: "m = Lf \<or> (\<exists>ml x mc mk mv mr. m = Nd ml x mc mk mv mr \<and> 0 < x \<and> x \<noteq> ?z \<and> x \<noteq> a \<and> x \<noteq> b \<and>
      x \<notin> set (addrs l) \<and> x \<notin> set (addrs ml) \<and> x \<notin> set (addrs mr) \<and> x \<notin> set (addrs r) \<and>
      x \<notin> set (ctx_addrs zs))"
    using d by (cases m) auto
  consider "zs = []" | y cc kk vv t zs' where "zs = CL y cc kk vv t # zs'"
    | y cc kk vv t zs' where "zs = CR t y cc kk vv # zs'"
    by (metis crumb.exhaust neq_Nil_conv)
  then show ?thesis
  proof cases
    case 1
    from m facts 1 show ?thesis
      unfolding right_rotate_def at_def
      by (elim disjE exE conjE; simp add: sw get_def put_def del: distinct.simps)
  next
    case 2
    with d have y: "0 < y" "y \<noteq> ?z" "y \<noteq> a" "y \<noteq> b" "y \<notin> set (addrs l)" "y \<notin> set (addrs m)" "y \<notin> set (addrs r)"
      "y \<notin> set (addrs t)" "y \<notin> set (ctx_addrs zs')" "a \<noteq> rptr ?z t"
      using rptr_in [of ?z t] by auto
    from m y facts 2 show ?thesis
      unfolding right_rotate_def at_def
      by (elim disjE exE conjE; simp add: sw get_def put_def del: distinct.simps)
  next
    case 3
    with d have y: "0 < y" "y \<noteq> ?z" "y \<noteq> a" "y \<noteq> b" "y \<notin> set (addrs l)" "y \<notin> set (addrs m)" "y \<notin> set (addrs r)"
      "y \<notin> set (addrs t)" "y \<notin> set (ctx_addrs zs')" "a \<noteq> rptr ?z t"
      using rptr_in [of ?z t] by auto
    from m y facts 3 show ?thesis
      unfolding right_rotate_def at_def
      by (elim disjE exE conjE; simp add: sw get_def put_def del: distinct.simps)
  qed
qed

lemma color_neq [simp]: "c \<noteq> BLACK \<longleftrightarrow> c = RED" "c \<noteq> RED \<longleftrightarrow> c = BLACK"
  by (cases c; simp)+

lemma rptr_notin2 [simp]: "z \<noteq> x \<Longrightarrow> x \<notin> set (addrs t) \<Longrightarrow> x \<noteq> rptr z t"
  using rptr_in by metis

section \<open>Moving up and down\<close>

fun up :: "rbt \<Rightarrow> crumb \<Rightarrow> rbt" where
  "up t (CL a c k v r) = Nd t a c k v r"
| "up t (CR l a c k v) = Nd l a c k v t"

definition plug :: "rbt \<Rightarrow> crumb list \<Rightarrow> rbt" where
  "plug t zs = foldl up t zs"

lemma plug_simps [simp]: "plug t [] = t" "plug t (c # zs) = plug (up t c) zs"
  by (simp_all add: plug_def)

lemma at_up: "at T t (c # zs) \<longleftrightarrow> at T (up t c) zs"
  by (cases c) (auto simp: at_def)

lemma at_plug: "at T t zs \<longleftrightarrow> at T (plug t zs) []"
  by (induction zs arbitrary: t) (simp_all add: at_up)

text \<open>The entries of a tree in order: key, address, value.\<close>

fun entries :: "rbt \<Rightarrow> (int \<times> ptr \<times> ptr) list" where
  "entries Lf = []"
| "entries (Nd l a c k v r) = entries l @ (k, a, v) # entries r"

lemma addrs_entries: "addrs t = map (fst \<circ> snd) (entries t)"
  by (induction t) auto

fun lside :: "crumb \<Rightarrow> (int \<times> ptr \<times> ptr) list" where
  "lside (CL a c k v r) = []"
| "lside (CR l a c k v) = entries l @ [(k, a, v)]"

fun rside :: "crumb \<Rightarrow> (int \<times> ptr \<times> ptr) list" where
  "rside (CL a c k v r) = (k, a, v) # entries r"
| "rside (CR l a c k v) = []"

lemma entries_up: "entries (up t c) = lside c @ entries t @ rside c"
  by (cases c) auto

lemma entries_plug:
  "entries (plug t zs) = concat (map lside (rev zs)) @ entries t @ concat (map rside zs)"
  by (induction zs arbitrary: t) (simp_all add: entries_up)

lemma entries_plug_cong: "entries t = entries t' \<Longrightarrow> entries (plug t zs) = entries (plug t' zs)"
  by (simp add: entries_plug)

text \<open>
  \<open>becomes T t T' t'\<close>: the tree \<open>t\<close> of \<open>T\<close> has become the tree \<open>t'\<close> of \<open>T'\<close>, with the same
  entries in the same order, and no other cell has changed.
\<close>

definition becomes :: "rbtree \<Rightarrow> rbt \<Rightarrow> rbtree \<Rightarrow> rbt \<Rightarrow> bool" where
  "becomes T t T' t' \<longleftrightarrow> at T' t' [] \<and> nil T' = nil T \<and> entries t' = entries t \<and>
     (\<forall>x. x \<notin> set (addrs t) \<longrightarrow> mem T' x = mem T x)"

lemma becomes_refl: "at T t zs \<Longrightarrow> becomes T (plug t zs) T (plug t zs)"
  by (simp add: becomes_def at_plug [symmetric])

lemma becomes_trans: "becomes T t T1 t1 \<Longrightarrow> becomes T1 t1 T2 t2 \<Longrightarrow> becomes T t T2 t2"
  by (simp add: becomes_def addrs_entries)

lemma at_node:
  "at T (Nd l a c k v r) zs \<Longrightarrow> mem T a = Some \<lparr>color = c, left = rptr (nil T) l,
     right = rptr (nil T) r, parent = cptr (nil T) zs, key = k, val = v\<rparr>"
  by (simp add: at_def)

lemma at_distinct: "at T t zs \<Longrightarrow> distinct (NULL # nil T # addrs (plug t zs))"
  using at_plug [of T t zs] by (simp add: at_def)

lemma at_recolor:
  assumes "at T (Nd l a c k v r) zs" "mem T a = Some n"
  shows "at (T\<lparr>mem := (mem T)(a \<mapsto> n\<lparr>color := c'\<rparr>)\<rparr>) (Nd l a c' k v r) zs"
  using assms by (auto simp: at_def)

lemma becomes_recolor:
  assumes "at T (Nd l a c k v r) zs" "mem T a = Some n"
  shows "becomes T (plug (Nd l a c k v r) zs)
    (T\<lparr>mem := (mem T)(a \<mapsto> n\<lparr>color := c'\<rparr>)\<rparr>) (plug (Nd l a c' k v r) zs)"
  using at_recolor [OF assms, of c'] 
  by (auto simp: becomes_def entries_plug at_plug [of _ _ zs] addrs_entries)

lemma addrs_plug: "set (addrs (plug t zs)) = set (addrs t) \<union> set (ctx_addrs zs)"
proof (induction zs arbitrary: t)
  case (Cons c zs)
  then show ?case by (cases c) auto
qed simp

lemma left_rotate_becomes:
  assumes "at T (Nd l a c k v (Nd m b c' k' v' r)) zs"
  shows "\<exists>T'. left_rotate T a = Some T' \<and> at T' (Nd (Nd l a c' k v m) b c k' v' r) zs \<and>
    becomes T (plug (Nd l a c k v (Nd m b c' k' v' r)) zs)
      T' (plug (Nd (Nd l a c' k v m) b c k' v' r) zs)"
  using left_rotate_at [OF assms]
  by (auto simp: becomes_def addrs_plug at_plug [of _ _ zs] intro!: entries_plug_cong)

lemma right_rotate_becomes:
  assumes "at T (Nd (Nd l b c' k' v' m) a c k v r) zs"
  shows "\<exists>T'. right_rotate T a = Some T' \<and> at T' (Nd l b c k' v' (Nd m a c' k v r)) zs \<and>
    becomes T (plug (Nd (Nd l b c' k' v' m) a c k v r) zs)
      T' (plug (Nd l b c k' v' (Nd m a c' k v r)) zs)"
  using right_rotate_at [OF assms]
  by (auto simp: becomes_def addrs_plug at_plug [of _ _ zs] intro!: entries_plug_cong)

section \<open>The red-black invariant\<close>

fun cl :: "rbt \<Rightarrow> color" where
  "cl Lf = BLACK"
| "cl (Nd l a c k v r) = c"

fun bh :: "rbt \<Rightarrow> nat" where
  "bh Lf = 0"
| "bh (Nd l a c k v r) = bh l + (if c = BLACK then 1 else 0)"

fun invh :: "rbt \<Rightarrow> bool" where
  "invh Lf \<longleftrightarrow> True"
| "invh (Nd l a c k v r) \<longleftrightarrow> bh l = bh r \<and> invh l \<and> invh r"

fun invc :: "rbt \<Rightarrow> bool" where
  "invc Lf \<longleftrightarrow> True"
| "invc (Nd l a c k v r) \<longleftrightarrow> (c = RED \<longrightarrow> cl l = BLACK \<and> cl r = BLACK) \<and> invc l \<and> invc r"

fun crumb_cl :: "crumb \<Rightarrow> color" where
  "crumb_cl (CL a c k v r) = c"
| "crumb_cl (CR l a c k v) = c"

fun sib :: "crumb \<Rightarrow> rbt" where
  "sib (CL a c k v r) = r"
| "sib (CR l a c k v) = l"

text \<open>The context of a hole of black height \<open>n\<close>: a red node has a black sibling subtree and a black parent.\<close>

fun ctx_ok :: "nat \<Rightarrow> crumb list \<Rightarrow> bool" where
  "ctx_ok n [] \<longleftrightarrow> True"
| "ctx_ok n (c # zs) \<longleftrightarrow> bh (sib c) = n \<and> invh (sib c) \<and> invc (sib c) \<and>
     (crumb_cl c = RED \<longrightarrow> cl (sib c) = BLACK \<and> (\<exists>d ds. zs = d # ds \<and> crumb_cl d = BLACK)) \<and>
     ctx_ok (n + (if crumb_cl c = BLACK then 1 else 0)) zs"

definition red_under_red :: "rbt \<Rightarrow> crumb list \<Rightarrow> bool" where
  "red_under_red t zs \<longleftrightarrow> cl t = RED \<and> zs \<noteq> [] \<and> crumb_cl (hd zs) = RED"

lemma ctx_ok_plug:
  assumes "ctx_ok (bh t) zs" "invh t" "invc t" "\<not> red_under_red t zs"
  shows "invh (plug t zs) \<and> invc (plug t zs)"
  using assms
proof (induction zs arbitrary: t)
  case (Cons c zs)
  have "ctx_ok (bh (up t c)) zs" "invh (up t c)" "invc (up t c)" "\<not> red_under_red (up t c) zs"
    using Cons.prems by (cases c; auto simp: red_under_red_def; metis color.exhaust)+
  then show ?case using Cons.IH by simp
qed simp

end
