(* ===== verification/Rbtree_Insert.thy ===== *)
theory Rbtree_Insert
  imports Rbtree_Rep
begin

text \<open>
  Insertion: the descent finds the place of the key, the repair restores the red-black invariant
  by recolouring upwards and at most two rotations, and the entries are those of the old tree with
  the new one inserted in order.
\<close>

section \<open>The repair after an insertion\<close>

lemma at_nil: "at T t zs \<Longrightarrow> \<exists>zn. mem T (nil T) = Some zn \<and> color zn = BLACK"
  by (simp add: at_def)

lemma color_of_root:
  "at T t zs \<Longrightarrow> rb_node_is_red T (rptr (nil T) t) = Some (cl t = RED)"
  by (cases t) (auto simp: at_def rb_node_is_red_def get_def)

lemma color_of_parent:
  "at T t zs \<Longrightarrow> rb_node_is_red T (cptr (nil T) zs) = Some (zs \<noteq> [] \<and> crumb_cl (hd zs) = RED)"
proof (cases zs)
  case (Cons c ds)
  then show "at T t zs \<Longrightarrow> ?thesis"
    by (cases c) (auto simp: at_def rb_node_is_red_def get_def)
qed (auto simp: at_def rb_node_is_red_def get_def)

lemma color_of_sib:
  assumes "at T t (c # zs)"
  shows "rb_node_is_red T (rptr (nil T) (sib c)) = Some (cl (sib c) = RED)"
  using assms by (cases c; cases "sib c") (auto simp: at_def rb_node_is_red_def get_def)

lemma fixup_stop:
  assumes "at T (Nd l a c k v r) zs" "zs = [] \<or> crumb_cl (hd zs) = BLACK"
  shows "insert_fixup_loop T a = Some T"
  using assms at_node [OF assms(1)] color_of_parent [OF assms(1)]
  by (subst insert_fixup_loop.simps) (auto simp: get_def)

lemma fixup_uncle_red_left:
  assumes "at T (Nd (Nd pl p RED pk pv pr) g BLACK gk gv (Nd ul u RED uk uv ur)) zs"
    and "get T a parent = Some p"
  shows "\<exists>T'. insert_fixup_loop T a = insert_fixup_loop T' g \<and>
    at T' (Nd (Nd pl p BLACK pk pv pr) g RED gk gv (Nd ul u BLACK uk uv ur)) zs \<and>
    becomes T (plug (Nd (Nd pl p RED pk pv pr) g BLACK gk gv (Nd ul u RED uk uv ur)) zs)
      T' (plug (Nd (Nd pl p BLACK pk pv pr) g RED gk gv (Nd ul u BLACK uk uv ur)) zs)"
proof -
  let ?z = "nil T"
  from assms(1) obtain zn where m:
    "mem T p = Some \<lparr>color = RED, left = rptr ?z pl, right = rptr ?z pr, parent = g, key = pk, val = pv\<rparr>"
    "mem T u = Some \<lparr>color = RED, left = rptr ?z ul, right = rptr ?z ur, parent = g, key = uk, val = uv\<rparr>"
    "mem T g = Some \<lparr>color = BLACK, left = p, right = u, parent = cptr ?z zs, key = gk, val = gv\<rparr>"
    "mem T ?z = Some zn" "color zn = BLACK"
    and d: "p \<noteq> g" "u \<noteq> p" "u \<noteq> g"
    by (auto simp: at_def)
  have D: "distinct (0 # ?z # p # u # g # addrs pl @ addrs pr @ addrs ul @ addrs ur @ ctx_addrs zs)"
    using assms(1) by (auto simp: at_def)
  let ?T = "T\<lparr>mem := (mem T)(p \<mapsto> the (mem T p)\<lparr>color := BLACK\<rparr>, g \<mapsto> the (mem T g)\<lparr>color := RED\<rparr>,
    u \<mapsto> the (mem T u)\<lparr>color := BLACK\<rparr>)\<rparr>"
  have "insert_fixup_loop T a = insert_fixup_loop ?T g"
    using assms(2) m d swap_color_eq [OF d(1) m(1) m(3)]
    by (subst insert_fixup_loop.simps) (simp add: get_put rb_node_is_red_def rb_set_color_def)
  moreover have "at ?T (Nd (Nd pl p BLACK pk pv pr) g RED gk gv (Nd ul u BLACK uk uv ur)) zs"
    using assms(1) m D by (auto simp: at_def)
  ultimately show ?thesis
    by (auto simp: becomes_def addrs_plug at_plug [of _ _ zs] intro!: entries_plug_cong exI [of _ ?T])
qed

lemma fixup_uncle_red_right:
  assumes "at T (Nd (Nd ul u RED uk uv ur) g BLACK gk gv (Nd pl p RED pk pv pr)) zs"
    and "get T a parent = Some p"
  shows "\<exists>T'. insert_fixup_loop T a = insert_fixup_loop T' g \<and>
    at T' (Nd (Nd ul u BLACK uk uv ur) g RED gk gv (Nd pl p BLACK pk pv pr)) zs \<and>
    becomes T (plug (Nd (Nd ul u RED uk uv ur) g BLACK gk gv (Nd pl p RED pk pv pr)) zs)
      T' (plug (Nd (Nd ul u BLACK uk uv ur) g RED gk gv (Nd pl p BLACK pk pv pr)) zs)"
proof -
  let ?z = "nil T"
  from assms(1) obtain zn where m:
    "mem T p = Some \<lparr>color = RED, left = rptr ?z pl, right = rptr ?z pr, parent = g, key = pk, val = pv\<rparr>"
    "mem T u = Some \<lparr>color = RED, left = rptr ?z ul, right = rptr ?z ur, parent = g, key = uk, val = uv\<rparr>"
    "mem T g = Some \<lparr>color = BLACK, left = u, right = p, parent = cptr ?z zs, key = gk, val = gv\<rparr>"
    "mem T ?z = Some zn" "color zn = BLACK"
    and d: "p \<noteq> g" "u \<noteq> p" "u \<noteq> g"
    by (auto simp: at_def)
  have D: "distinct (0 # ?z # p # u # g # addrs pl @ addrs pr @ addrs ul @ addrs ur @ ctx_addrs zs)"
    using assms(1) by (auto simp: at_def)
  let ?T = "T\<lparr>mem := (mem T)(p \<mapsto> the (mem T p)\<lparr>color := BLACK\<rparr>, g \<mapsto> the (mem T g)\<lparr>color := RED\<rparr>,
    u \<mapsto> the (mem T u)\<lparr>color := BLACK\<rparr>)\<rparr>"
  have "insert_fixup_loop T a = insert_fixup_loop ?T g"
    using assms(2) m d swap_color_eq [OF d(1) m(1) m(3)]
    by (subst insert_fixup_loop.simps) (simp add: get_put rb_node_is_red_def rb_set_color_def)
  moreover have "at ?T (Nd (Nd ul u BLACK uk uv ur) g RED gk gv (Nd pl p BLACK pk pv pr)) zs"
    using assms(1) m D by (auto simp: at_def)
  ultimately show ?thesis
    by (auto simp: becomes_def addrs_plug at_plug [of _ _ zs] intro!: entries_plug_cong exI [of _ ?T])
qed

text \<open>A black uncle: one rotation on the outer side, two on the inner side, and the loop stops.\<close>

lemma fixup_outer_left:
  assumes "at T (Nd (Nd (Nd l a RED k v r) p RED pk pv pr) g BLACK gk gv u) zs" "cl u = BLACK"
  shows "\<exists>T'. insert_fixup_loop T a = Some T' \<and>
    becomes T (plug (Nd (Nd (Nd l a RED k v r) p RED pk pv pr) g BLACK gk gv u) zs)
      T' (plug (Nd (Nd l a RED k v r) p BLACK pk pv (Nd pr g RED gk gv u)) zs)"
proof -
  from right_rotate_becomes [OF assms(1)] obtain T' where T':
    "right_rotate T g = Some T'" "at T' (Nd (Nd l a RED k v r) p BLACK pk pv (Nd pr g RED gk gv u)) zs"
    "becomes T (plug (Nd (Nd (Nd l a RED k v r) p RED pk pv pr) g BLACK gk gv u) zs)
      T' (plug (Nd (Nd l a RED k v r) p BLACK pk pv (Nd pr g RED gk gv u)) zs)"
    by blast
  have stop: "insert_fixup_loop T' a = Some T'"
    using T'(2) at_up [of T' _ "CL p BLACK pk pv (Nd pr g RED gk gv u)" zs]
    by (intro fixup_stop) auto
  have u: "rb_node_is_red T (rptr (nil T) u) = Some False"
    using color_of_sib [of T _ "CL g BLACK gk gv u" zs] at_up [of T _ "CL g BLACK gk gv u" zs] assms by auto
  have "rptr (nil T) pr \<noteq> a"
    using assms(1) rptr_in [of "nil T" pr] by (auto simp: at_def)
  then have "insert_fixup_loop T a = insert_fixup_loop T' a"
    using assms(1) u T'(1)
    by (subst insert_fixup_loop.simps) (auto simp: get_def at_def rb_node_is_red_def)
  with stop T'(3) show ?thesis by auto
qed

lemma fixup_outer_right:
  assumes "at T (Nd u g BLACK gk gv (Nd pl p RED pk pv (Nd l a RED k v r))) zs" "cl u = BLACK"
  shows "\<exists>T'. insert_fixup_loop T a = Some T' \<and>
    becomes T (plug (Nd u g BLACK gk gv (Nd pl p RED pk pv (Nd l a RED k v r))) zs)
      T' (plug (Nd (Nd u g RED gk gv pl) p BLACK pk pv (Nd l a RED k v r)) zs)"
proof -
  from left_rotate_becomes [OF assms(1)] obtain T' where T':
    "left_rotate T g = Some T'" "at T' (Nd (Nd u g RED gk gv pl) p BLACK pk pv (Nd l a RED k v r)) zs"
    "becomes T (plug (Nd u g BLACK gk gv (Nd pl p RED pk pv (Nd l a RED k v r))) zs)
      T' (plug (Nd (Nd u g RED gk gv pl) p BLACK pk pv (Nd l a RED k v r)) zs)"
    by blast
  have stop: "insert_fixup_loop T' a = Some T'"
    using T'(2) at_up [of T' _ "CR (Nd u g RED gk gv pl) p BLACK pk pv" zs]
    by (intro fixup_stop) auto
  have u: "rb_node_is_red T (rptr (nil T) u) = Some False"
    using color_of_sib [of T _ "CR u g BLACK gk gv" zs] at_up [of T _ "CR u g BLACK gk gv" zs] assms by auto
  have "rptr (nil T) pl \<noteq> a" "rptr (nil T) u \<noteq> p"
    using assms(1) rptr_in [of "nil T" pl] rptr_in [of "nil T" u] by (auto simp: at_def)
  then have "insert_fixup_loop T a = insert_fixup_loop T' a"
    using assms(1) u T'(1)
    by (subst insert_fixup_loop.simps) (auto simp: get_def at_def rb_node_is_red_def)
  with stop T'(3) show ?thesis by auto
qed

lemma fixup_inner_left:
  assumes "at T (Nd (Nd pl p RED pk pv (Nd l a RED k v r)) g BLACK gk gv u) zs" "cl u = BLACK"
  shows "\<exists>T'. insert_fixup_loop T a = Some T' \<and>
    becomes T (plug (Nd (Nd pl p RED pk pv (Nd l a RED k v r)) g BLACK gk gv u) zs)
      T' (plug (Nd (Nd pl p RED pk pv l) a BLACK k v (Nd r g RED gk gv u)) zs)"
proof -
  let ?c = "CL g BLACK gk gv u"
  have at0: "at T (Nd pl p RED pk pv (Nd l a RED k v r)) (?c # zs)"
    using assms(1) by (simp add: at_up)
  from left_rotate_becomes [OF this] obtain T1 where T1:
    "left_rotate T p = Some T1" "at T1 (Nd (Nd (Nd pl p RED pk pv l) a RED k v r) g BLACK gk gv u) zs"
    "becomes T (plug (Nd (Nd pl p RED pk pv (Nd l a RED k v r)) g BLACK gk gv u) zs)
      T1 (plug (Nd (Nd (Nd pl p RED pk pv l) a RED k v r) g BLACK gk gv u) zs)"
    by (auto simp: at_up)
  from right_rotate_becomes [OF T1(2)] obtain T2 where T2:
    "right_rotate T1 g = Some T2" "at T2 (Nd (Nd pl p RED pk pv l) a BLACK k v (Nd r g RED gk gv u)) zs"
    "becomes T1 (plug (Nd (Nd (Nd pl p RED pk pv l) a RED k v r) g BLACK gk gv u) zs)
      T2 (plug (Nd (Nd pl p RED pk pv l) a BLACK k v (Nd r g RED gk gv u)) zs)"
    by blast
  have stop: "insert_fixup_loop T2 p = Some T2"
    using T2(2) at_up [of T2 _ "CL a BLACK k v (Nd r g RED gk gv u)" zs]
    by (intro fixup_stop) auto
  have u: "rb_node_is_red T (rptr (nil T) u) = Some False"
    using color_of_sib [OF at0] assms(2) by simp
  have "insert_fixup_loop T a = insert_fixup_loop T2 p"
    using assms(1) u T1(1) T2(1)
    by (subst insert_fixup_loop.simps) (auto simp: get_def at_def rb_node_is_red_def)
  with stop becomes_trans [OF T1(3) T2(3)] show ?thesis by auto
qed

lemma fixup_inner_right:
  assumes "at T (Nd u g BLACK gk gv (Nd (Nd l a RED k v r) p RED pk pv pr)) zs" "cl u = BLACK"
  shows "\<exists>T'. insert_fixup_loop T a = Some T' \<and>
    becomes T (plug (Nd u g BLACK gk gv (Nd (Nd l a RED k v r) p RED pk pv pr)) zs)
      T' (plug (Nd (Nd u g RED gk gv l) a BLACK k v (Nd r p RED pk pv pr)) zs)"
proof -
  let ?c = "CR u g BLACK gk gv"
  have at0: "at T (Nd (Nd l a RED k v r) p RED pk pv pr) (?c # zs)"
    using assms(1) by (simp add: at_up)
  from right_rotate_becomes [OF this] obtain T1 where T1:
    "right_rotate T p = Some T1" "at T1 (Nd u g BLACK gk gv (Nd l a RED k v (Nd r p RED pk pv pr))) zs"
    "becomes T (plug (Nd u g BLACK gk gv (Nd (Nd l a RED k v r) p RED pk pv pr)) zs)
      T1 (plug (Nd u g BLACK gk gv (Nd l a RED k v (Nd r p RED pk pv pr))) zs)"
    by (auto simp: at_up)
  from left_rotate_becomes [OF T1(2)] obtain T2 where T2:
    "left_rotate T1 g = Some T2" "at T2 (Nd (Nd u g RED gk gv l) a BLACK k v (Nd r p RED pk pv pr)) zs"
    "becomes T1 (plug (Nd u g BLACK gk gv (Nd l a RED k v (Nd r p RED pk pv pr))) zs)
      T2 (plug (Nd (Nd u g RED gk gv l) a BLACK k v (Nd r p RED pk pv pr)) zs)"
    by blast
  have stop: "insert_fixup_loop T2 p = Some T2"
    using T2(2) at_up [of T2 _ "CR (Nd u g RED gk gv l) a BLACK k v" zs]
    by (intro fixup_stop) auto
  have u: "rb_node_is_red T (rptr (nil T) u) = Some False"
    using color_of_sib [OF at0] assms(2) by simp
  have "rptr (nil T) u \<noteq> p"
    using assms(1) rptr_in [of "nil T" u] by (auto simp: at_def)
  then have "insert_fixup_loop T a = insert_fixup_loop T2 p"
    using assms(1) u T1(1) T2(1)
    by (subst insert_fixup_loop.simps) (auto simp: get_def at_def rb_node_is_red_def)
  with stop becomes_trans [OF T1(3) T2(3)] show ?thesis by auto
qed

lemma colour_cases:
  obtains (red) l a k v r where "t = Nd l a RED k v r" | (black) "cl t = BLACK"
proof (cases t)
  case (Nd l a c k v r)
  then show ?thesis using that by (cases c) auto
qed (use that in auto)

theorem insert_fixup_loop_correct:
  assumes "at T (Nd l a RED k v r) zs" "invh (Nd l a RED k v r)" "invc (Nd l a RED k v r)"
    "ctx_ok (bh (Nd l a RED k v r)) zs"
  shows "\<exists>T' t'. insert_fixup_loop T a = Some T' \<and>
    becomes T (plug (Nd l a RED k v r) zs) T' t' \<and> invh t' \<and> invc t'"
  using assms
proof (induction "length zs" arbitrary: T l a k v r zs rule: less_induct)
  case less
  let ?t = "Nd l a RED k v r"
  show ?case
  proof (cases "zs = [] \<or> crumb_cl (hd zs) = BLACK")
    case True
    with less.prems have "\<not> red_under_red ?t zs"
      by (auto simp: red_under_red_def)
    with less.prems ctx_ok_plug [of ?t zs] fixup_stop [OF less.prems(1) True]
      becomes_refl [OF less.prems(1)]
    show ?thesis by blast
  next
    case False
    then obtain c d ds where zs: "zs = c # d # ds" and c: "crumb_cl c = RED" and d: "crumb_cl d = BLACK"
      using less.prems(4) by (cases zs) auto
    have len: "length ds < length zs" by (simp add: zs)
    have at2: "at T (up (up ?t c) d) ds" using less.prems(1) by (simp add: zs at_up)
    have plug_zs: "plug ?t zs = plug (up (up ?t c) d) ds" by (simp add: zs)
    obtain p pk pv s where cform: "c = CL p RED pk pv s \<or> c = CR s p RED pk pv"
      using c by (cases c) auto
    obtain g gk gv u where dform: "d = CL g BLACK gk gv u \<or> d = CR u g BLACK gk gv"
      using d by (cases d) auto
    have par: "get T a parent = Some p"
      using cform less.prems(1) by (auto simp: zs at_def get_def)
    show ?thesis
    proof (cases u rule: colour_cases)
      case (red ul ua uk uv ur)
      obtain pl pr where upc: "up ?t c = Nd pl p RED pk pv pr" using cform by auto
      note IH = less.hyps [OF len]
      from dform show ?thesis
      proof
        assume dd: "d = CL g BLACK gk gv u"
        from fixup_uncle_red_left [OF _ par] at2 obtain T1 where T1:
          "insert_fixup_loop T a = insert_fixup_loop T1 g"
          "at T1 (Nd (Nd pl p BLACK pk pv pr) g RED gk gv (Nd ul ua BLACK uk uv ur)) ds"
          "becomes T (plug ?t zs)
            T1 (plug (Nd (Nd pl p BLACK pk pv pr) g RED gk gv (Nd ul ua BLACK uk uv ur)) ds)"
          unfolding plug_zs by (simp add: dd red upc) blast
        have "\<exists>T' t'. insert_fixup_loop T1 g = Some T' \<and>
          becomes T1 (plug (Nd (Nd pl p BLACK pk pv pr) g RED gk gv (Nd ul ua BLACK uk uv ur)) ds) T' t' \<and>
          invh t' \<and> invc t'"
          by (rule IH [OF T1(2)]; use less.prems cform upc in \<open>auto simp: zs dd red\<close>)
        with T1 becomes_trans [OF T1(3)] show ?thesis by metis
      next
        assume dd: "d = CR u g BLACK gk gv"
        from fixup_uncle_red_right [OF _ par] at2 obtain T1 where T1:
          "insert_fixup_loop T a = insert_fixup_loop T1 g"
          "at T1 (Nd (Nd ul ua BLACK uk uv ur) g RED gk gv (Nd pl p BLACK pk pv pr)) ds"
          "becomes T (plug ?t zs)
            T1 (plug (Nd (Nd ul ua BLACK uk uv ur) g RED gk gv (Nd pl p BLACK pk pv pr)) ds)"
          unfolding plug_zs by (simp add: dd red upc) blast
        have "\<exists>T' t'. insert_fixup_loop T1 g = Some T' \<and>
          becomes T1 (plug (Nd (Nd ul ua BLACK uk uv ur) g RED gk gv (Nd pl p BLACK pk pv pr)) ds) T' t' \<and>
          invh t' \<and> invc t'"
          by (rule IH [OF T1(2)]; use less.prems cform upc in \<open>auto simp: zs dd red\<close>)
        with T1 becomes_trans [OF T1(3)] show ?thesis by metis
      qed
    next
      case black
      have fin: "\<exists>T' t'. insert_fixup_loop T a = Some T' \<and> becomes T (plug ?t zs) T' t' \<and> invh t' \<and> invc t'"
        if "\<exists>T'. insert_fixup_loop T a = Some T' \<and> becomes T (plug (up (up ?t c) d) ds) T' (plug t' ds)"
          "bh t' = bh u + 1" "invh t'" "invc t'" "cl t' = BLACK" for t'
      proof -
        have "ctx_ok (bh t') ds" "\<not> red_under_red t' ds"
          using less.prems(4) dform that by (auto simp: zs red_under_red_def)
        with ctx_ok_plug [of t' ds] that show ?thesis by (auto simp: plug_zs)
      qed
      have facts: "bh s = bh l" "bh u = bh l" "bh r = bh l" "invh s" "invh u" "invh l" "invh r"
        "invc s" "invc u" "invc l" "invc r" "cl s = BLACK" "cl l = BLACK" "cl r = BLACK"
        using less.prems cform dform by (auto simp: zs)
      from cform dform show ?thesis
      proof (elim disjE)
        assume cd: "c = CL p RED pk pv s" "d = CL g BLACK gk gv u"
        show ?thesis
          using fixup_outer_left [of T l a k v r p pk pv s g gk gv u ds] at2 black facts cd
          by (intro fin [of "Nd ?t p BLACK pk pv (Nd s g RED gk gv u)"]) auto
      next
        assume cd: "c = CR s p RED pk pv" "d = CR u g BLACK gk gv"
        show ?thesis
          using fixup_outer_right [of T u g gk gv s p pk pv l a k v r ds] at2 black facts cd
          by (intro fin [of "Nd (Nd u g RED gk gv s) p BLACK pk pv ?t"]) auto
      next
        assume cd: "c = CL p RED pk pv s" "d = CR u g BLACK gk gv"
        show ?thesis
          using fixup_inner_right [of T u g gk gv l a k v r p pk pv s ds] at2 black facts cd
          by (intro fin [of "Nd (Nd u g RED gk gv l) a BLACK k v (Nd r p RED pk pv s)"]) auto
      next
        assume cd: "c = CR s p RED pk pv" "d = CL g BLACK gk gv u"
        show ?thesis
          using fixup_inner_left [of T s p pk pv l a k v r g gk gv u ds] at2 black facts cd
          by (intro fin [of "Nd (Nd s p RED pk pv l) a BLACK k v (Nd r g RED gk gv u)"]) auto
      qed
    qed
  qed
qed

abbreviation keys :: "rbt \<Rightarrow> int list" where
  "keys t \<equiv> map fst (entries t)"

definition bst :: "rbt \<Rightarrow> bool" where
  "bst t \<longleftrightarrow> sorted_wrt (<) (keys t)"

definition rb_ok :: "rbtree \<Rightarrow> rbt \<Rightarrow> bool" where
  "rb_ok T t \<longleftrightarrow> at T t [] \<and> invh t \<and> invc t \<and> cl t = BLACK \<and> bst t"

lemma bst_simps [simp]:
  "bst Lf"
  "bst (Nd l a c k v r) \<longleftrightarrow> bst l \<and> bst r \<and> (\<forall>x\<in>set (keys l). x < k) \<and> (\<forall>x\<in>set (keys r). k < x)"
  by (fastforce simp: bst_def sorted_wrt_append)+

section \<open>Lookup\<close>

lemma find_loop_at:
  assumes "at T t zs" "bst t"
  shows "find_loop T (rptr (nil T) t) k =
    Some (case map_of (map (\<lambda>e. (fst e, fst (snd e))) (entries t)) k of None \<Rightarrow> nil T | Some a \<Rightarrow> a)"
  using assms
proof (induction t arbitrary: zs)
  case Lf
  show ?case by (subst find_loop.simps) simp
next
  case (Nd l a c k' v r)
  have atl: "at T l (CL a c k' v r # zs)" and atr: "at T r (CR l a c k' v # zs)"
    using Nd.prems(1) by (simp_all add: at_up)
  have "a \<noteq> nil T" using Nd.prems(1) by (auto simp: at_def)
  moreover have "map_of (map (\<lambda>e. (fst e, fst (snd e))) (entries r)) k = None" if "k \<le> k'"
    using Nd.prems(2) that by (auto simp: map_of_eq_None_iff; fastforce)
  moreover have "map_of (map (\<lambda>e. (fst e, fst (snd e))) (entries l)) k = None" if "k' \<le> k"
    using Nd.prems(2) that by (auto simp: map_of_eq_None_iff; fastforce)
  ultimately show ?case
    using Nd.prems at_node [OF Nd.prems(1)] Nd.IH(1) [OF atl] Nd.IH(2) [OF atr]
    by (subst find_loop.simps) (auto simp: get_def map_add_def split: option.splits)
qed

section \<open>Descent\<close>

lemma descend_present:
  assumes "at T t zs" "bst t" "k \<in> set (keys t)"
  shows "insert_descend T k (rptr (nil T) t) par = Some None"
  using assms
proof (induction t arbitrary: zs par)
  case (Nd l a c k' v r)
  have atl: "at T l (CL a c k' v r # zs)" and atr: "at T r (CR l a c k' v # zs)"
    using Nd.prems(1) by (simp_all add: at_up)
  have "a \<noteq> nil T" using Nd.prems(1) by (auto simp: at_def)
  moreover have "k < k' \<Longrightarrow> k \<in> set (keys l)" "k' < k \<Longrightarrow> k \<in> set (keys r)"
    using Nd.prems(2,3) by force+
  ultimately show ?case
    using Nd.prems at_node [OF Nd.prems(1)] Nd.IH(1) [OF atl] Nd.IH(2) [OF atr]
    by (subst insert_descend.simps) (auto simp: get_def)
qed simp

definition parts :: "int \<Rightarrow> crumb list \<Rightarrow> bool" where
  "parts k zs \<longleftrightarrow> (\<forall>c\<in>set zs. (\<forall>e\<in>set (lside c). fst e < k) \<and> (\<forall>e\<in>set (rside c). k < fst e))"

lemma plug_append: "plug t (xs @ ys) = plug (plug t xs) ys"
  by (simp add: plug_def)

lemma descend_absent:
  assumes "at T t zs" "bst t" "k \<notin> set (keys t)"
  shows "\<exists>path. insert_descend T k (rptr (nil T) t) (cptr (nil T) zs) = Some (Some (cptr (nil T) (path @ zs))) \<and>
    plug Lf path = t \<and> parts k path"
  using assms
proof (induction t arbitrary: zs)
  case Lf
  show ?case by (rule exI [of _ "[]"], subst insert_descend.simps) (simp add: parts_def)
next
  case (Nd l a c k' v r)
  have atl: "at T l (CL a c k' v r # zs)" and atr: "at T r (CR l a c k' v # zs)"
    using Nd.prems(1) by (simp_all add: at_up)
  have a: "a \<noteq> nil T" using Nd.prems(1) by (auto simp: at_def)
  have ne: "k \<noteq> k'" using Nd.prems(3) by auto
  show ?case
  proof (cases "k < k'")
    case True
    from Nd.IH(1) [OF atl] Nd.prems obtain path where path:
      "insert_descend T k (rptr (nil T) l) a = Some (Some (cptr (nil T) (path @ CL a c k' v r # zs)))"
      "plug Lf path = l" "parts k path" by auto
    then show ?thesis using a True Nd.prems at_node [OF Nd.prems(1)]
      by (intro exI [of _ "path @ [CL a c k' v r]"], subst insert_descend.simps)
        (auto simp: get_def plug_append parts_def)
  next
    case False
    from Nd.IH(2) [OF atr] Nd.prems obtain path where path:
      "insert_descend T k (rptr (nil T) r) a = Some (Some (cptr (nil T) (path @ CR l a c k' v # zs)))"
      "plug Lf path = r" "parts k path" by auto
    then show ?thesis using a False ne Nd.prems at_node [OF Nd.prems(1)]
      by (intro exI [of _ "path @ [CR l a c k' v]"], subst insert_descend.simps)
        (auto simp: get_def plug_append parts_def)
  qed
qed

section \<open>Insertion\<close>

lemma plug_ok:
  assumes "invh (plug t zs)" "invc (plug t zs)" "cl (plug t zs) = BLACK"
  shows "invh t \<and> invc t \<and> ctx_ok (bh t) zs \<and> \<not> red_under_red t zs \<and> (zs = [] \<longrightarrow> cl t = BLACK)"
  using assms
proof (induction zs arbitrary: t)
  case (Cons c zs)
  have "invh (up t c)" "invc (up t c)" "ctx_ok (bh (up t c)) zs" "\<not> red_under_red (up t c) zs"
    "zs = [] \<longrightarrow> cl (up t c) = BLACK"
    using Cons.IH [of "up t c"] Cons.prems by auto
  then show ?case by (cases c; cases zs) (auto simp: red_under_red_def)
qed (simp add: red_under_red_def)

lemma paint_root:
  assumes "at T t []" "invh t" "invc t" "t \<noteq> Lf"
  shows "\<exists>T' t'. rb_set_color T (root T) BLACK = Some T' \<and> becomes T t T' t' \<and> invh t' \<and> invc t' \<and> cl t' = BLACK"
proof -
  obtain l a c k v r where t: "t = Nd l a c k v r" using assms(4) by (cases t) auto
  have "root T = a" using assms(1) by (simp add: t at_def)
  then show ?thesis
    using becomes_recolor [of T l a c k v r "[]" _ BLACK] assms at_node [of T l a c k v r "[]"]
    by (auto simp: t rb_set_color_def get_put intro!: exI [of _ "Nd l a BLACK k v r"])
qed

lemma insert_fixup_correct:
  assumes "at T (Nd Lf a RED k v Lf) zs" "zs \<noteq> []" "ctx_ok 0 zs"
  shows "\<exists>T' t'. insert_fixup T a = Some T' \<and> becomes T (plug (Nd Lf a RED k v Lf) zs) T' t' \<and>
    invh t' \<and> invc t' \<and> (cl (plug (Nd Lf a RED k v Lf) zs) = BLACK \<longrightarrow> cl t' = BLACK)"
proof -
  let ?t = "Nd Lf a RED k v Lf"
  have par: "get T a parent = Some (cptr (nil T) zs)"
    using at_node [OF assms(1)] by (simp add: get_def)
  show ?thesis
  proof (cases "crumb_cl (hd zs)")
    case BLACK
    then have "get T (cptr (nil T) zs) color = Some BLACK"
      using color_of_parent [OF assms(1)] by (auto simp: rb_node_is_red_def get_def)
    then have "insert_fixup T a = Some T" by (simp add: insert_fixup_def par)
    with becomes_refl [OF assms(1)] ctx_ok_plug [of ?t zs] assms BLACK show ?thesis
      by (auto simp: red_under_red_def)
  next
    case RED
    then have c: "get T (cptr (nil T) zs) color = Some RED"
      using color_of_parent [OF assms(1)] assms(2) by (auto simp: rb_node_is_red_def get_def)
    obtain T1 t1 where T1: "insert_fixup_loop T a = Some T1" "becomes T (plug ?t zs) T1 t1" "invh t1" "invc t1"
      using insert_fixup_loop_correct [OF assms(1)] assms(3) by auto
    have "entries t1 \<noteq> []" using T1(2) by (simp add: becomes_def entries_plug)
    then have "t1 \<noteq> Lf" by auto
    with paint_root [of T1 t1] T1 obtain T2 t2 where
      "rb_set_color T1 (root T1) BLACK = Some T2" "becomes T1 t1 T2 t2" "invh t2" "invc t2" "cl t2 = BLACK"
      by (auto simp: becomes_def)
    with T1 becomes_trans [OF T1(2)] show ?thesis by (auto simp: insert_fixup_def par c)
  qed
qed

lemma bst_entries_insort:
  assumes "plug Lf path = t" "parts k path" "bst t"
  shows "entries (plug (Nd Lf a c k v Lf) path) = insort_key fst (k, a, v) (entries t)"
proof -
  let ?L = "concat (map lside (rev path))" and ?R = "concat (map rside path)"
  have e: "entries t = ?L @ ?R" using assms(1) entries_plug [of Lf path] by simp
  have LR: "\<forall>e\<in>set ?L. fst e < k" "\<forall>e\<in>set ?R. k < fst e" using assms(2) by (auto simp: parts_def)
  have "insort_key fst (k, a, v) (L @ R) = L @ (k, a, v) # R"
    if "\<forall>e\<in>set L. fst e < k" "\<forall>e\<in>set R. k < fst e" for L R
    using that by (induction L) (cases R; auto)+
  with LR show ?thesis by (simp add: e entries_plug)
qed

lemma bst_insort:
  assumes "bst t" "k \<notin> set (keys t)"
  shows "sorted_wrt (<) (map fst (insort_key fst (k, a, v) (entries t)))"
proof -
  have "sorted (keys t)" "distinct (keys t)"
    using assms(1) by (simp_all add: bst_def strict_sorted_iff)
  with assms(2) show ?thesis
    by (simp add: strict_sorted_iff sorted_insort_key distinct_insort_key)
qed

lemma link_below:
  assumes "at T Lf (c # zs)" "mem T p = Some n" "p \<noteq> NULL" "p \<noteq> nil T" "p \<notin> set (ctx_addrs (c # zs))"
    "crumb_addrs c = q # xs"
    "left n = nil T" "right n = nil T" "parent n = q" "color n = RED"
  shows "\<exists>m. mem T q = Some m \<and> q \<noteq> p \<and> (case c of
     CL a c k v r \<Rightarrow> at (T\<lparr>mem := (mem T)(q \<mapsto> m\<lparr>left := p\<rparr>)\<rparr>) (Nd Lf p RED (key n) (val n) Lf) (CL a c k v r # zs)
   | CR l a c k v \<Rightarrow> at (T\<lparr>mem := (mem T)(q \<mapsto> m\<lparr>right := p\<rparr>)\<rparr>) (Nd Lf p RED (key n) (val n) Lf) (CR l a c k v # zs))"
  using assms by (cases c; cases n) (auto simp: at_def)

lemma at_other:
  assumes "at T t zs" "p \<noteq> NULL" "p \<noteq> nil T" "p \<notin> set (addrs t)" "p \<notin> set (ctx_addrs zs)"
  shows "at (T\<lparr>mem := (mem T)(p := x)\<rparr>) t zs"
  using assms by (auto simp: at_def)

lemma rb_node_init_eq:
  "mem T p = Some n \<Longrightarrow> p \<noteq> nil T \<Longrightarrow> rb_node_init T p par =
    Some (T\<lparr>mem := (mem T)(p \<mapsto> n\<lparr>parent := par, left := nil T, right := nil T, color := RED\<rparr>)\<rparr>)"
  by (simp add: rb_node_init_def rb_set_color_def put_def)

definition fresh_node :: "rbtree \<Rightarrow> rbt \<Rightarrow> ptr \<Rightarrow> rb_node \<Rightarrow> bool" where
  "fresh_node T t p n \<longleftrightarrow> mem T p = Some n \<and> p \<notin> set (addrs t) \<and> p \<noteq> nil T \<and> p \<noteq> NULL"

lemma cl_plug: "zs \<noteq> [] \<Longrightarrow> cl (plug t zs) = crumb_cl (last zs)"
proof (induction zs arbitrary: t)
  case (Cons c zs)
  then show ?case by (cases c; cases zs) auto
qed simp

lemma insert_linked:
  assumes ok: "rb_ok T t" and n: "fresh_node T t p n" and k: "key n \<notin> set (keys t)"
  shows "\<exists>T' t'. rbtree_insert T p = Some T' \<and> rb_ok T' t' \<and> nil T' = nil T \<and>
    entries t' = insort_key fst (key n, p, val n) (entries t) \<and>
    (\<forall>x. x \<notin> set (p # addrs t) \<longrightarrow> mem T' x = mem T x)"
proof -
  let ?z = "nil T"
  have at0: "at T t []" and b: "bst t" using ok by (auto simp: rb_ok_def)
  have np: "mem T p = Some n" "p \<notin> set (addrs t)" "p \<noteq> ?z" "p \<noteq> NULL"
    using n by (auto simp: fresh_node_def)
  have rt: "root T = rptr ?z t" using at0 by (simp add: at_def)
  from descend_absent [OF at0 b k] obtain zs where zs:
    "insert_descend T (key n) (root T) ?z = Some (Some (cptr ?z zs))" "plug Lf zs = t" "parts (key n) zs"
    by (auto simp: rt)
  have atz: "at T Lf zs" using at0 zs(2) at_plug by metis
  have ctx: "ctx_ok 0 zs" "red_under_red Lf zs \<or> True"
    using plug_ok [of Lf zs] ok zs(2) by (auto simp: rb_ok_def)
  have pz: "p \<notin> set (ctx_addrs zs)" using np(2) zs(2) addrs_plug [of Lf zs] by auto
  let ?par = "cptr ?z zs"
  let ?n = "n\<lparr>parent := ?par, left := ?z, right := ?z, color := RED\<rparr>"
  let ?T1 = "T\<lparr>mem := (mem T)(p \<mapsto> ?n)\<rparr>"
  have init: "rb_node_init T p ?par = Some ?T1" by (rule rb_node_init_eq [OF np(1,3)])
  have k0: "get T p key = Some (key n)" by (simp add: get_def np)
  have sorted': "bst t'" if "entries t' = insort_key fst (key n, p, val n) (entries t)" for t'
    using bst_insort [OF b k, of p "val n"] that by (simp add: bst_def)
  show ?thesis
  proof (cases zs)
    case Nil
    then have t: "t = Lf" using zs(2) by simp
    let ?T2 = "?T1\<lparr>root := p, mem := (mem ?T1)(p \<mapsto> ?n\<lparr>color := BLACK\<rparr>)\<rparr>"
    obtain zn where zn: "mem T ?z = Some zn" "color zn = BLACK" using at_nil [OF at0] by auto
    have "rbtree_insert T p = Some ?T2"
      using zs init zn np unfolding rbtree_insert_def k0
      by (simp add: Nil rb_set_color_def put_def insert_fixup_def get_def)
    moreover have "at ?T2 (Nd Lf p BLACK (key n) (val n) Lf) []"
      using at0 np by (cases n) (auto simp: at_def t Nil)
    ultimately show ?thesis using np
      by (intro exI [of _ ?T2] exI [of _ "Nd Lf p BLACK (key n) (val n) Lf"]) (auto simp: rb_ok_def t)
  next
    case (Cons c ds)
    have at1: "at ?T1 Lf (c # ds)" using at_other [OF atz np(4,3)] pz by (simp add: Cons)
    have crumb: "crumb_addrs c = ?par # tl (crumb_addrs c)" by (cases c) (auto simp: Cons)
    from link_below [OF at1 _ np(4) _ _ crumb, of ?n] np pz obtain m where m:
      "mem T ?par = Some m" "?par \<noteq> p"
      "case c of
         CL a c k v r \<Rightarrow> at (?T1\<lparr>mem := (mem ?T1)(?par \<mapsto> m\<lparr>left := p\<rparr>)\<rparr>) (Nd Lf p RED (key n) (val n) Lf) (CL a c k v r # ds)
       | CR l a c k v \<Rightarrow> at (?T1\<lparr>mem := (mem ?T1)(?par \<mapsto> m\<lparr>right := p\<rparr>)\<rparr>) (Nd Lf p RED (key n) (val n) Lf) (CR l a c k v # ds)"
      by (cases c) (auto simp: Cons split: if_splits)
    have parz: "?par \<noteq> ?z" using atz by (cases c) (auto simp: at_def Cons)
    define T2 where "T2 = (case c of
         CL a c k v r \<Rightarrow> ?T1\<lparr>mem := (mem ?T1)(?par \<mapsto> m\<lparr>left := p\<rparr>)\<rparr>
       | CR l a c k v \<Rightarrow> ?T1\<lparr>mem := (mem ?T1)(?par \<mapsto> m\<lparr>right := p\<rparr>)\<rparr>)"
    have at2: "at T2 (Nd Lf p RED (key n) (val n) Lf) zs"
      using m(3) by (cases c) (auto simp: T2_def Cons)
    have side: "(key n < key m) = (case c of CL a c k v r \<Rightarrow> True | CR l a c k v \<Rightarrow> False)"
      using zs(3) atz m(1) by (cases c) (auto simp: parts_def Cons at_def)
    have ins: "rbtree_insert T p = insert_fixup T2 p"
      using zs(1) init parz m(1,2) side np(1) unfolding rbtree_insert_def k0
      by (cases c) (auto simp: put_def get_def T2_def)
    let ?t = "plug (Nd Lf p RED (key n) (val n) Lf) zs"
    have e: "entries ?t = insort_key fst (key n, p, val n) (entries t)"
      by (rule bst_entries_insort [OF zs(2,3) b])
    have "cl ?t = cl t"
      unfolding zs(2) [symmetric] using Cons by (simp del: plug_simps add: cl_plug)
    then have black: "cl ?t = BLACK" using ok by (simp add: rb_ok_def)
    from insert_fixup_correct [OF at2] Cons ctx(1) black obtain T' t' where T':
      "insert_fixup T2 p = Some T'" "becomes T2 ?t T' t'" "invh t'" "invc t'" "cl t' = BLACK" by auto
    have fr: "mem T2 x = mem T x" if "x \<notin> set (p # addrs t)" for x
      using that zs(2) addrs_plug [of Lf zs] by (cases c) (auto simp: T2_def Cons)
    have "set (addrs ?t) = set (p # addrs t)"
      using zs(2) addrs_plug [of Lf zs] addrs_plug [of "Nd Lf p RED (key n) (val n) Lf" zs] by auto
    moreover have "nil T2 = nil T" by (cases c) (simp_all add: T2_def)
    ultimately show ?thesis
      using T' ins e fr sorted' by (intro exI [of _ T'] exI [of _ t']) (auto simp: becomes_def rb_ok_def)
  qed
qed

end
