(* ===== verification/Interfaces.thy ===== *)
theory Interfaces
  imports Prelude
begin

text \<open>
  The contracts between the containers and their clients, as locales: the operations a client
  calls, the laws a provider promises, and what follows from them alone. Each is interpreted on
  the model of the code in the theory of its provider.
\<close>

section \<open>An ordered index\<close>

text \<open>
  What a client of the tree relies on: \<open>ok s es\<close> says that the state \<open>s\<close> holds the entries \<open>es\<close>
  (key and node), in key order; \<open>node s p k\<close> that \<open>p\<close> is a node with key \<open>k\<close>.
\<close>

fun insert_all :: "('s \<Rightarrow> ptr \<Rightarrow> 's option) \<Rightarrow> ptr list \<Rightarrow> 's \<Rightarrow> 's option" where
  "insert_all ins [] s = Some s"
| "insert_all ins (p # ps) s = ins s p \<bind> insert_all ins ps"

locale ordered_index =
  fixes ok :: "'s \<Rightarrow> (int \<times> ptr) list \<Rightarrow> bool"
    and node :: "'s \<Rightarrow> ptr \<Rightarrow> int \<Rightarrow> bool"
    and ins :: "'s \<Rightarrow> ptr \<Rightarrow> 's option"
    and look :: "'s \<Rightarrow> int \<Rightarrow> ptr option"
    and walk :: "'s \<Rightarrow> int list option"
  assumes ins_new: "ok s es \<Longrightarrow> node s p k \<Longrightarrow> p \<notin> snd ` set es \<Longrightarrow> k \<notin> fst ` set es \<Longrightarrow>
      \<exists>s'. ins s p = Some s' \<and> ok s' (insort_key fst (k, p) es) \<and>
        (\<forall>q j. q \<noteq> p \<longrightarrow> q \<notin> snd ` set es \<longrightarrow> node s q j \<longrightarrow> node s' q j)"
    and ins_old: "ok s es \<Longrightarrow> node s p k \<Longrightarrow> k \<in> fst ` set es \<Longrightarrow> ins s p = Some s"
    and look: "ok s es \<Longrightarrow> look s k = Some (case map_of es k of None \<Rightarrow> NULL | Some a \<Rightarrow> a)"
    and walk: "ok s es \<Longrightarrow> walk s = Some (map fst es)"
    and strict: "ok s es \<Longrightarrow> sorted_wrt (<) (map fst es)"
begin

lemma walk_sorted_set:
  assumes "ok s es"
  shows "walk s = Some (sorted_list_of_set (fst ` set es))"
proof -
  have "sorted (map fst es)" "distinct (map fst es)"
    using strict [OF assms] by (simp_all add: strict_sorted_iff)
  then have "sorted_list_of_set (set (map fst es)) = map fst es"
    by (simp only: sorted_list_of_set_sort_remdups distinct_remdups_id sorted_sort_id)
  with walk [OF assms] show ?thesis by simp
qed

lemma insert_all_ok:
  assumes "ok s es" "distinct ps" "set ps \<inter> snd ` set es = {}" "\<forall>p\<in>set ps. node s p (kf p)"
  shows "\<exists>s' es'. insert_all ins ps s = Some s' \<and> ok s' es' \<and> fst ` set es' = fst ` set es \<union> kf ` set ps"
  using assms
proof (induction ps arbitrary: s es)
  case (Cons p ps)
  show ?case
  proof (cases "kf p \<in> fst ` set es")
    case True
    then have "ins s p = Some s" using ins_old [of s es p "kf p"] Cons.prems by simp
    with Cons.IH [of s es] Cons.prems True show ?thesis by (auto simp: insert_absorb)
  next
    case False
    with ins_new [of s es p "kf p"] Cons.prems obtain s1 where s1: "ins s p = Some s1"
      "ok s1 (insort_key fst (kf p, p) es)"
      "\<forall>q j. q \<noteq> p \<longrightarrow> q \<notin> snd ` set es \<longrightarrow> node s q j \<longrightarrow> node s1 q j"
      by auto
    have "\<forall>q\<in>set ps. node s1 q (kf q)"
    proof
      fix q assume "q \<in> set ps"
      with Cons.prems(2-4) have "q \<noteq> p" "q \<notin> snd ` set es" "node s q (kf q)" by auto
      with s1(3) show "node s1 q (kf q)" by blast
    qed
    with Cons.IH [OF s1(2)] Cons.prems s1(1) show ?thesis by (auto simp: set_insort_key)
  qed
qed auto

theorem insert_all_walk:
  assumes "ok s es" "distinct ps" "set ps \<inter> snd ` set es = {}" "\<forall>p\<in>set ps. node s p (kf p)"
  shows "(insert_all ins ps s \<bind> walk) = Some (sorted_list_of_set (fst ` set es \<union> kf ` set ps))"
  using insert_all_ok [OF assms] walk_sorted_set by fastforce

theorem look_after_insert:
  assumes "ok s es" "node s p k" "p \<notin> snd ` set es" "k \<notin> fst ` set es"
  shows "(ins s p \<bind> (\<lambda>s. look s j)) = (if j = k then Some p else look s j)"
proof -
  from ins_new [OF assms] obtain s' where s': "ins s p = Some s'" "ok s' (insort_key fst (k, p) es)" by auto
  have "map_of (insort_key fst (k, p) es) = (map_of es)(k \<mapsto> p)"
    using assms(4) by (induction es) (auto simp: fun_eq_iff)
  with s' look [OF assms(1)] look [OF s'(2)] show ?thesis by simp
qed

end

section \<open>Bags and sorted bags\<close>

text \<open>
  What the timer containers promise: \<open>add\<close> of a request that is \<open>ready\<close>, while there is \<open>room\<close> for
  one more, succeeds and adds exactly its key. \<open>room s n\<close> says that \<open>n\<close> more requests fit; \<open>apart\<close> tells
  the requests that do not disturb each other (their nodes are distinct).
\<close>

fun add_all :: "('a \<Rightarrow> 's \<Rightarrow> 's option) \<Rightarrow> 'a list \<Rightarrow> 's \<Rightarrow> 's option" where
  "add_all add [] s = Some s"
| "add_all add (a # as) s = add a s \<bind> add_all add as"

locale bag =
  fixes ok :: "'s \<Rightarrow> bool"
    and elems :: "'s \<Rightarrow> 'k multiset"
    and add :: "'a \<Rightarrow> 's \<Rightarrow> 's option"
    and key :: "'a \<Rightarrow> 'k"
    and ready :: "'s \<Rightarrow> 'a \<Rightarrow> bool"
    and apart :: "'a \<Rightarrow> 'a \<Rightarrow> bool"
    and room :: "'s \<Rightarrow> nat \<Rightarrow> bool"
  assumes add_ok: "ok s \<Longrightarrow> ready s a \<Longrightarrow> room s (Suc n) \<Longrightarrow> \<exists>s'. add a s = Some s' \<and> ok s' \<and>
      elems s' = add_mset (key a) (elems s) \<and> room s' n \<and>
      (\<forall>b. apart a b \<longrightarrow> ready s b \<longrightarrow> ready s' b)"
begin

lemma add_all_ok:
  assumes "ok s" "\<forall>a\<in>set as. ready s a" "sorted_wrt apart as" "room s (length as)"
  shows "\<exists>s'. add_all add as s = Some s' \<and> ok s' \<and> elems s' = elems s + mset (map key as)"
  using assms
proof (induction as arbitrary: s)
  case (Cons a as)
  then obtain s1 where s1: "add a s = Some s1" "ok s1" "elems s1 = add_mset (key a) (elems s)"
    "room s1 (length as)" "\<forall>b. apart a b \<longrightarrow> ready s b \<longrightarrow> ready s1 b"
    using add_ok [of s a "length as"] by auto
  have "\<forall>b\<in>set as. ready s1 b" using s1(5) Cons.prems(2,3) by auto
  from Cons.IH [OF s1(2) this] Cons.prems(3) s1(1,3,4) show ?case by auto
qed simp

end

text \<open>A bag that gives its least key, and one that lists its keys in order; the second is one of the first.\<close>

locale min_bag = bag ok elems add key ready apart room
  for ok :: "'s \<Rightarrow> bool" and elems :: "'s \<Rightarrow> 'k::linorder multiset" and add :: "'a \<Rightarrow> 's \<Rightarrow> 's option"
    and key :: "'a \<Rightarrow> 'k" and ready :: "'s \<Rightarrow> 'a \<Rightarrow> bool" and apart :: "'a \<Rightarrow> 'a \<Rightarrow> bool"
    and room :: "'s \<Rightarrow> nat \<Rightarrow> bool" +
  fixes top :: "'s \<Rightarrow> 'k option"
  assumes top_ok: "ok s \<Longrightarrow> elems s \<noteq> {#} \<Longrightarrow> top s = Some (Min (set_mset (elems s)))"
begin

theorem add_all_top:
  assumes "ok s" "\<forall>a\<in>set as. ready s a" "sorted_wrt apart as" "room s (length as)" "as \<noteq> []"
  shows "(add_all add as s \<bind> top) = Some (Min (set_mset (elems s) \<union> key ` set as))"
  using add_all_ok [OF assms(1-4)] assms(5) top_ok by auto

end

locale sorted_bag = bag ok elems add key ready apart room
  for ok :: "'s \<Rightarrow> bool" and elems :: "'s \<Rightarrow> 'k::linorder multiset" and add :: "'a \<Rightarrow> 's \<Rightarrow> 's option"
    and key :: "'a \<Rightarrow> 'k" and ready :: "'s \<Rightarrow> 'a \<Rightarrow> bool" and apart :: "'a \<Rightarrow> 'a \<Rightarrow> bool"
    and room :: "'s \<Rightarrow> nat \<Rightarrow> bool" +
  fixes listing :: "'s \<Rightarrow> 'k list option"
  assumes listing_ok: "ok s \<Longrightarrow> \<exists>xs. listing s = Some xs \<and> sorted xs \<and> mset xs = elems s"
begin

lemma listing_sorted: "ok s \<Longrightarrow> listing s = Some (sorted_list_of_multiset (elems s))"
  using listing_ok [of s] by (metis sorted_list_of_multiset_mset sorted_sort_id)

theorem add_all_sorts:
  assumes "ok s" "elems s = {#}" "\<forall>a\<in>set as. ready s a" "sorted_wrt apart as" "room s (length as)"
  shows "(add_all add as s \<bind> listing) = Some (sort (map key as))"
  using add_all_ok [OF assms(1,3,4,5)] assms(2) listing_sorted by (auto simp flip: mset_map)

end

sublocale sorted_bag \<subseteq> first: min_bag ok elems add key ready apart room "\<lambda>s. map_option hd (listing s)"
proof unfold_locales
  fix s assume s: "ok s" "elems s \<noteq> {#}"
  then obtain xs where xs: "listing s = Some xs" "sorted xs" "mset xs = elems s"
    using listing_ok by blast
  then obtain y ys where "xs = y # ys" using s(2) by (cases xs) auto
  with xs have "Min (set_mset (elems s)) = y"
    by (intro Min_eqI) (auto simp flip: xs(3))
  with xs \<open>xs = y # ys\<close> show "map_option hd (listing s) = Some (Min (set_mset (elems s)))" by simp
qed

section \<open>A channel of messages\<close>

text \<open>
  What two ends of a byte buffer rely on when each message is taken before the next one is put in:
  it arrives unchanged. \<open>room s n\<close> says that messages of \<open>n\<close> bytes in all still fit.
\<close>

fun exchange ::
  "('s \<Rightarrow> 'm \<Rightarrow> 's option) \<Rightarrow> ('s \<Rightarrow> nat \<Rightarrow> ('m \<times> 's) option) \<Rightarrow> ('m \<Rightarrow> nat) \<Rightarrow> 'm list \<Rightarrow> 's \<Rightarrow> ('m list \<times> 's) option"
where
  "exchange send recv sz [] s = Some ([], s)"
| "exchange send recv sz (m # ms) s = do {
     s \<leftarrow> send s m;
     (x, s) \<leftarrow> recv s (sz m);
     (xs, s) \<leftarrow> exchange send recv sz ms s;
     Some (x # xs, s)
   }"

locale channel =
  fixes idle :: "'s \<Rightarrow> bool"
    and send :: "'s \<Rightarrow> 'm \<Rightarrow> 's option"
    and recv :: "'s \<Rightarrow> nat \<Rightarrow> ('m \<times> 's) option"
    and sz :: "'m \<Rightarrow> nat"
    and room :: "'s \<Rightarrow> nat \<Rightarrow> bool"
  assumes trip: "idle s \<Longrightarrow> room s (sz m + n) \<Longrightarrow>
      \<exists>s1 s2. send s m = Some s1 \<and> recv s1 (sz m) = Some (m, s2) \<and> idle s2 \<and> room s2 n"
begin

theorem exchange_ok:
  assumes "idle s" "room s (sum_list (map sz ms))"
  shows "\<exists>s'. exchange send recv sz ms s = Some (ms, s') \<and> idle s'"
  using assms
proof (induction ms arbitrary: s)
  case (Cons m ms)
  then obtain s1 s2 where s: "send s m = Some s1" "recv s1 (sz m) = Some (m, s2)" "idle s2"
    "room s2 (sum_list (map sz ms))" using trip [of s m "sum_list (map sz ms)"] by auto
  with Cons.IH [OF s(3,4)] show ?case by auto
qed simp

end

section \<open>A queue that is filled, then drained\<close>

text \<open>
  The weakest contract of a first-in-first-out queue: a batch of elements that is put in before the
  first is taken out comes out in order. \<open>apart\<close> is as for bags.
\<close>

fun take_all :: "('s \<Rightarrow> ('v \<times> 's) option) \<Rightarrow> nat \<Rightarrow> 's \<Rightarrow> ('v list \<times> 's) option" where
  "take_all deq 0 s = Some ([], s)"
| "take_all deq (Suc n) s = do {
     (x, s) \<leftarrow> deq s;
     (xs, s) \<leftarrow> take_all deq n s;
     Some (x # xs, s)
   }"

locale batch_queue =
  fixes filling :: "'s \<Rightarrow> 'a list \<Rightarrow> bool"
    and draining :: "'s \<Rightarrow> 'a list \<Rightarrow> bool"
    and enq :: "'a \<Rightarrow> 's \<Rightarrow> 's option"
    and deq :: "'s \<Rightarrow> ('v \<times> 's) option"
    and emp :: "'s \<Rightarrow> bool option"
    and val :: "'a \<Rightarrow> 'v"
    and ready :: "'s \<Rightarrow> 'a \<Rightarrow> bool"
    and apart :: "'a \<Rightarrow> 'a \<Rightarrow> bool"
  assumes enq_ok: "filling s xs \<Longrightarrow> ready s a \<Longrightarrow>
      \<exists>s'. enq a s = Some s' \<and> filling s' (xs @ [a]) \<and> (\<forall>b. apart a b \<longrightarrow> ready s b \<longrightarrow> ready s' b)"
    and turn: "filling s xs \<Longrightarrow> 2 \<le> length xs \<Longrightarrow> draining s xs"
    and deq_ok: "draining s (a # xs) \<Longrightarrow> \<exists>s'. deq s = Some (val a, s') \<and> draining s' xs"
    and emp_ok: "draining s xs \<Longrightarrow> emp s = Some (xs = [])"
begin

lemma fill: "filling s xs \<Longrightarrow> \<forall>a\<in>set as. ready s a \<Longrightarrow> sorted_wrt apart as \<Longrightarrow>
  \<exists>s'. add_all enq as s = Some s' \<and> filling s' (xs @ as)"
proof (induction as arbitrary: s xs)
  case (Cons a as)
  then obtain s1 where s1: "enq a s = Some s1" "filling s1 (xs @ [a])" "\<forall>b. apart a b \<longrightarrow> ready s b \<longrightarrow> ready s1 b"
    using enq_ok [of s xs a] by auto
  have "\<forall>b\<in>set as. ready s1 b" using s1(3) Cons.prems(2,3) by auto
  from Cons.IH [OF s1(2) this] Cons.prems(3) s1(1) show ?case by auto
qed auto

lemma drain: "draining s xs \<Longrightarrow> \<exists>s'. take_all deq (length xs) s = Some (map val xs, s') \<and> draining s' []"
proof (induction xs arbitrary: s)
  case (Cons a xs)
  then obtain s1 where "deq s = Some (val a, s1)" "draining s1 xs" using deq_ok by blast
  with Cons.IH [of s1] show ?case by auto
qed auto

theorem fifo:
  assumes "filling s []" "\<forall>a\<in>set as. ready s a" "sorted_wrt apart as" "2 \<le> length as"
  shows "\<exists>s'. (add_all enq as s \<bind> take_all deq (length as)) = Some (map val as, s') \<and> emp s' = Some True"
  using fill [OF assms(1-3)] turn [OF _ assms(4)] drain [of _ as] emp_ok [of _ "[]"] by fastforce

end

section \<open>A bounded queue\<close>

text \<open>
  A queue that refuses an element when it is full and says when it is empty, and its specification as a
  list of at most \<open>cap\<close> elements: any sequence of operations gets the answers the list gives.
\<close>

datatype 'a queue_op = Enq 'a | Deq

datatype 'a queue_answer = Accepted bool | Got "'a option"

fun spec_op :: "nat \<Rightarrow> 'a queue_op \<Rightarrow> 'a list \<Rightarrow> 'a queue_answer \<times> 'a list" where
  "spec_op cap (Enq x) xs = (if length xs < cap then (Accepted True, xs @ [x]) else (Accepted False, xs))"
| "spec_op cap Deq [] = (Got None, [])"
| "spec_op cap Deq (x # xs) = (Got (Some x), xs)"

fun spec_ops :: "nat \<Rightarrow> 'a queue_op list \<Rightarrow> 'a list \<Rightarrow> 'a queue_answer list \<times> 'a list" where
  "spec_ops cap [] xs = ([], xs)"
| "spec_ops cap (a # as) xs =
     (case spec_op cap a xs of (r, xs) \<Rightarrow> (case spec_ops cap as xs of (rs, xs) \<Rightarrow> (r # rs, xs)))"

fun do_ops ::
  "('a \<Rightarrow> 's \<Rightarrow> (bool \<times> 's) option) \<Rightarrow> ('s \<Rightarrow> ('a option \<times> 's) option) \<Rightarrow> 'a queue_op list \<Rightarrow> 's \<Rightarrow>
   ('a queue_answer list \<times> 's) option"
where
  "do_ops enq deq [] s = Some ([], s)"
| "do_ops enq deq (Enq x # as) s = do {
     (b, s) \<leftarrow> enq x s;
     (rs, s) \<leftarrow> do_ops enq deq as s;
     Some (Accepted b # rs, s)
   }"
| "do_ops enq deq (Deq # as) s = do {
     (x, s) \<leftarrow> deq s;
     (rs, s) \<leftarrow> do_ops enq deq as s;
     Some (Got x # rs, s)
   }"

locale bounded_queue =
  fixes holds :: "'s \<Rightarrow> 'a list \<Rightarrow> bool"
    and enq :: "'a \<Rightarrow> 's \<Rightarrow> (bool \<times> 's) option"
    and deq :: "'s \<Rightarrow> ('a option \<times> 's) option"
    and cap :: nat
  assumes enq_room: "holds s xs \<Longrightarrow> length xs < cap \<Longrightarrow> \<exists>s'. enq x s = Some (True, s') \<and> holds s' (xs @ [x])"
    and enq_full: "holds s xs \<Longrightarrow> length xs = cap \<Longrightarrow> enq x s = Some (False, s)"
    and deq_some: "holds s (x # xs) \<Longrightarrow> \<exists>s'. deq s = Some (Some x, s') \<and> holds s' xs"
    and deq_none: "holds s [] \<Longrightarrow> deq s = Some (None, s)"
    and bounded: "holds s xs \<Longrightarrow> length xs \<le> cap"
begin

theorem do_ops_spec:
  "holds s xs \<Longrightarrow> \<exists>s'. do_ops enq deq as s = Some (fst (spec_ops cap as xs), s') \<and> holds s' (snd (spec_ops cap as xs))"
proof (induction as arbitrary: s xs)
  case (Cons a as)
  note prems = Cons.prems and IH = Cons.IH
  show ?case
  proof (cases a)
    case (Enq x)
    show ?thesis
    proof (cases "length xs < cap")
      case True
      then obtain s1 where s1: "enq x s = Some (True, s1)" "holds s1 (xs @ [x])" using enq_room [OF Cons.prems] by blast
      from Cons.IH [OF s1(2)] show ?thesis using s1(1) Enq True by (auto split: prod.splits)
    next
      case False
      then have f: "enq x s = Some (False, s)" using bounded [OF Cons.prems] enq_full [OF Cons.prems] by simp
      from Cons.IH [OF Cons.prems] show ?thesis using f Enq False by (auto split: prod.splits)
    qed
  next
    case Deq
    show ?thesis
    proof (cases xs)
      case Nil
      then have n: "deq s = Some (None, s)" using deq_none [of s] Cons.prems by simp
      from Cons.IH [OF Cons.prems] show ?thesis using n Deq Nil by (auto split: prod.splits)
    next
      case (Cons y ys)
      then obtain s1 where s1: "deq s = Some (Some y, s1)" "holds s1 ys" using deq_some [of s y ys] prems by blast
      from IH [OF s1(2)] show ?thesis using s1(1) Deq Cons by (auto split: prod.splits)
    qed
  qed
qed simp

end

end
