(* ===== verification/Rbtree_Correct.thy ===== *)
theory Rbtree_Correct
  imports Rbtree_Insert Interfaces
begin

text \<open>
  The red-black tree as an ordered index: printing, lookup and insertion satisfy the contract
  \<open>ordered_index\<close>, and the properties of the component.
\<close>

section \<open>Printing\<close>

lemma print_at:
  assumes "at T t zs"
  shows "rbtree_print T (rptr (nil T) t) = Some (keys t)"
  using assms
proof (induction t arbitrary: zs)
  case Lf
  show ?case by (subst rbtree_print.simps) simp
next
  case (Nd l a c k v r)
  have atl: "at T l (CL a c k v r # zs)" and atr: "at T r (CR l a c k v # zs)"
    using Nd.prems(1) by (simp_all add: at_up)
  have "a \<noteq> nil T" "a \<noteq> NULL" using Nd.prems(1) by (auto simp: at_def)
  then show ?case
    using at_node [OF Nd.prems(1)] Nd.IH(1) [OF atl] Nd.IH(2) [OF atr]
    by (subst rbtree_print.simps) (simp add: get_def)
qed

section \<open>The tree is an ordered index\<close>

definition rb_holds :: "rbtree \<Rightarrow> (int \<times> ptr) list \<Rightarrow> bool" where
  "rb_holds T es \<longleftrightarrow> (\<exists>t. rb_ok T t \<and> es = map (\<lambda>e. (fst e, fst (snd e))) (entries t))"

definition rb_unlinked :: "rbtree \<Rightarrow> ptr \<Rightarrow> int \<Rightarrow> bool" where
  "rb_unlinked T p k \<longleftrightarrow> p \<noteq> NULL \<and> p \<noteq> nil T \<and> (\<exists>n. mem T p = Some n \<and> key n = k)"

lemma rb_ok_root: "rb_ok T t \<Longrightarrow> root T = rptr (nil T) t"
  by (simp add: rb_ok_def at_def)

lemma insort_project:
  "map (\<lambda>e. (fst e, fst (snd e))) (insort_key fst (k, a, v) es) =
   insort_key fst (k, a) (map (\<lambda>e. (fst e, fst (snd e))) es)"
  by (induction es) auto

lemma rb_insert_new:
  assumes "rb_holds T es" "rb_unlinked T p k" "p \<notin> snd ` set es" "k \<notin> fst ` set es"
  shows "\<exists>T'. rbtree_insert T p = Some T' \<and> rb_holds T' (insort_key fst (k, p) es) \<and>
    (\<forall>q j. q \<noteq> p \<longrightarrow> q \<notin> snd ` set es \<longrightarrow> rb_unlinked T q j \<longrightarrow> rb_unlinked T' q j)"
proof -
  from assms(1) obtain t where t: "rb_ok T t" "es = map (\<lambda>e. (fst e, fst (snd e))) (entries t)"
    by (auto simp: rb_holds_def)
  have sets: "snd ` set es = set (addrs t)" "fst ` set es = set (keys t)"
    by (force simp: t(2) addrs_entries)+
  from assms(2) obtain n where n: "mem T p = Some n" "key n = k" "p \<noteq> NULL" "p \<noteq> nil T"
    by (auto simp: rb_unlinked_def)
  from insert_linked [OF t(1), of p n] n assms(3,4) sets obtain T' t' where T':
    "rbtree_insert T p = Some T'" "rb_ok T' t'" "nil T' = nil T"
    "entries t' = insort_key fst (k, p, val n) (entries t)"
    "\<forall>x. x \<notin> set (p # addrs t) \<longrightarrow> mem T' x = mem T x"
    by (auto simp: fresh_node_def)
  then show ?thesis
    by (auto simp: rb_holds_def t(2) insort_project [symmetric] rb_unlinked_def addrs_entries image_comp comp_def)
qed

lemma rb_look:
  assumes "rb_holds T es"
  shows "rbtree_find T k = Some (case map_of es k of None \<Rightarrow> NULL | Some a \<Rightarrow> a)"
proof -
  from assms obtain t where t: "rb_ok T t" "es = map (\<lambda>e. (fst e, fst (snd e))) (entries t)"
    by (auto simp: rb_holds_def)
  have "at T t []" "bst t" using t(1) by (auto simp: rb_ok_def)
  from find_loop_at [OF this] have f: "find_loop T (root T) k =
      Some (case map_of es k of None \<Rightarrow> nil T | Some a \<Rightarrow> a)"
    by (simp add: t(2) rb_ok_root [OF t(1)])
  have nz: "a \<noteq> nil T" if "map_of es k = Some a" for a
  proof -
    have "(k, a) \<in> set es" by (rule map_of_SomeD [OF that])
    then have "a \<in> set (addrs t)" by (auto simp: t(2) addrs_entries)
    with \<open>at T t []\<close> show ?thesis by (auto simp: at_def)
  qed
  show ?thesis
  proof (cases "root T = nil T")
    case True
    with \<open>at T t []\<close> have "es = []" by (cases t) (auto simp: t(2) at_def)
    with True show ?thesis by (simp add: rbtree_find_def)
  next
    case False
    with f nz show ?thesis by (simp add: rbtree_find_def split: option.splits)
  qed
qed

lemma rb_insert_old:
  assumes "rb_holds T es" "rb_unlinked T p k" "k \<in> fst ` set es"
  shows "rbtree_insert T p = Some T"
proof -
  from assms(1) obtain t where t: "at T t []" "bst t" "es = map (\<lambda>e. (fst e, fst (snd e))) (entries t)"
    by (auto simp: rb_holds_def rb_ok_def)
  moreover have "k \<in> set (keys t)" using assms(3) by (simp add: t(3) image_comp comp_def)
  moreover obtain n where n: "mem T p = Some n" "key n = k" using assms(2) by (auto simp: rb_unlinked_def)
  ultimately have "insert_descend T k (root T) (nil T) = Some None"
    using descend_present [of T t "[]" k "nil T"] by (simp add: at_def)
  then show ?thesis by (simp add: rbtree_insert_def get_def n)
qed

lemma rb_walk: "rb_holds T es \<Longrightarrow> rbtree_print T (root T) = Some (map fst es)"
  using print_at [of T _ "[]"] by (auto simp: rb_holds_def rb_ok_def at_def)

lemma rb_strict: "rb_holds T es \<Longrightarrow> sorted_wrt (<) (map fst es)"
  by (auto simp: rb_holds_def rb_ok_def bst_def comp_def)

interpretation rb: ordered_index rb_holds rb_unlinked rbtree_insert rbtree_find
  "\<lambda>T. rbtree_print T (root T)"
proof unfold_locales
  fix T es p k
  assume "rb_holds T es" "rb_unlinked T p k" "k \<in> fst ` set es"
  then show "rbtree_insert T p = Some T" by (rule rb_insert_old)
qed (use rb_insert_new rb_look rb_walk rb_strict in blast)+

section \<open>Correctness of the operations\<close>

definition sample_node :: "int \<Rightarrow> rb_node" where
  "sample_node k = \<lparr>color = BLACK, left = 0, right = 0, parent = 0, key = k, val = 0\<rparr>"

definition sample_tree :: "int list \<Rightarrow> rbtree" where
  "sample_tree ks = (rbtree_create 5)\<lparr>mem := mem (rbtree_create 5) ++
     map_of (zip [11..<11 + length ks] (map sample_node ks))\<rparr>"

lemma sample_tree_empty: "rb_ok (sample_tree [3, 1, 2]) Lf"
  by (simp add: rb_ok_def at_def sample_tree_def rbtree_create_def upt_rec sample_node_def)

text \<open>
  C2. inserting an allocated node with a new key into a red-black tree ends, keeps every clause of
  the invariant (search order, no red node with a red child, equal black heights, black root), adds
  exactly that entry, and writes no cell outside the tree and the new node.
\<close>

theorem rbtree_insert_keeps_invariant:
  assumes "rb_ok T t" "fresh_node T t p n" "key n \<notin> set (keys t)"
  shows "\<exists>T' t'. rbtree_insert T p = Some T' \<and> rb_ok T' t' \<and> nil T' = nil T \<and>
    entries t' = insort_key fst (key n, p, val n) (entries t) \<and>
    (\<forall>x. x \<notin> set (p # addrs t) \<longrightarrow> mem T' x = mem T x)"
  by (rule insert_linked [OF assms])

theorem rbtree_insert_keeps_invariant_witness:
  "\<exists>T' t'. rbtree_insert (sample_tree [3, 1, 2]) 11 = Some T' \<and> rb_ok T' t' \<and> entries t' = [(3, 11, 0)]"
  using rbtree_insert_keeps_invariant [OF sample_tree_empty, of 11 "sample_node 3"]
  by (force simp: fresh_node_def sample_tree_def rbtree_create_def upt_rec sample_node_def)

text \<open>
  after inserting a node with a new key, looking that key up gives the node, and looking any
  other key up gives what it gave before.
\<close>

theorem rbtree_find_after_insert:
  assumes "rb_holds T es" "rb_unlinked T p k" "p \<notin> snd ` set es" "k \<notin> fst ` set es"
  shows "(rbtree_insert T p \<bind> (\<lambda>T'. rbtree_find T' j)) = (if j = k then Some p else rbtree_find T j)"
  by (rule rb.look_after_insert [OF assms])

theorem rbtree_find_after_insert_witness:
  "(rbtree_insert (sample_tree [3, 1, 2]) 11 \<bind> (\<lambda>T'. rbtree_find T' 3)) = Some 11"
  using rbtree_find_after_insert [of "sample_tree [3, 1, 2]" "[]" 11 3 3] sample_tree_empty
  by (force simp: rb_holds_def rb_unlinked_def sample_tree_def rbtree_create_def upt_rec sample_node_def)

text \<open>
  C3. inserting any sequence of distinct allocated nodes into an empty tree and printing the tree
  lists the keys in increasing order, each once (a node whose key is already there is not linked).
\<close>

theorem rbtree_print_sorts:
  assumes "rb_holds T []" "distinct ps" "\<forall>p\<in>set ps. rb_unlinked T p (kf p)"
  shows "(insert_all rbtree_insert ps T \<bind> (\<lambda>T'. rbtree_print T' (root T'))) =
    Some (sorted_list_of_set (kf ` set ps))"
  using rb.insert_all_walk [of T "[]" ps kf] assms by simp

theorem rbtree_print_sorts_witness:
  "(insert_all rbtree_insert [11, 12, 13] (sample_tree [3, 1, 2]) \<bind>
    (\<lambda>T'. rbtree_print T' (root T'))) = Some [1, 2, 3]"
  using rbtree_print_sorts [of "sample_tree [3, 1, 2]" "[11, 12, 13]" "\<lambda>p. if p = 11 then 3 else if p = 12 then 1 else 2"]
    sample_tree_empty
  by (force simp: rb_holds_def rb_unlinked_def sample_tree_def rbtree_create_def upt_rec sample_node_def)

definition three_nodes :: rbtree where
  "three_nodes = \<lparr>root = 11, nil = 5, mem = [
     5 \<mapsto> \<lparr>color = BLACK, left = 0, right = 0, parent = 5, key = 0, val = 0\<rparr>,
     11 \<mapsto> \<lparr>color = BLACK, left = 12, right = 13, parent = 5, key = 2, val = 0\<rparr>,
     12 \<mapsto> \<lparr>color = RED, left = 5, right = 5, parent = 11, key = 1, val = 0\<rparr>,
     13 \<mapsto> \<lparr>color = RED, left = 5, right = 5, parent = 11, key = 3, val = 0\<rparr>]\<rparr>"

lemma three_nodes_ok:
  "rb_ok three_nodes (Nd (Nd Lf 12 RED 1 0 Lf) 11 BLACK 2 0 (Nd Lf 13 RED 3 0 Lf))"
  by (simp add: rb_ok_def at_def three_nodes_def)

fun height :: "rbt \<Rightarrow> nat" where
  "height Lf = 0"
| "height (Nd l a c k v r) = Suc (max (height l) (height r))"

lemma height_bh: "invh t \<Longrightarrow> invc t \<Longrightarrow> height t \<le> 2 * bh t + (if cl t = RED then 1 else 0)"
proof (induction t)
  case (Nd l a c k v r)
  then show ?case by (cases c) (auto split: if_splits)
qed simp

lemma size_bh: "invh t \<Longrightarrow> 2 ^ bh t \<le> length (entries t) + 1"
proof (induction t)
  case (Nd l a c k v r)
  then show ?case by (cases c) auto
qed simp



text \<open>
  deletion can lose the whole tree. After the keys 1, 2, 3, 4 are inserted and 4 is deleted,
  the tree holds 1, 2, 3; deleting 1 reports success (0) and leaves an empty tree, because the
  repair climbs to the root and then runs the statement that is meant for a root being removed.
\<close>

theorem rbtree_delete_loses_entries:
  "(do { T \<leftarrow> insert_all rbtree_insert [11, 12, 13, 14] (sample_tree [1, 2, 3, 4]);
         (r4, T) \<leftarrow> rbtree_delete T 4;
         before \<leftarrow> rbtree_print T (root T);
         (r1, T) \<leftarrow> rbtree_delete T 1;
         after \<leftarrow> rbtree_print T (root T);
         Some (r4, before, r1, after) }) = Some (0, [1, 2, 3], 0, [])"
  by code_simp

end
