(* ===== verification/Mmpool.thy ===== *)
theory Mmpool
  imports Prelude
begin

text \<open>
  The memory pool of \<open>pool/mmpool.c\<close> and \<open>pool/mmpool.h\<close>.

  Addresses and sizes are 64-bit words, so that the pointer arithmetic wraps as it does in the
  code. \<open>blocks\<close> are the live blocks of the C library's allocator (base and size); \<open>pools\<close>,
  \<open>nodes\<close> and \<open>larges\<close> are the objects of the three struct types. The allocator is a parameter:
  \<open>memalign e s a n\<close> and \<open>sys_malloc e s n\<close> are the addresses \<open>posix_memalign\<close> and \<open>malloc\<close>
  return in state \<open>s\<close>, 0 for a failure. Using an object that does not exist is \<open>None\<close>, and so is a
  call that does not return.
\<close>

section \<open>The data\<close>

record mp_large_s =
  next_large :: u64
  alloc :: u64

record mp_node_s =
  last_ptr :: u64
  end_ptr :: u64
  next_node :: u64
  failed :: u64

record mp_pool_s =
  max_size :: u64
  current :: u64
  large :: u64

record mp_heap =
  blocks :: "u64 \<rightharpoonup> u64"
  pools :: "u64 \<rightharpoonup> mp_pool_s"
  nodes :: "u64 \<rightharpoonup> mp_node_s"
  larges :: "u64 \<rightharpoonup> mp_large_s"
  zeroed :: "(u64 \<times> u64) list"

text \<open>\<open>zeroed\<close> records the calls of \<open>memset (p, 0, n)\<close>.\<close>

record mp_env =
  memalign :: "mp_heap \<Rightarrow> u64 \<Rightarrow> u64 \<Rightarrow> u64"
  sys_malloc :: "mp_heap \<Rightarrow> u64 \<Rightarrow> u64"

definition sizeof_pool :: u64 where "sizeof_pool = 24"
definition sizeof_node :: u64 where "sizeof_node = 32"
definition sizeof_large :: u64 where "sizeof_large = 16"

definition MP_ALIGNMENT :: u64 where "MP_ALIGNMENT = 32"
definition MP_PAGE_SIZE :: u64 where "MP_PAGE_SIZE = 4096"
definition MP_MAX_ALLOC_FROM_POOL :: u64 where "MP_MAX_ALLOC_FROM_POOL = MP_PAGE_SIZE - 1"

definition mp_align :: "u64 \<Rightarrow> u64 \<Rightarrow> u64" where
  "mp_align n a = (n + (a - 1)) AND NOT (a - 1)"

definition mp_align_ptr :: "u64 \<Rightarrow> u64 \<Rightarrow> u64" where
  "mp_align_ptr p a = (p + (a - 1)) AND NOT (a - 1)"

definition head :: "u64 \<Rightarrow> u64" where "head pool = pool + sizeof_pool"

text \<open>The C library: taking and releasing a block. \<open>free(NULL)\<close> does nothing.\<close>

definition take_block :: "u64 \<Rightarrow> u64 \<Rightarrow> mp_heap \<Rightarrow> mp_heap" where
  "take_block p n s = s\<lparr>blocks := (blocks s)(p \<mapsto> n)\<rparr>"

definition sys_free :: "u64 \<Rightarrow> mp_heap \<Rightarrow> mp_heap option" where
  "sys_free p s = (if p = 0 then Some s else
     case blocks s p of None \<Rightarrow> None | Some n \<Rightarrow> Some (s\<lparr>blocks := (blocks s)(p := None)\<rparr>))"

definition upd_pool :: "u64 \<Rightarrow> (mp_pool_s \<Rightarrow> mp_pool_s) \<Rightarrow> mp_heap \<Rightarrow> mp_heap option" where
  "upd_pool p f s = map_option (\<lambda>x. s\<lparr>pools := (pools s)(p \<mapsto> f x)\<rparr>) (pools s p)"

definition upd_node :: "u64 \<Rightarrow> (mp_node_s \<Rightarrow> mp_node_s) \<Rightarrow> mp_heap \<Rightarrow> mp_heap option" where
  "upd_node p f s = map_option (\<lambda>x. s\<lparr>nodes := (nodes s)(p \<mapsto> f x)\<rparr>) (nodes s p)"

definition upd_large :: "u64 \<Rightarrow> (mp_large_s \<Rightarrow> mp_large_s) \<Rightarrow> mp_heap \<Rightarrow> mp_heap option" where
  "upd_large p f s = map_option (\<lambda>x. s\<lparr>larges := (larges s)(p \<mapsto> f x)\<rparr>) (larges s p)"

section \<open>Creation and destruction\<close>

text \<open>
  \<open>junk\<close> is what the fresh memory holds in \<open>head->next\<close>, which the code does not initialise.
\<close>

definition mp_create_pool :: "mp_env \<Rightarrow> u64 \<Rightarrow> u64 \<Rightarrow> mp_heap \<Rightarrow> u64 \<times> mp_heap" where
  "mp_create_pool e sz junk s = (
     let n = sz + sizeof_pool + sizeof_node; p = memalign e s MP_ALIGNMENT n in
     if p = 0 then (0, s) else
       let s = take_block p n s; first = p + sizeof_pool + sizeof_node in
       (p, s\<lparr>pools := (pools s)(p \<mapsto> \<lparr>
                 max_size = (if sz < MP_MAX_ALLOC_FROM_POOL then sz else MP_MAX_ALLOC_FROM_POOL),
                 current = head p, large = 0\<rparr>),
             nodes := (nodes s)(head p \<mapsto> \<lparr>last_ptr = first, end_ptr = first + sz,
                 next_node = junk, failed = 0\<rparr>)\<rparr>))"

partial_function (option) free_larges :: "u64 \<Rightarrow> mp_heap \<Rightarrow> mp_heap option" where
  "free_larges l s =
     (if l = 0 then Some s
      else do {
        x \<leftarrow> larges s l;
        s \<leftarrow> (if alloc x \<noteq> 0 then sys_free (alloc x) s else Some s);
        free_larges (next_large x) s
      })"

partial_function (option) free_nodes :: "u64 \<Rightarrow> mp_heap \<Rightarrow> mp_heap option" where
  "free_nodes h s =
     (if h = 0 then Some s
      else do {
        x \<leftarrow> nodes s h;
        s \<leftarrow> sys_free h (s\<lparr>nodes := (nodes s)(h := None)\<rparr>);
        free_nodes (next_node x) s
      })"

definition mp_destory_pool :: "u64 \<Rightarrow> mp_heap \<Rightarrow> mp_heap option" where
  "mp_destory_pool pool s = do {
     p \<leftarrow> pools s pool;
     s \<leftarrow> free_larges (large p) s;
     h \<leftarrow> nodes s (head pool);
     s \<leftarrow> free_nodes (next_node h) s;
     sys_free pool (s\<lparr>pools := (pools s)(pool := None), nodes := (nodes s)(head pool := None)\<rparr>)
   }"

partial_function (option) reset_nodes :: "u64 \<Rightarrow> mp_heap \<Rightarrow> mp_heap option" where
  "reset_nodes h s =
     (if h = 0 then Some s
      else do {
        s \<leftarrow> upd_node h (\<lambda>x. x\<lparr>last_ptr := h + sizeof_node\<rparr>) s;
        x \<leftarrow> nodes s h;
        reset_nodes (next_node x) s
      })"

definition mp_reset_pool :: "u64 \<Rightarrow> mp_heap \<Rightarrow> mp_heap option" where
  "mp_reset_pool pool s = do {
     p \<leftarrow> pools s pool;
     s \<leftarrow> free_larges (large p) s;
     s \<leftarrow> upd_pool pool (\<lambda>p. p\<lparr>large := 0\<rparr>) s;
     reset_nodes (head pool) s
   }"

section \<open>Allocation\<close>

text \<open>
  The walk of \<open>mp_alloc_block\<close> to the last node: \<open>failed\<close> counts the nodes passed, and a node that
  failed too often is skipped by later allocations.
\<close>

partial_function (option) fail_loop :: "u64 \<Rightarrow> u64 \<Rightarrow> mp_heap \<Rightarrow> (u64 \<times> u64 \<times> mp_heap) option" where
  "fail_loop p cur s = do {
     x \<leftarrow> nodes s p;
     if next_node x = 0 then Some (p, cur, s)
     else do {
       s \<leftarrow> upd_node p (\<lambda>x. x\<lparr>failed := failed x + 1\<rparr>) s;
       fail_loop (next_node x) (if failed x > 4 then next_node x else cur) s
     }
   }"

definition mp_alloc_block :: "mp_env \<Rightarrow> u64 \<Rightarrow> u64 \<Rightarrow> mp_heap \<Rightarrow> (u64 \<times> mp_heap) option" where
  "mp_alloc_block e pool sz s = do {
     h \<leftarrow> nodes s (head pool);
     let psize = end_ptr h - head pool;
     let new_node = memalign e s MP_ALIGNMENT psize;
     if new_node = 0 then Some (0, s)
     else do {
       let m = mp_align_ptr (new_node + sizeof_node) MP_ALIGNMENT;
       let s = take_block new_node psize s;
       let s = s\<lparr>nodes := (nodes s)(new_node \<mapsto> \<lparr>last_ptr = m + sz, end_ptr = new_node + psize,
                  next_node = 0, failed = 0\<rparr>)\<rparr>;
       p \<leftarrow> pools s pool;
       (q, cur, s) \<leftarrow> fail_loop (current p) (current p) s;
       s \<leftarrow> upd_node q (\<lambda>x. x\<lparr>next_node := new_node\<rparr>) s;
       s \<leftarrow> upd_pool pool (\<lambda>p. p\<lparr>current := (if cur \<noteq> 0 then cur else new_node)\<rparr>) s;
       Some (m, s)
     }
   }"

text \<open>
  The first-fit loops of \<open>mp_alloc\<close> and \<open>mp_nalloc\<close>: the address found, or 0 when no node of the
  chain fits. The test is the unsigned comparison of the code.
\<close>

partial_function (option) alloc_loop :: "u64 \<Rightarrow> u64 \<Rightarrow> mp_heap \<Rightarrow> (u64 option \<times> mp_heap) option" where
  "alloc_loop p sz s = do {
     x \<leftarrow> nodes s p;
     let m = mp_align_ptr (last_ptr x) MP_ALIGNMENT;
     if end_ptr x - m \<ge> sz then do {
       s \<leftarrow> upd_node p (\<lambda>x. x\<lparr>last_ptr := m + sz\<rparr>) s;
       Some (Some m, s)
     } else if next_node x \<noteq> 0 then alloc_loop (next_node x) sz s
     else Some (None, s)
   }"

partial_function (option) nalloc_loop :: "u64 \<Rightarrow> u64 \<Rightarrow> mp_heap \<Rightarrow> (u64 option \<times> mp_heap) option" where
  "nalloc_loop p sz s = do {
     x \<leftarrow> nodes s p;
     let m = last_ptr x;
     if end_ptr x - m \<ge> sz then do {
       s \<leftarrow> upd_node p (\<lambda>x. x\<lparr>last_ptr := m + sz\<rparr>) s;
       Some (Some m, s)
     } else if next_node x \<noteq> 0 then nalloc_loop (next_node x) sz s
     else Some (None, s)
   }"

text \<open>
  \<open>mp_alloc_large\<close> up to its call of \<open>mp_alloc\<close> (\<open>Inl\<close> is an early return, \<open>Inr\<close> the block that
  still needs a record) and from it on.
\<close>

partial_function (option) reuse_loop :: "u64 \<Rightarrow> u64 \<Rightarrow> nat \<Rightarrow> mp_heap \<Rightarrow> (bool \<times> mp_heap) option" where
  "reuse_loop l p n s =
     (if l = 0 then Some (False, s)
      else do {
        x \<leftarrow> larges s l;
        if alloc x = 0 then do {
          s \<leftarrow> upd_large l (\<lambda>x. x\<lparr>alloc := p\<rparr>) s;
          Some (True, s)
        } else if n > 3 then Some (False, s)
        else reuse_loop (next_large x) p (n + 1) s
      })"

definition large_begin :: "mp_env \<Rightarrow> u64 \<Rightarrow> u64 \<Rightarrow> mp_heap \<Rightarrow> ((u64 + u64) \<times> mp_heap) option" where
  "large_begin e pool sz s = (
     let p = sys_malloc e s sz in
     if p = 0 then Some (Inl 0, s)
     else do {
       let s = take_block p sz s;
       x \<leftarrow> pools s pool;
       (found, s) \<leftarrow> reuse_loop (large x) p 0 s;
       Some (if found then Inl p else Inr p, s)
     })"

definition large_end :: "u64 \<Rightarrow> u64 \<Rightarrow> u64 \<Rightarrow> mp_heap \<Rightarrow> (u64 \<times> mp_heap) option" where
  "large_end pool p l s =
     (if l = 0 then map_option (\<lambda>s. (0, s)) (sys_free p s)
      else do {
        x \<leftarrow> pools s pool;
        let s = s\<lparr>larges := (larges s)(l \<mapsto> \<lparr>next_large = large x, alloc = p\<rparr>)\<rparr>;
        s \<leftarrow> upd_pool pool (\<lambda>x. x\<lparr>large := l\<rparr>) s;
        Some (p, s)
      })"

partial_function (option) mp_alloc :: "mp_env \<Rightarrow> u64 \<Rightarrow> u64 \<Rightarrow> mp_heap \<Rightarrow> (u64 \<times> mp_heap) option" where
  "mp_alloc e pool sz s = do {
     x \<leftarrow> pools s pool;
     if sz \<le> max_size x then do {
       (m, s) \<leftarrow> alloc_loop (current x) sz s;
       case m of Some m \<Rightarrow> Some (m, s) | None \<Rightarrow> mp_alloc_block e pool sz s
     } else do {
       (p, s) \<leftarrow> large_begin e pool sz s;
       case p of Inl p \<Rightarrow> Some (p, s)
       | Inr p \<Rightarrow> do {
           (l, s) \<leftarrow> mp_alloc e pool sizeof_large s;
           large_end pool p l s
         }
     }
   }"

definition mp_alloc_large :: "mp_env \<Rightarrow> u64 \<Rightarrow> u64 \<Rightarrow> mp_heap \<Rightarrow> (u64 \<times> mp_heap) option" where
  "mp_alloc_large e pool sz s = do {
     (p, s) \<leftarrow> large_begin e pool sz s;
     case p of Inl p \<Rightarrow> Some (p, s)
     | Inr p \<Rightarrow> do {
         (l, s) \<leftarrow> mp_alloc e pool sizeof_large s;
         large_end pool p l s
       }
   }"

definition mp_memalign :: "mp_env \<Rightarrow> u64 \<Rightarrow> u64 \<Rightarrow> u64 \<Rightarrow> mp_heap \<Rightarrow> (u64 \<times> mp_heap) option" where
  "mp_memalign e pool sz alignment s = (
     let p = memalign e s alignment sz in
     if p = 0 then Some (0, s)
     else do {
       (l, s) \<leftarrow> mp_alloc e pool sizeof_large (take_block p sz s);
       large_end pool p l s
     })"

definition mp_nalloc :: "mp_env \<Rightarrow> u64 \<Rightarrow> u64 \<Rightarrow> mp_heap \<Rightarrow> (u64 \<times> mp_heap) option" where
  "mp_nalloc e pool sz s = do {
     x \<leftarrow> pools s pool;
     if sz \<le> max_size x then do {
       (m, s) \<leftarrow> nalloc_loop (current x) sz s;
       case m of Some m \<Rightarrow> Some (m, s) | None \<Rightarrow> mp_alloc_block e pool sz s
     } else mp_alloc_large e pool sz s
   }"

definition mp_calloc :: "mp_env \<Rightarrow> u64 \<Rightarrow> u64 \<Rightarrow> mp_heap \<Rightarrow> (u64 \<times> mp_heap) option" where
  "mp_calloc e pool sz s = do {
     (p, s) \<leftarrow> mp_alloc e pool sz s;
     Some (p, if p \<noteq> 0 then s\<lparr>zeroed := zeroed s @ [(p, sz)]\<rparr> else s)
   }"

partial_function (option) free_loop :: "u64 \<Rightarrow> u64 \<Rightarrow> mp_heap \<Rightarrow> mp_heap option" where
  "free_loop l p s =
     (if l = 0 then Some s
      else do {
        x \<leftarrow> larges s l;
        if p = alloc x then do {
          s \<leftarrow> sys_free (alloc x) s;
          upd_large l (\<lambda>x. x\<lparr>alloc := 0\<rparr>) s
        } else free_loop (next_large x) p s
      })"

definition mp_free :: "u64 \<Rightarrow> u64 \<Rightarrow> mp_heap \<Rightarrow> mp_heap option" where
  "mp_free pool p s = do { x \<leftarrow> pools s pool; free_loop (large x) p s }"

lemmas mp_loops [code] =
  free_larges.simps free_nodes.simps reset_nodes.simps fail_loop.simps alloc_loop.simps
  nalloc_loop.simps reuse_loop.simps mp_alloc.simps free_loop.simps

lemma mp_alloc_eq:
  "mp_alloc e pool sz s = do {
     x \<leftarrow> pools s pool;
     if sz \<le> max_size x then do {
       (m, s) \<leftarrow> alloc_loop (current x) sz s;
       case m of Some m \<Rightarrow> Some (m, s) | None \<Rightarrow> mp_alloc_block e pool sz s
     } else mp_alloc_large e pool sz s
   }"
  unfolding mp_alloc_large_def by (subst mp_alloc.simps) (rule refl)

end
