(* ===== verification/Mmpool_Inv.thy ===== *)
theory Mmpool_Inv
  imports Mmpool
begin

text \<open>
  The invariant of a memory pool and the loops that keep it: the chain of nodes, the memory each
  manages, the regions handed out, the documented behaviour of the C library's allocator, first fit
  without alignment, and the addition of a block.
\<close>

lemma unat_less_pow64 [simp]: "unat w < 18446744073709551616" for w :: u64
  using unsigned_less [of w, where ?'a = nat] by simp

lemma unat_sub64: "b \<le> a \<Longrightarrow> unat (a - b) = unat a - unat b" for a b :: u64
  by (simp add: unat_sub)

lemma unat_push5: "unat v * 32 < 18446744073709551616 \<Longrightarrow> unat (push_bit 5 v) = unat v * 32" for v :: u64
  by (simp add: push_bit_eq_mult unat_word_ariths)

lemma unat_mp_align_ptr:
  assumes "unat p + 31 < 18446744073709551616"
  shows "unat (mp_align_ptr p MP_ALIGNMENT) = (unat p + 31) div 32 * 32"
proof -
  have "(p + 31) AND NOT 31 = (p + 31) AND NOT (mask 5)" for p :: u64
    by (simp add: mask_eq_exp_minus_1)
  also have "\<dots> p = push_bit 5 (drop_bit 5 (p + 31))" for p :: u64
    by (simp add: bit_eq_iff bit_simps) (auto simp: not_less)
  finally have "mp_align_ptr p MP_ALIGNMENT = push_bit 5 (drop_bit 5 (p + 31))"
    by (simp add: mp_align_ptr_def MP_ALIGNMENT_def)
  moreover have "unat (push_bit 5 (drop_bit 5 (p + 31))) = unat (p + 31) div 32 * 32"
  proof -
    have "unat (drop_bit 5 (p + 31)) * 32 < 18446744073709551616"
      using unat_less_pow64 [of "p + 31"] by (simp add: unat_drop_bit less_mult_imp_div_less del: unat_less_pow64)
    then show ?thesis by (simp add: unat_push5 unat_drop_bit del: unat_less_pow64)
  qed
  moreover have "unat (p + 31) = unat p + 31" using unat_add64 [of p 31] assms by simp
  ultimately show ?thesis by simp
qed


section \<open>The documented behaviour of the allocator\<close>

definition far :: "nat \<times> nat \<Rightarrow> nat \<times> nat \<Rightarrow> bool" where
  "far r q \<longleftrightarrow> fst r + snd r \<le> fst q \<or> fst q + snd q \<le> fst r"

definition env_ok :: "mp_env \<Rightarrow> bool" where
  "env_ok e \<longleftrightarrow> (\<forall>s a n. let p = memalign e s a n in p \<noteq> 0 \<longrightarrow>
     blocks s p = None \<and> unat p mod unat a = 0 \<and> unat p + unat n < 2 ^ 64 \<and>
     (\<forall>q m. blocks s q = Some m \<longrightarrow> far (unat p, unat n) (unat q, unat m)))"

lemma env_ok_memalign:
  assumes "env_ok e" "memalign e s MP_ALIGNMENT n = p" "p \<noteq> 0"
  shows "blocks s p = None" "unat p mod 32 = 0" "unat p + unat n < 18446744073709551616"
  using assms(1) [unfolded env_ok_def Let_def, rule_format, of s MP_ALIGNMENT n] assms(2,3)
  by (simp_all add: MP_ALIGNMENT_def)

section \<open>The invariant of a pool\<close>

fun chain :: "(u64 \<rightharpoonup> mp_node_s) \<Rightarrow> u64 \<Rightarrow> u64 list \<Rightarrow> bool" where
  "chain h p [] \<longleftrightarrow> p = 0"
| "chain h p (a # ns) \<longleftrightarrow> p = a \<and> a \<noteq> 0 \<and> (\<exists>n. h a = Some n \<and> chain h (next_node n) ns)"

text \<open>
  \<open>node_ok h ps a\<close>: the node at \<open>a\<close> manages the \<open>ps\<close> bytes from \<open>a\<close> on, its own 32 bytes first.
\<close>

definition node_ok :: "(u64 \<rightharpoonup> mp_node_s) \<Rightarrow> nat \<Rightarrow> u64 \<Rightarrow> bool" where
  "node_ok h ps a \<longleftrightarrow> (\<exists>n. h a = Some n \<and> unat (end_ptr n) = unat a + ps \<and>
     unat a + 32 \<le> unat (last_ptr n) \<and> unat (last_ptr n) \<le> unat (end_ptr n))"

definition in_node :: "(u64 \<rightharpoonup> mp_node_s) \<Rightarrow> u64 \<Rightarrow> nat \<times> nat \<Rightarrow> bool" where
  "in_node h a r \<longleftrightarrow> (\<exists>n. h a = Some n \<and> unat a + 32 \<le> fst r \<and> fst r + snd r \<le> unat (last_ptr n))"

text \<open>
  \<open>pool_inv s pool ns ps rs\<close>: the nodes of the pool are the chain \<open>ns\<close>, each managing \<open>ps\<close> bytes of
  live memory, and the regions \<open>rs\<close> handed out lie in the nodes and are pairwise disjoint.
\<close>

definition pool_inv :: "mp_heap \<Rightarrow> u64 \<Rightarrow> u64 list \<Rightarrow> nat \<Rightarrow> (nat \<times> nat) list \<Rightarrow> bool" where
  "pool_inv s pool ns ps rs \<longleftrightarrow>
     (\<exists>P. pools s pool = Some P \<and> current P \<in> set ns \<and> unat (max_size P) + 32 \<le> ps) \<and>
     chain (nodes s) (head pool) ns \<and> distinct ns \<and> pool \<noteq> 0 \<and> pool \<notin> set (tl ns) \<and>
     (\<forall>a\<in>set ns. node_ok (nodes s) ps a) \<and>
     (\<forall>a\<in>set ns. \<forall>b\<in>set ns. a \<noteq> b \<longrightarrow> far (unat a, ps) (unat b, ps)) \<and>
     unat (head pool) = unat pool + 24 \<and>
     (\<exists>n. blocks s pool = Some n \<and> unat n = ps + 24) \<and>
     (\<forall>a\<in>set (tl ns). \<exists>n. blocks s a = Some n \<and> unat n = ps) \<and>
     (\<forall>r\<in>set rs. \<exists>a\<in>set ns. in_node (nodes s) a r) \<and> sorted_wrt far rs"

section \<open>First fit\<close>

lemma chain_in: "chain h p ns \<Longrightarrow> a \<in> set ns \<Longrightarrow> \<exists>n. h a = Some n"
  by (induction ns arbitrary: p) auto

lemma chain_from: "chain h p ns \<Longrightarrow> a \<in> set ns \<Longrightarrow> \<exists>as bs. ns = as @ a # bs \<and> chain h a (a # bs)"
proof (induction ns arbitrary: p)
  case (Cons b ns)
  show ?case
  proof (cases "a = b")
    case True
    then show ?thesis using Cons.prems by (intro exI [of _ "[]"] exI [of _ ns]) auto
  next
    case False
    with Cons.prems obtain n where "h b = Some n" "chain h (next_node n) ns" "a \<in> set ns" by auto
    from Cons.IH [OF this(2,3)] obtain as bs where "ns = as @ a # bs" "chain h a (a # bs)" by auto
    then show ?thesis by (intro exI [of _ "b # as"] exI [of _ bs]) auto
  qed
qed simp

text \<open>Allocating in a node moves its \<open>last\<close>; nothing else of the pool changes.\<close>

definition bump :: "u64 \<Rightarrow> u64 \<Rightarrow> mp_heap \<Rightarrow> mp_heap" where
  "bump a l s = s\<lparr>nodes := (nodes s)(a := map_option (\<lambda>n. n\<lparr>last_ptr := l\<rparr>) (nodes s a))\<rparr>"

lemma nalloc_loop_spec:
  assumes "chain (nodes s) p (p # ns)" "\<forall>a\<in>set (p # ns). node_ok (nodes s) ps a"
  shows "nalloc_loop p n s = Some (None, s) \<or>
    (\<exists>a\<in>set (p # ns). \<exists>x. nodes s a = Some x \<and> unat (last_ptr x) + unat n \<le> unat (end_ptr x) \<and>
       nalloc_loop p n s = Some (Some (last_ptr x), bump a (last_ptr x + n) s))"
  using assms
proof (induction ns arbitrary: p)
  case Nil
  then obtain x where x: "nodes s p = Some x" "next_node x = 0" "last_ptr x \<le> end_ptr x"
    by (auto simp: node_ok_def word_le_nat_alt)
  then show ?case
    using unat_sub64 [OF x(3)]
    by (subst nalloc_loop.simps, subst (2) nalloc_loop.simps)
      (auto simp: upd_node_def bump_def word_le_nat_alt Let_def)
next
  case (Cons q ns)
  then obtain x where x: "nodes s p = Some x" "next_node x = q" "last_ptr x \<le> end_ptr x"
    "q \<noteq> 0" "chain (nodes s) q (q # ns)"
    by (auto simp: node_ok_def word_le_nat_alt)
  then show ?case
    using unat_sub64 [OF x(3)] Cons.IH [OF x(5)] Cons.prems(2)
    by (subst nalloc_loop.simps, subst (2) nalloc_loop.simps)
      (auto simp: upd_node_def bump_def word_le_nat_alt Let_def)
qed


lemma chain_upd: "a \<notin> set ns \<Longrightarrow> chain (h(a := x)) p ns = chain h p ns"
  by (induction ns arbitrary: p) auto

lemma chain_same_next:
  "\<forall>a\<in>set ns. map_option next_node (h' a) = map_option next_node (h a) \<Longrightarrow> chain h p ns \<Longrightarrow> chain h' p ns"
  by (induction ns arbitrary: p) fastforce+

text \<open>Two sets of nodes that differ in the counters \<open>failed\<close> only.\<close>

definition same_nodes :: "(u64 \<rightharpoonup> mp_node_s) \<Rightarrow> (u64 \<rightharpoonup> mp_node_s) \<Rightarrow> bool" where
  "same_nodes h h' \<longleftrightarrow> (\<forall>a. map_option (failed_update (\<lambda>_. 0)) (h a) = map_option (failed_update (\<lambda>_. 0)) (h' a))"

lemma same_nodes_refl: "same_nodes h h"
  by (simp add: same_nodes_def)

lemma same_nodes_node:
  assumes "same_nodes h h'" "h a = Some n"
  shows "\<exists>n'. h' a = Some n' \<and> next_node n' = next_node n \<and> last_ptr n' = last_ptr n \<and> end_ptr n' = end_ptr n"
proof -
  have "map_option (failed_update (\<lambda>_. 0)) (h' a) = Some (failed_update (\<lambda>_. 0) n)"
    using assms by (metis same_nodes_def option.simps(9))
  then obtain n' where n': "h' a = Some n'" "failed_update (\<lambda>_. 0) n' = failed_update (\<lambda>_. 0) n" by auto
  from n'(2) have "next_node n' = next_node n" "last_ptr n' = last_ptr n" "end_ptr n' = end_ptr n"
    by (cases n; cases n'; simp)+
  with n'(1) show ?thesis by simp
qed

lemma fail_loop_spec:
  assumes "chain (nodes s) p (p # ns)"
  shows "\<exists>cur' h. fail_loop p cur s = Some (last (p # ns), cur', s\<lparr>nodes := h\<rparr>) \<and>
    same_nodes (nodes s) h \<and> (cur' = cur \<or> cur' \<in> set ns)"
  using assms
proof (induction ns arbitrary: p cur s)
  case Nil
  then show ?case
    by (subst fail_loop.simps) (auto intro!: exI [of _ "nodes s"] simp: same_nodes_def)
next
  case (Cons q ns)
  then obtain x where x: "nodes s p = Some x" "next_node x = q" "q \<noteq> 0" "chain (nodes s) q (q # ns)"
    by auto
  let ?s = "s\<lparr>nodes := (nodes s)(p \<mapsto> x\<lparr>failed := failed x + 1\<rparr>)\<rparr>"
  have same: "same_nodes (nodes s) (nodes ?s)" using x(1) by (simp add: same_nodes_def)
  then have "chain (nodes ?s) q (q # ns)"
    by (intro chain_same_next [OF _ x(4)]) (use x(1) in auto)
  from Cons.IH [OF this, of "if failed x > 4 then q else cur"] obtain cur' h where
    "fail_loop q (if failed x > 4 then q else cur) ?s = Some (last (q # ns), cur', ?s\<lparr>nodes := h\<rparr>)"
    "same_nodes (nodes ?s) h" "cur' = (if failed x > 4 then q else cur) \<or> cur' \<in> set ns"
    by blast
  with same x show ?case
    by (subst fail_loop.simps) (auto simp: upd_node_def same_nodes_def split: if_splits)
qed

section \<open>A new block\<close>

lemma pool_inv_same_nodes:
  assumes "pool_inv s pool ns ps rs" "same_nodes (nodes s) h"
  shows "pool_inv (s\<lparr>nodes := h\<rparr>) pool ns ps rs"
proof -
  note n = same_nodes_node [OF assms(2)]
  have "chain h (head pool) ns"
    by (rule chain_same_next [of ns h "nodes s"])
      (use assms chain_in n in \<open>fastforce simp: pool_inv_def\<close>)+
  moreover have "node_ok h ps a" if "node_ok (nodes s) ps a" for a
    using that n by (fastforce simp: node_ok_def)
  moreover have "in_node h a r" if "in_node (nodes s) a r" for a r
    using that n by (fastforce simp: in_node_def)
  ultimately show ?thesis using assms(1) by (simp add: pool_inv_def) blast
qed


lemma chain_append:
  assumes "chain h p ns" "ns \<noteq> []" "distinct ns" "b \<notin> set ns" "b \<noteq> 0" "h b = Some n" "next_node n = 0"
    "h (last ns) = Some l"
  shows "chain (h(last ns \<mapsto> l\<lparr>next_node := b\<rparr>)) p (ns @ [b])"
  using assms
proof (induction ns arbitrary: p)
  case (Cons a ns)
  show ?case
  proof (cases "ns = []")
    case True
    with Cons.prems show ?thesis by auto
  next
    case False
    with Cons.prems have "a \<noteq> last ns" by auto
    with False Cons show ?thesis by auto
  qed
qed simp

lemma live_span:
  assumes "pool_inv s pool ns ps rs" "a \<in> set ns"
  shows "\<exists>q m. blocks s q = Some m \<and> unat q \<le> unat a \<and> unat a + ps \<le> unat q + unat m"
proof (cases "a \<in> set (tl ns)")
  case True
  with assms(1) obtain n where "blocks s a = Some n" "unat n = ps"
    unfolding pool_inv_def by blast
  then show ?thesis by (intro exI [of _ a] exI [of _ n]) simp
next
  case False
  then have a: "a = head pool" using assms by (cases ns) (auto simp: pool_inv_def)
  obtain n where "blocks s pool = Some n" "unat n = ps + 24"
    using assms(1) unfolding pool_inv_def by blast
  moreover have "unat a = unat pool + 24" using assms(1) a by (simp add: pool_inv_def)
  ultimately show ?thesis by (intro exI [of _ pool] exI [of _ n]) simp
qed

lemma far_live:
  assumes "pool_inv s pool ns ps rs" "env_ok e" "memalign e s al n = p" "p \<noteq> 0" "a \<in> set ns"
    "unat a \<le> x" "x + l \<le> unat a + ps"
  shows "far (unat p, unat n) (x, l)"
proof -
  from live_span [OF assms(1,5)] obtain q m where
    "blocks s q = Some m" "unat q \<le> unat a" "unat a + ps \<le> unat q + unat m" by auto
  moreover have "far (unat p, unat n) (unat q, unat m)"
    using assms(2-4) calculation(1) by (force simp: env_ok_def Let_def)
  ultimately show ?thesis using assms(6,7) by (auto simp: far_def)
qed

text \<open>A node whose \<open>next\<close> is the null pointer, in a block of its own, joins the chain.\<close>

lemma pool_inv_link:
  assumes inv: "pool_inv s pool ns ps rs" and b: "b \<notin> set ns" "b \<noteq> 0" "b \<noteq> pool"
    and n: "nodes s b = Some n" "next_node n = 0" "node_ok (nodes s) ps b"
    and blk: "blocks s b = Some k" "unat k = ps"
    and far: "\<forall>a\<in>set ns. far (unat b, ps) (unat a, ps)"
    and l: "nodes s (last ns) = Some l" and c: "cur \<in> set (ns @ [b])" and P: "pools s pool = Some P"
  shows "pool_inv (s\<lparr>nodes := (nodes s)(last ns \<mapsto> l\<lparr>next_node := b\<rparr>),
    pools := (pools s)(pool \<mapsto> P\<lparr>current := cur\<rparr>)\<rparr>) pool (ns @ [b]) ps rs"
proof -
  let ?h = "(nodes s)(last ns \<mapsto> l\<lparr>next_node := b\<rparr>)"
  have ne: "ns \<noteq> []" using inv by (auto simp: pool_inv_def)
  have c0: "chain ?h (head pool) (ns @ [b])"
    using inv b n l ne by (intro chain_append [of _ _ _ _ n]) (auto simp: pool_inv_def)
  have ok: "node_ok ?h ps a" if "node_ok (nodes s) ps a" for a
    using that l by (fastforce simp: node_ok_def)
  have c1: "\<forall>a\<in>set (ns @ [b]). node_ok ?h ps a"
    using inv n(3) ok by (simp add: pool_inv_def)
  have reg: "in_node ?h a r" if "in_node (nodes s) a r" for a r
    using that l by (fastforce simp: in_node_def)
  have c4: "\<forall>r\<in>set rs. \<exists>a\<in>set (ns @ [b]). in_node ?h a r"
  proof
    fix r assume "r \<in> set rs"
    then obtain a where "a \<in> set ns" "in_node (nodes s) a r"
      using inv unfolding pool_inv_def by blast
    with reg [of a r] show "\<exists>a\<in>set (ns @ [b]). in_node ?h a r" by auto
  qed
  have c2: "\<forall>x\<in>set (ns @ [b]). \<forall>y\<in>set (ns @ [b]). x \<noteq> y \<longrightarrow> far (unat x, ps) (unat y, ps)"
    using far inv by (auto simp: pool_inv_def far_def)
  have tl: "set (tl (ns @ [b])) = insert b (set (tl ns))" "distinct (ns @ [b])"
    using ne b(1) inv by (auto simp: pool_inv_def)
  have c3: "\<forall>a\<in>set (tl (ns @ [b])). \<exists>n. blocks s a = Some n \<and> unat n = ps"
    using inv blk by (auto simp: tl pool_inv_def)
  show ?thesis unfolding pool_inv_def using inv c0 c1 c2 c3 c4 b c P
    by (simp add: tl pool_inv_def)
qed


lemma in_node_span:
  "in_node (nodes s) a r \<Longrightarrow> node_ok (nodes s) ps a \<Longrightarrow> unat a \<le> fst r \<and> fst r + snd r \<le> unat a + ps"
  by (auto simp: in_node_def node_ok_def)

text \<open>Handing out \<open>n\<close> bytes at \<open>m\<close>, at or above the \<open>last\<close> of the node \<open>a\<close>.\<close>

lemma pool_inv_bump:
  assumes inv: "pool_inv s pool ns ps rs" and a: "a \<in> set ns" "nodes s a = Some x"
    and m: "unat (last_ptr x) \<le> unat m" "unat m + unat n \<le> unat (end_ptr x)"
  shows "pool_inv (bump a (m + n) s) pool ns ps ((unat m, unat n) # rs)"
proof -
  let ?h = "nodes (bump a (m + n) s)"
  have mn: "unat (m + n) = unat m + unat n"
    by (rule unat_add64) (use le_less_trans [OF m(2) unat_less_pow64] in simp)
  have h: "?h = (nodes s)(a \<mapsto> x\<lparr>last_ptr := m + n\<rparr>)"
    by (simp add: bump_def a(2))
  have okx: "unat (end_ptr x) = unat a + ps" "unat a + 32 \<le> unat (last_ptr x)"
    using inv a by (auto simp: pool_inv_def node_ok_def)
  have "chain ?h (head pool) ns"
    by (rule chain_same_next [of ns ?h "nodes s"]) (use inv a in \<open>auto simp: h pool_inv_def\<close>)
  moreover have "\<forall>c\<in>set ns. node_ok ?h ps c"
    using inv okx m mn by (auto simp: h pool_inv_def node_ok_def)
  moreover have keep: "in_node ?h c r" if "in_node (nodes s) c r" for c r
    using that m mn a by (auto simp: h in_node_def)
  have new: "in_node ?h a (unat m, unat n)"
    using okx m mn by (simp add: h in_node_def)
  have regs: "\<exists>c\<in>set ns. in_node ?h c r" if "r \<in> set ((unat m, unat n) # rs)" for r
  proof (cases "r = (unat m, unat n)")
    case False
    with that inv obtain c where "c \<in> set ns" "in_node (nodes s) c r"
      unfolding pool_inv_def by auto
    with keep [of c r] show ?thesis by blast
  qed (use new a in blast)
  moreover have "far (unat m, unat n) r" if "r \<in> set rs" for r
  proof -
    from that inv obtain c where c: "c \<in> set ns" "in_node (nodes s) c r" "node_ok (nodes s) ps c"
      unfolding pool_inv_def by auto
    show ?thesis
    proof (cases "c = a")
      case True
      with c a m show ?thesis by (auto simp: in_node_def far_def)
    next
      case False
      then have "far (unat a, ps) (unat c, ps)" using inv a c(1) by (simp add: pool_inv_def)
      with in_node_span [OF c(2,3)] okx m show ?thesis by (auto simp: far_def)
    qed
  qed
  ultimately show ?thesis using inv
    unfolding pool_inv_def by (simp add: bump_def)
qed

lemma pool_inv_fresh:
  assumes "pool_inv s pool ns ps rs" "p \<notin> set ns" "p \<noteq> pool" "blocks s p = None"
  shows "pool_inv (take_block p k s\<lparr>nodes := (nodes s)(p \<mapsto> x)\<rparr>) pool ns ps rs"
proof -
  have ne: "p \<notin> set (tl ns)" using assms(2) by (cases ns) auto
  have "node_ok ((nodes s)(p \<mapsto> x)) ps a = node_ok (nodes s) ps a"
    "in_node ((nodes s)(p \<mapsto> x)) a r = in_node (nodes s) a r" if "a \<in> set ns" for a r
    using that assms(2) by (auto simp: node_ok_def in_node_def)
  moreover have "((blocks s)(p \<mapsto> k)) a = blocks s a" if "a \<in> set (tl ns)" for a
    using that ne by auto
  ultimately show ?thesis using assms
    by (simp add: pool_inv_def take_block_def chain_upd cong: ball_cong)
qed

lemma chain_nonzero: "chain h p ns \<Longrightarrow> 0 \<notin> set ns"
  by (induction ns arbitrary: p) auto

lemma last_in: "ns \<noteq> [] \<Longrightarrow> last ns \<in> set ns" by simp

text \<open>
  \<open>block_added s pool ns ps n q s'\<close>: between \<open>s\<close> and \<open>s'\<close> the pool got a node at \<open>q\<close>, in a new block of
  \<open>ps\<close> bytes, from which \<open>n\<close> bytes were handed out; nothing else changed but the pool's \<open>current\<close> and
  the links and failure counts of the nodes.
\<close>

definition block_added :: "mp_heap \<Rightarrow> u64 \<Rightarrow> u64 list \<Rightarrow> nat \<Rightarrow> u64 \<Rightarrow> u64 \<Rightarrow> mp_heap \<Rightarrow> bool" where
  "block_added s pool ns ps n q s' \<longleftrightarrow> q \<notin> set ns \<and> blocks s q = None \<and> unat q mod 32 = 0 \<and>
     (\<exists>k. unat k = ps \<and> blocks s' = (blocks s)(q \<mapsto> k)) \<and>
     (\<exists>P cur. pools s pool = Some P \<and> pools s' = (pools s)(pool \<mapsto> P\<lparr>current := cur\<rparr>)) \<and>
     larges s' = larges s \<and> zeroed s' = zeroed s \<and>
     (\<forall>a\<in>set ns. map_option last_ptr (nodes s' a) = map_option last_ptr (nodes s a)) \<and>
     map_option last_ptr (nodes s' q) = Some (q + 32 + n) \<and>
     unat (q + 32) = unat q + 32 \<and> unat (q + 32 + n) = unat q + 32 + unat n"

lemma alloc_block_effect:
  assumes inv: "pool_inv s pool ns ps rs" and env: "env_ok e" and n: "unat n + 32 \<le> ps"
  shows "mp_alloc_block e pool n s = Some (0, s) \<and> (\<exists>k. unat k = ps \<and> memalign e s MP_ALIGNMENT k = 0) \<or>
    (\<exists>q s'. mp_alloc_block e pool n s = Some (q + 32, s') \<and> block_added s pool ns ps n q s' \<and>
       pool_inv s' pool (ns @ [q]) ps ((unat (q + 32), unat n) # rs))"
proof -
  obtain P where P: "pools s pool = Some P" "current P \<in> set ns"
    using inv by (auto simp: pool_inv_def)
  have hd: "ns = head pool # tl ns" using inv P(2) by (cases ns) (auto simp: pool_inv_def)
  have ne: "ns \<noteq> []" using P(2) by auto
  from hd obtain H where H: "nodes s (head pool) = Some H" "unat (end_ptr H) = unat (head pool) + ps"
    using inv by (metis (no_types, lifting) list.set_intros(1) node_ok_def pool_inv_def)
  let ?k = "end_ptr H - head pool"
  have k: "unat ?k = ps" using H(2) by (subst unat_sub64) (auto simp: word_le_nat_alt)
  obtain p where p: "memalign e s MP_ALIGNMENT ?k = p" by simp
  show ?thesis
  proof (cases "p = 0")
    case True
    then show ?thesis using k p by (auto simp: mp_alloc_block_def H)
  next
    case False
    have fresh: "blocks s p = None" "unat p mod 32 = 0" "unat p + ps < 18446744073709551616"
      using env_ok_memalign [OF env p False] k by simp_all
    have p32: "unat (p + 32) = unat p + 32"
      using fresh(3) n by (subst unat_add64) auto
    then have p32: "unat (p + 32) = unat p + 32"
      using fresh(3) n by (subst unat_add64) auto
    let ?m = "p + 32"
    obtain j where j: "unat p = 32 * j" using fresh(2) by (auto elim: dvdE)
    moreover have "32 * j < 18446744073709551553"
      using fresh(3) n unfolding j by presburger
    ultimately have "unat (mp_align_ptr ?m MP_ALIGNMENT) = unat ?m"
      using p32 by (subst unat_mp_align_ptr) auto
    then have m: "mp_align_ptr (p + sizeof_node) MP_ALIGNMENT = ?m"
      by (simp add: sizeof_node_def word_unat_eq_iff)
    have far: "far (unat p, ps) (unat a, ps)" if "a \<in> set ns" for a
      using far_live [OF inv env p False that, of "unat a" ps] k by simp
    have notin: "p \<notin> set ns" "p \<noteq> pool"
      using far [of p] n fresh(1) inv by (auto simp: far_def pool_inv_def)
    let ?N = "\<lparr>last_ptr = ?m + n, end_ptr = p + ?k, next_node = 0, failed = 0\<rparr>"
    let ?s2 = "take_block p ?k s\<lparr>nodes := (nodes s)(p \<mapsto> ?N)\<rparr>"
    have s2: "pool_inv ?s2 pool ns ps rs"
      by (rule pool_inv_fresh [OF inv notin fresh(1)])
    obtain as bs where sp: "ns = as @ current P # bs" "chain (nodes ?s2) (current P) (current P # bs)"
      using chain_from [of "nodes ?s2" "head pool" ns "current P"] s2 P by (auto simp: pool_inv_def)
    from fail_loop_spec [OF sp(2), of "current P"] obtain cur h where f:
      "fail_loop (current P) (current P) ?s2 = Some (last ns, cur, ?s2\<lparr>nodes := h\<rparr>)"
      "same_nodes (nodes ?s2) h" "cur = current P \<or> cur \<in> set bs"
      by (auto simp: sp(1))
    let ?s3 = "?s2\<lparr>nodes := h\<rparr>"
    have s3: "pool_inv ?s3 pool ns ps rs" by (rule pool_inv_same_nodes [OF s2 f(2)])
    have cur: "cur \<in> set (ns @ [p])" "cur \<noteq> 0"
      using f(3) sp s3 chain_nonzero [of h "head pool" ns] by (auto simp: pool_inv_def)
    obtain N where N: "h p = Some N" "next_node N = 0" "last_ptr N = ?m + n" "end_ptr N = p + ?k"
      using same_nodes_node [OF f(2), of p ?N] by auto
    obtain L where L: "h (last ns) = Some L"
      using s3 last_in [OF ne] unfolding pool_inv_def node_ok_def by force
    have mn: "unat (?m + n) = unat p + 32 + unat n" "unat (p + ?k) = unat p + ps"
      using p32 n fresh(3) k by (subst unat_add64; simp)+
    have okp: "node_ok (nodes ?s3) ps p"
      using N mn n by (simp add: node_ok_def)
    let ?s4 = "?s3\<lparr>nodes := h(last ns \<mapsto> L\<lparr>next_node := p\<rparr>), pools := (pools s)(pool \<mapsto> P\<lparr>current := cur\<rparr>)\<rparr>"
    have s4: "pool_inv ?s4 pool (ns @ [p]) ps rs"
      using pool_inv_link [OF s3 notin(1) False notin(2), of N ?k L cur P] N okp far L cur P k
      by (simp add: take_block_def)
    have "last ns \<noteq> p" using notin(1) last_in [OF ne] by auto
    then have Np: "nodes ?s4 p = Some N" by (simp add: N)
    have code: "mp_alloc_block e pool n s = Some (?m, ?s4)"
      using False H P f(1) m cur(2) L p
      by (simp add: mp_alloc_block_def Let_def upd_node_def upd_pool_def take_block_def)
    have new: "in_node (nodes ?s4) p (unat ?m, unat n)"
      using Np N(3) mn p32 by (simp add: in_node_def)
    have "far (unat ?m, unat n) r" if "r \<in> set rs" for r
    proof -
      from that s3 obtain c where c: "c \<in> set ns" "in_node (nodes ?s3) c r" "node_ok (nodes ?s3) ps c"
        unfolding pool_inv_def by blast
      from in_node_span [OF c(2,3)] far [OF c(1)] p32 n show ?thesis by (auto simp: far_def)
    qed
    with s4 new have "pool_inv ?s4 pool (ns @ [p]) ps ((unat ?m, unat n) # rs)"
      unfolding pool_inv_def by simp
    moreover have "block_added s pool ns ps n p ?s4"
    proof -
      have "map_option last_ptr (nodes ?s4 a) = map_option last_ptr (nodes s a)" if "a \<in> set ns" for a
      proof -
        from s2 that obtain x where x: "nodes ?s2 a = Some x" unfolding pool_inv_def node_ok_def by blast
        have "a \<noteq> p" using that notin(1) by auto
        with x same_nodes_node [OF f(2) x] L show ?thesis by auto
      qed
      moreover have "map_option last_ptr (nodes ?s4 p) = Some (p + 32 + n)" using Np N(3) by (simp only: option.map)
      ultimately show ?thesis
        using notin(1) fresh(1,2) k P(1) p32 mn(1) by (auto simp: block_added_def take_block_def)
    qed
    ultimately show ?thesis using code by blast
  qed
qed

lemma alloc_block_spec:
  assumes "pool_inv s pool ns ps rs" "env_ok e" "unat n + 32 \<le> ps"
  shows "mp_alloc_block e pool n s = Some (0, s) \<or>
    (\<exists>m s' ns'. mp_alloc_block e pool n s = Some (m, s') \<and> m \<noteq> 0 \<and> unat m mod 32 = 0 \<and>
       pool_inv s' pool ns' ps ((unat m, unat n) # rs))"
  using alloc_block_effect [OF assms]
proof (elim disjE exE conjE)
  fix q s'
  assume "mp_alloc_block e pool n s = Some (q + 32, s')" and b: "block_added s pool ns ps n q s'"
    and "pool_inv s' pool (ns @ [q]) ps ((unat (q + 32), unat n) # rs)"
  moreover have "unat (q + 32) mod 32 = 0" "q + 32 \<noteq> 0"
    using b by (auto simp: block_added_def simp flip: unat_eq_zero)
  ultimately show ?thesis by (intro disjI2 exI [of _ "q + 32"] exI [of _ s'] exI [of _ "ns @ [q]"]) simp
qed simp

end
