(* ===== verification/Mmpool_Correct.thy ===== *)
theory Mmpool_Correct
  imports Mmpool_Inv
begin

text \<open>
  The operations of the memory pool against its invariant: allocation with and without alignment,
  creation, reset, destruction, large blocks; and the properties of the component.
\<close>

section \<open>Aligned first fit\<close>

definition fits :: "(u64 \<rightharpoonup> mp_node_s) \<Rightarrow> u64 \<Rightarrow> bool" where
  "fits h a \<longleftrightarrow> (\<exists>x. h a = Some x \<and> last_ptr x \<le> mp_align_ptr (last_ptr x) MP_ALIGNMENT \<and>
     mp_align_ptr (last_ptr x) MP_ALIGNMENT \<le> end_ptr x)"

lemma alloc_loop_spec:
  assumes "chain (nodes s) p (p # ns)" "\<forall>a\<in>set (p # ns). fits (nodes s) a"
  shows "alloc_loop p n s = Some (None, s) \<or>
    (\<exists>a\<in>set (p # ns). \<exists>x. nodes s a = Some x \<and>
       unat (mp_align_ptr (last_ptr x) MP_ALIGNMENT) + unat n \<le> unat (end_ptr x) \<and>
       alloc_loop p n s = Some (Some (mp_align_ptr (last_ptr x) MP_ALIGNMENT),
         bump a (mp_align_ptr (last_ptr x) MP_ALIGNMENT + n) s))"
  using assms
proof (induction ns arbitrary: p)
  case Nil
  then obtain x where x: "nodes s p = Some x" "next_node x = 0"
    "mp_align_ptr (last_ptr x) MP_ALIGNMENT \<le> end_ptr x"
    by (auto simp: fits_def)
  then show ?case
    using unat_sub64 [OF x(3)]
    by (subst alloc_loop.simps, subst (2) alloc_loop.simps)
      (auto simp: upd_node_def bump_def word_le_nat_alt Let_def)
next
  case (Cons q ns)
  then obtain x where x: "nodes s p = Some x" "next_node x = q"
    "mp_align_ptr (last_ptr x) MP_ALIGNMENT \<le> end_ptr x" "q \<noteq> 0" "chain (nodes s) q (q # ns)"
    by (auto simp: fits_def)
  then show ?case
    using unat_sub64 [OF x(3)] Cons.IH [OF x(5)] Cons.prems(2)
    by (subst alloc_loop.simps, subst (2) alloc_loop.simps)
      (auto simp: upd_node_def bump_def word_le_nat_alt Let_def)
qed

lemma mp_align_ptr_multiple: "unat (mp_align_ptr p MP_ALIGNMENT) mod 32 = 0"
proof -
  have "mp_align_ptr p MP_ALIGNMENT = push_bit 5 (drop_bit 5 (p + 31))"
  proof -
    have "(p + 31) AND NOT 31 = (p + 31) AND NOT (mask 5)" by (simp add: mask_eq_exp_minus_1)
    also have "\<dots> = push_bit 5 (drop_bit 5 (p + 31))"
      by (simp add: bit_eq_iff bit_simps) (auto simp: not_less)
    finally show ?thesis by (simp add: mp_align_ptr_def MP_ALIGNMENT_def)
  qed
  moreover have "unat (drop_bit 5 (p + 31)) * 32 < 18446744073709551616"
    using unat_less_pow64 [of "p + 31"] by (simp add: unat_drop_bit less_mult_imp_div_less del: unat_less_pow64)
  ultimately show ?thesis by (simp add: unat_push5)
qed

text \<open>What a call that serves a request of \<open>n\<close> bytes from the pool does.\<close>

definition served :: "u64 \<times> mp_heap \<Rightarrow> u64 \<Rightarrow> u64 list \<Rightarrow> nat \<Rightarrow> (nat \<times> nat) list \<Rightarrow> nat \<Rightarrow> mp_heap \<Rightarrow> bool" where
  "served r pool ns ps rs n s \<longleftrightarrow> (case r of (m, s') \<Rightarrow>
     (m = 0 \<and> s' = s) \<or> (m \<noteq> 0 \<and> (\<exists>ns'. pool_inv s' pool ns' ps ((unat m, n) # rs))))"

lemma pool_current:
  assumes "pool_inv s pool ns ps rs" "pools s pool = Some P"
  shows "\<exists>bs. chain (nodes s) (current P) (current P # bs) \<and> set (current P # bs) \<subseteq> set ns"
  using chain_from [of "nodes s" "head pool" ns "current P"] assms by (fastforce simp: pool_inv_def)

lemma mp_nalloc_spec:
  assumes inv: "pool_inv s pool ns ps rs" and env: "env_ok e" and P: "pools s pool = Some P"
    and n: "n \<le> max_size P"
  shows "\<exists>r. mp_nalloc e pool n s = Some r \<and> served r pool ns ps rs (unat n) s"
proof -
  have n32: "unat n + 32 \<le> ps" using inv P n by (auto simp: pool_inv_def word_le_nat_alt)
  from pool_current [OF inv P] obtain bs where
    bs: "chain (nodes s) (current P) (current P # bs)" "set (current P # bs) \<subseteq> set ns" by auto
  have "\<forall>a\<in>set (current P # bs). node_ok (nodes s) ps a"
    using inv bs(2) by (auto simp: pool_inv_def)
  from nalloc_loop_spec [OF bs(1) this, of n] show ?thesis
  proof
    assume "nalloc_loop (current P) n s = Some (None, s)"
    with alloc_block_spec [OF inv env n32] P n show ?thesis
      by (auto simp: mp_nalloc_def served_def)
  next
    assume "\<exists>a\<in>set (current P # bs). \<exists>x. nodes s a = Some x \<and>
      unat (last_ptr x) + unat n \<le> unat (end_ptr x) \<and>
      nalloc_loop (current P) n s = Some (Some (last_ptr x), bump a (last_ptr x + n) s)"
    then obtain a x where a: "a \<in> set ns" "nodes s a = Some x"
      "unat (last_ptr x) + unat n \<le> unat (end_ptr x)"
      "nalloc_loop (current P) n s = Some (Some (last_ptr x), bump a (last_ptr x + n) s)"
      using bs(2) by blast
    have "32 \<le> unat (last_ptr x)" using inv a(1,2) by (auto simp: pool_inv_def node_ok_def)
    then have "last_ptr x \<noteq> 0" by auto
    with pool_inv_bump [OF inv a(1,2) le_refl a(3)] a(4) P n show ?thesis
      by (auto simp: mp_nalloc_def served_def)
  qed
qed

lemma mp_alloc_spec:
  assumes inv: "pool_inv s pool ns ps rs" and env: "env_ok e" and P: "pools s pool = Some P"
    and n: "n \<le> max_size P" and fit: "\<forall>a\<in>set ns. fits (nodes s) a"
  shows "\<exists>r. mp_alloc e pool n s = Some r \<and> served r pool ns ps rs (unat n) s \<and> unat (fst r) mod 32 = 0"
proof -
  have n32: "unat n + 32 \<le> ps" using inv P n by (auto simp: pool_inv_def word_le_nat_alt)
  from pool_current [OF inv P] obtain bs where
    bs: "chain (nodes s) (current P) (current P # bs)" "set (current P # bs) \<subseteq> set ns" by auto
  have "\<forall>a\<in>set (current P # bs). fits (nodes s) a" using fit bs(2) by auto
  from alloc_loop_spec [OF bs(1) this, of n] show ?thesis
  proof
    assume "alloc_loop (current P) n s = Some (None, s)"
    with alloc_block_spec [OF inv env n32] P n show ?thesis
      by (subst mp_alloc_eq) (auto simp: served_def)
  next
    assume "\<exists>a\<in>set (current P # bs). \<exists>x. nodes s a = Some x \<and>
       unat (mp_align_ptr (last_ptr x) MP_ALIGNMENT) + unat n \<le> unat (end_ptr x) \<and>
       alloc_loop (current P) n s = Some (Some (mp_align_ptr (last_ptr x) MP_ALIGNMENT),
         bump a (mp_align_ptr (last_ptr x) MP_ALIGNMENT + n) s)"
    then obtain a x where a: "a \<in> set ns" "nodes s a = Some x"
      "unat (mp_align_ptr (last_ptr x) MP_ALIGNMENT) + unat n \<le> unat (end_ptr x)"
      "alloc_loop (current P) n s = Some (Some (mp_align_ptr (last_ptr x) MP_ALIGNMENT),
         bump a (mp_align_ptr (last_ptr x) MP_ALIGNMENT + n) s)"
      using bs(2) by blast
    have le: "unat (last_ptr x) \<le> unat (mp_align_ptr (last_ptr x) MP_ALIGNMENT)"
      using fit a(1,2) by (auto simp: fits_def word_le_nat_alt)
    have "32 \<le> unat (last_ptr x)" using inv a(1,2) by (auto simp: pool_inv_def node_ok_def)
    with le have "mp_align_ptr (last_ptr x) MP_ALIGNMENT \<noteq> 0" by auto
    with pool_inv_bump [OF inv a(1,2) le a(3)] a(4) P n mp_align_ptr_multiple show ?thesis
      by (subst mp_alloc_eq) (auto simp: served_def)
  qed
qed

section \<open>Creation, reset and destruction\<close>

lemma mp_create_pool_inv:
  assumes "env_ok e" "mp_create_pool e n 0 s = (p, s')" "p \<noteq> 0" "unat n + 56 < 18446744073709551616"
  shows "pool_inv s' p [head p] (unat n + 32) []"
proof -
  let ?k = "n + sizeof_pool + sizeof_node"
  have "memalign e s MP_ALIGNMENT ?k = p"
    using assms(2,3) by (auto simp: mp_create_pool_def Let_def split: if_splits)
  note q = this env_ok_memalign [OF assms(1) this assms(3)]
  have k: "unat ?k = unat n + 56"
  proof -
    have "?k = n + 56" by (simp add: sizeof_pool_def sizeof_node_def)
    then show ?thesis using unat_add64 [of n 56] assms(4) by (simp only:) simp
  qed
  have h: "unat (head p) = unat p + 24" using q(4) k by (simp add: head_def sizeof_pool_def unat_add64)
  have f: "unat (p + sizeof_pool + sizeof_node) = unat p + 56"
  proof -
    have "p + sizeof_pool + sizeof_node = p + 56" by (simp add: sizeof_pool_def sizeof_node_def)
    then show ?thesis using q(4) k unat_add64 [of p 56] by (simp only:) simp
  qed
  have g: "unat (p + sizeof_pool + sizeof_node + n) = unat p + 56 + unat n"
    using q(4) k f by (subst unat_add64) auto
  have "s' = take_block p ?k s\<lparr>pools := (pools s)(p \<mapsto> \<lparr>
                 max_size = (if n < MP_MAX_ALLOC_FROM_POOL then n else MP_MAX_ALLOC_FROM_POOL),
                 current = head p, large = 0\<rparr>),
             nodes := (nodes s)(head p \<mapsto> \<lparr>last_ptr = p + sizeof_pool + sizeof_node,
               end_ptr = p + sizeof_pool + sizeof_node + n, next_node = 0, failed = 0\<rparr>)\<rparr>"
    using assms(2,3) q(1) by (auto simp: mp_create_pool_def Let_def take_block_def split: if_splits)
  moreover have "head p \<noteq> 0" using h by auto
  moreover have "unat (if n < MP_MAX_ALLOC_FROM_POOL then n else MP_MAX_ALLOC_FROM_POOL) \<le> unat n"
    by (auto simp: word_less_nat_alt)
  ultimately show ?thesis
    using assms(3) h f g k by (simp add: pool_inv_def node_ok_def take_block_def)
qed


text \<open>The list of large blocks: each record and the block it holds (0 for none).\<close>

fun lchain :: "(u64 \<rightharpoonup> mp_large_s) \<Rightarrow> u64 \<Rightarrow> (u64 \<times> u64) list \<Rightarrow> bool" where
  "lchain h l [] \<longleftrightarrow> l = 0"
| "lchain h l ((a, b) # ls) \<longleftrightarrow> l = a \<and> a \<noteq> 0 \<and> (\<exists>x. h a = Some x \<and> alloc x = b \<and> lchain h (next_large x) ls)"

definition held :: "(u64 \<times> u64) list \<Rightarrow> u64 list" where
  "held ls = filter (\<lambda>b. b \<noteq> 0) (map snd ls)"

lemma held_simps [simp]:
  "held [] = []" "held ((a, b) # ls) = (if b \<noteq> 0 then b # held ls else held ls)"
  by (simp_all add: held_def)

definition larges_inv :: "mp_heap \<Rightarrow> u64 \<Rightarrow> u64 list \<Rightarrow> (u64 \<times> u64) list \<Rightarrow> bool" where
  "larges_inv s pool ns ls \<longleftrightarrow> (\<exists>P. pools s pool = Some P \<and> lchain (larges s) (large P) ls) \<and>
     distinct (map fst ls) \<and> distinct (held ls) \<and>
     (\<forall>b\<in>set (held ls). b \<in> dom (blocks s) \<and> b \<noteq> pool \<and> b \<notin> set (tl ns))"

lemma sys_free_block: "p \<noteq> 0 \<Longrightarrow> p \<in> dom (blocks s) \<Longrightarrow>
  sys_free p s = Some (s\<lparr>blocks := blocks s |` (- {p})\<rparr>)"
  by (auto simp: sys_free_def restrict_map_def fun_eq_iff)

lemma free_larges_spec:
  assumes "lchain (larges s) l ls" "distinct (held ls)" "set (held ls) \<subseteq> dom (blocks s)"
  shows "free_larges l s = Some (s\<lparr>blocks := blocks s |` (- set (held ls))\<rparr>)"
  using assms
proof (induction ls arbitrary: l s)
  case Nil
  then show ?case by (subst free_larges.simps) simp
next
  case (Cons ab ls)
  obtain a b where ab: "ab = (a, b)" by force
  with Cons.prems obtain x where x: "l = a" "a \<noteq> 0" "larges s a = Some x" "alloc x = b"
    "lchain (larges s) (next_large x) ls" by auto
  let ?s = "if b \<noteq> 0 then s\<lparr>blocks := blocks s |` (- {b})\<rparr> else s"
  have "(if alloc x \<noteq> 0 then sys_free (alloc x) s else Some s) = Some ?s"
    using Cons.prems(3) x(4) by (auto simp: ab sys_free_block)
  moreover have "free_larges (next_large x) ?s = Some (?s\<lparr>blocks := blocks ?s |` (- set (held ls))\<rparr>)"
    using Cons.prems x(5) by (intro Cons.IH) (auto simp: ab split: if_splits)
  ultimately show ?case using x
    by (subst free_larges.simps) (auto simp: ab restrict_map_def fun_eq_iff)
qed

lemma free_nodes_spec:
  assumes "chain (nodes s) h ns" "distinct ns" "set ns \<subseteq> dom (blocks s)"
  shows "free_nodes h s = Some (s\<lparr>blocks := blocks s |` (- set ns), nodes := nodes s |` (- set ns)\<rparr>)"
  using assms
proof (induction ns arbitrary: h s)
  case Nil
  then show ?case by (subst free_nodes.simps) simp
next
  case (Cons a ns)
  then obtain x where x: "h = a" "a \<noteq> 0" "nodes s a = Some x" "chain (nodes s) (next_node x) ns" by auto
  let ?s = "s\<lparr>nodes := (nodes s)(a := None), blocks := blocks s |` (- {a})\<rparr>"
  have "sys_free a (s\<lparr>nodes := (nodes s)(a := None)\<rparr>) = Some ?s"
    using Cons.prems(3) x(2) by (simp add: sys_free_block)
  moreover have "free_nodes (next_node x) ?s =
      Some (?s\<lparr>blocks := blocks ?s |` (- set ns), nodes := nodes ?s |` (- set ns)\<rparr>)"
  proof (rule Cons.IH)
    have "a \<notin> set ns" using Cons.prems(2) by simp
    from chain_upd [OF this] x(4) show "chain (nodes ?s) (next_node x) ns" by simp
  qed (use Cons.prems in auto)
  ultimately show ?case using x
    by (subst free_nodes.simps) (auto simp: restrict_map_def fun_eq_iff)
qed

lemma mp_destory_pool_spec:
  assumes "pool_inv s pool ns ps rs" "larges_inv s pool ns ls"
  shows "\<exists>s'. mp_destory_pool pool s = Some s' \<and>
    blocks s' = blocks s |` (- (insert pool (set (tl ns)) \<union> set (held ls)))"
proof -
  obtain P where P: "pools s pool = Some P" "lchain (larges s) (large P) ls"
    using assms(2) by (auto simp: larges_inv_def)
  have ls: "distinct (held ls)" "set (held ls) \<subseteq> dom (blocks s)" "pool \<notin> set (held ls)"
    "set (tl ns) \<inter> set (held ls) = {}"
    using assms(2) unfolding larges_inv_def by blast+
  let ?s1 = "s\<lparr>blocks := blocks s |` (- set (held ls))\<rparr>"
  have f1: "free_larges (large P) s = Some ?s1" by (rule free_larges_spec [OF P(2) ls(1,2)])
  have c: "chain (nodes s) (head pool) ns" "ns \<noteq> []" "distinct ns" "pool \<noteq> 0" "pool \<notin> set (tl ns)"
    "pool \<in> dom (blocks s)" "set (tl ns) \<subseteq> dom (blocks s)"
    using assms(1) unfolding pool_inv_def by auto
  then obtain H where H: "nodes s (head pool) = Some H" "chain (nodes s) (next_node H) (tl ns)"
    by (cases ns) auto
  let ?s2 = "?s1\<lparr>blocks := blocks ?s1 |` (- set (tl ns)), nodes := nodes ?s1 |` (- set (tl ns))\<rparr>"
  have f2: "free_nodes (next_node H) ?s1 = Some ?s2"
    by (rule free_nodes_spec) (use H(2) c(3,7) ls(4) distinct_tl in auto)
  let ?s3 = "?s2\<lparr>pools := (pools s)(pool := None), nodes := (nodes ?s2)(head pool := None)\<rparr>"
  have "pool \<in> dom (blocks ?s3)" using c(5,6) ls(3) by auto
  from sys_free_block [OF c(4) this]
  have "mp_destory_pool pool s = Some (?s3\<lparr>blocks := blocks ?s3 |` (- {pool})\<rparr>)"
    using f2 by (simp add: mp_destory_pool_def P(1) f1 H(1))
  then show ?thesis by (auto simp: restrict_map_def fun_eq_iff)
qed

lemma reset_nodes_spec:
  assumes "chain (nodes s) h ns" "distinct ns"
  shows "reset_nodes h s = Some (s\<lparr>nodes := (\<lambda>a. if a \<in> set ns
    then map_option (\<lambda>x. x\<lparr>last_ptr := a + sizeof_node\<rparr>) (nodes s a) else nodes s a)\<rparr>)"
  using assms
proof (induction ns arbitrary: h s)
  case Nil
  then show ?case by (subst reset_nodes.simps) simp
next
  case (Cons a ns)
  then obtain x where x: "h = a" "a \<noteq> 0" "nodes s a = Some x" "chain (nodes s) (next_node x) ns" by auto
  have na: "a \<notin> set ns" using Cons.prems(2) by simp
  let ?s = "s\<lparr>nodes := (nodes s)(a \<mapsto> x\<lparr>last_ptr := a + sizeof_node\<rparr>)\<rparr>"
  have "chain (nodes ?s) (next_node x) ns" using chain_upd [OF na] x(4) by simp
  from Cons.IH [OF this] Cons.prems(2) x na show ?case
    by (subst reset_nodes.simps) (auto simp: upd_node_def fun_eq_iff)
qed

lemma mp_reset_pool_spec:
  assumes inv: "pool_inv s pool ns ps rs" and l: "larges_inv s pool ns ls"
  shows "\<exists>s'. mp_reset_pool pool s = Some s' \<and> pool_inv s' pool ns ps [] \<and> larges_inv s' pool ns [] \<and>
    blocks s' = blocks s |` (- set (held ls)) \<and>
    (\<forall>a\<in>set ns. \<exists>x. nodes s' a = Some x \<and> unat (last_ptr x) = unat a + 32) \<and>
    (\<exists>P. pools s pool = Some P \<and> pools s' pool = Some (P\<lparr>large := 0\<rparr>))"
proof -
  obtain P where P: "pools s pool = Some P" "lchain (larges s) (large P) ls"
    using l by (auto simp: larges_inv_def)
  have ls: "distinct (held ls)" "set (held ls) \<subseteq> dom (blocks s)" "pool \<notin> set (held ls)"
    "set (tl ns) \<inter> set (held ls) = {}"
    using l unfolding larges_inv_def by blast+
  let ?s1 = "s\<lparr>blocks := blocks s |` (- set (held ls)), pools := (pools s)(pool \<mapsto> P\<lparr>large := 0\<rparr>)\<rparr>"
  let ?h = "\<lambda>a. if a \<in> set ns then map_option (\<lambda>x. x\<lparr>last_ptr := a + sizeof_node\<rparr>) (nodes s a) else nodes s a"
  let ?s2 = "?s1\<lparr>nodes := ?h\<rparr>"
  have c: "chain (nodes s) (head pool) ns" "distinct ns" using inv by (simp_all add: pool_inv_def)
  have "reset_nodes (head pool) ?s1 = Some ?s2"
    using reset_nodes_spec [of ?s1 "head pool" ns] c by (simp cong: if_cong)
  then have "mp_reset_pool pool s = Some ?s2"
    by (simp add: mp_reset_pool_def P(1) free_larges_spec [OF P(2) ls(1,2)] upd_pool_def)
  moreover have "chain ?h (head pool) ns"
    by (rule chain_same_next [of ns ?h "nodes s"]) (use c in \<open>auto simp: option.map_comp comp_def\<close>)
  moreover have n: "node_ok ?h ps a \<and> (\<exists>x. ?h a = Some x \<and> unat (last_ptr x) = unat a + 32)" if "a \<in> set ns" for a
  proof -
    have "node_ok (nodes s) ps a" using inv that by (simp add: pool_inv_def)
    then obtain x where x: "nodes s a = Some x" "unat (end_ptr x) = unat a + ps"
      "unat a + 32 \<le> unat (end_ptr x)"
      by (auto simp: node_ok_def)
    have "unat (a + sizeof_node) = unat a + 32"
      using x(3) unat_less_pow64 [of "end_ptr x"] by (simp add: sizeof_node_def unat_add64 del: unat_less_pow64)
    with x that show ?thesis by (simp add: node_ok_def)
  qed
  moreover have "\<forall>a\<in>set (tl ns). blocks ?s2 a = blocks s a" "blocks ?s2 pool = blocks s pool"
    using ls(3,4) by (auto simp: restrict_map_def)
  ultimately have "pool_inv ?s2 pool ns ps []"
    using inv P(1) unfolding pool_inv_def by simp
  moreover have "larges_inv ?s2 pool ns []" by (simp add: larges_inv_def)
  moreover have "\<forall>a\<in>set ns. \<exists>x. nodes ?s2 a = Some x \<and> unat (last_ptr x) = unat a + 32"
    using n by simp
  ultimately show ?thesis using \<open>mp_reset_pool pool s = Some ?s2\<close> P(1) by auto
qed

lemma lchain_upd: "a \<notin> fst ` set ls \<Longrightarrow> lchain (h(a := x)) l ls = lchain h l ls"
  by (induction h l ls rule: lchain.induct) auto

definition drop_block :: "u64 \<Rightarrow> (u64 \<times> u64) list \<Rightarrow> (u64 \<times> u64) list" where
  "drop_block b ls = map (\<lambda>(a, c). (a, if c = b then 0 else c)) ls"

lemma held_nonzero: "b \<in> set (held ls) \<Longrightarrow> b \<noteq> 0"
  by (simp add: held_def)

lemma free_loop_spec:
  assumes "lchain (larges s) l ls" "distinct (map fst ls)" "distinct (held ls)"
    "set (held ls) \<subseteq> dom (blocks s)" "b \<in> set (held ls)"
  shows "\<exists>h. free_loop l b s = Some (s\<lparr>blocks := blocks s |` (- {b}), larges := h\<rparr>) \<and>
    lchain h l (drop_block b ls) \<and> (\<forall>a. a \<notin> fst ` set ls \<longrightarrow> h a = larges s a)"
  using assms
proof (induction ls arbitrary: l)
  case (Cons ac ls)
  obtain a c where ac: "ac = (a, c)" by force
  with Cons.prems obtain x where x: "l = a" "a \<noteq> 0" "larges s a = Some x" "alloc x = c"
    "lchain (larges s) (next_large x) ls" by auto
  have na: "a \<notin> fst ` set ls" using Cons.prems(2) by (simp add: ac)
  show ?case
  proof (cases "c = b")
    case True
    have b: "b \<noteq> 0" "b \<in> dom (blocks s)" "b \<notin> set (held ls)"
      using Cons.prems(3-5) True held_nonzero [OF Cons.prems(5)] by (auto simp: ac split: if_splits)
    let ?h = "(larges s)(a \<mapsto> x\<lparr>alloc := 0\<rparr>)"
    have "drop_block b ls = ls"
      using b(1,3) by (force simp: drop_block_def held_def intro!: map_idI)
    moreover have "free_loop l b s = Some (s\<lparr>blocks := blocks s |` (- {b}), larges := ?h\<rparr>)"
      using x True b by (subst free_loop.simps) (simp add: sys_free_block upd_large_def)
    moreover have "lchain ?h l (drop_block b (ac # ls))"
      using x na True lchain_upd [OF na, of "larges s"] calculation(1)
      by (simp add: ac drop_block_def)
    moreover have "\<forall>e. e \<notin> fst ` set (ac # ls) \<longrightarrow> ?h e = larges s e" by (simp add: ac)
    ultimately show ?thesis by blast
  next
    case False
    have "b \<in> set (held ls)" "set (held ls) \<subseteq> dom (blocks s)" "distinct (held ls)"
      "distinct (map fst ls)"
      using Cons.prems False by (auto simp: ac split: if_splits)
    with Cons.IH [OF x(5)] obtain h where h:
      "free_loop (next_large x) b s = Some (s\<lparr>blocks := blocks s |` (- {b}), larges := h\<rparr>)"
      "lchain h (next_large x) (drop_block b ls)" "\<forall>a. a \<notin> fst ` set ls \<longrightarrow> h a = larges s a" by auto
    with x na False show ?thesis
      by (intro exI [of _ h], subst free_loop.simps) (auto simp: ac drop_block_def)
  qed
qed simp

lemma held_drop: "held (drop_block b ls) = filter (\<lambda>c. c \<noteq> b) (held ls)"
  by (induction ls) (auto simp: drop_block_def held_def)

lemma mp_free_spec:
  assumes "larges_inv s pool ns ls" "b \<in> set (held ls)"
  shows "\<exists>s'. mp_free pool b s = Some s' \<and> blocks s' = blocks s |` (- {b}) \<and>
    larges_inv s' pool ns (drop_block b ls) \<and> pools s' = pools s \<and> nodes s' = nodes s"
proof -
  obtain P where P: "pools s pool = Some P" "lchain (larges s) (large P) ls"
    using assms(1) by (auto simp: larges_inv_def)
  have ls: "distinct (map fst ls)" "distinct (held ls)" "set (held ls) \<subseteq> dom (blocks s)"
    using assms(1) unfolding larges_inv_def by blast+
  from free_loop_spec [OF P(2) ls assms(2)] obtain h where
    "free_loop (large P) b s = Some (s\<lparr>blocks := blocks s |` (- {b}), larges := h\<rparr>)"
    "lchain h (large P) (drop_block b ls)" by auto
  moreover have "map fst (drop_block b ls) = map fst ls"
    by (simp add: drop_block_def comp_def case_prod_beta)
  ultimately show ?thesis using P assms(1)
    by (auto simp: mp_free_def larges_inv_def held_drop)
qed

lemma mp_alloc_no_result:
  assumes "mp_alloc e pool n s = Some r" "\<forall>s n. sys_malloc e s n \<noteq> 0"
    "pools s pool = Some x" "large x = 0" "max_size x < 16" "max_size x < n"
  shows False
  using assms(2-)
proof (induction arbitrary: x rule: mp_alloc.raw_induct [OF _ assms(1)])
  case (1 f e pool n s r)
  let ?p = "sys_malloc e s n"
  have "large_begin e pool n s = Some (Inr ?p, take_block ?p n s)"
    using 1(3-5) by (simp add: large_begin_def Let_def take_block_def reuse_loop.simps)
  then obtain q where "f e pool sizeof_large (take_block ?p n s) = Some q"
    using 1(2,4,7) by (auto simp: not_le [symmetric] Option.bind_eq_Some_conv)
  from 1(1) [OF this 1(3)] 1(4-6) show False
    by (auto simp: take_block_def sizeof_large_def)
qed

section \<open>Properties\<close>

text \<open>An allocator that serves one request, of 32-byte alignment, at address 4096.\<close>

definition one_block_env :: mp_env where
  "one_block_env = \<lparr>memalign = (\<lambda>s a n. if dom (blocks s) = {} \<and> a = 32 \<and> n < 1048576 then 4096 else 0),
     sys_malloc = (\<lambda>s n. 65536)\<rparr>"

lemma one_block_env_ok: "env_ok one_block_env"
  by (auto simp: env_ok_def one_block_env_def Let_def word_less_nat_alt far_def)

definition empty_heap :: mp_heap where
  "empty_heap = \<lparr>blocks = Map.empty, pools = Map.empty, nodes = Map.empty, larges = Map.empty, zeroed = []\<rparr>"

definition sample_pool :: mp_heap where
  "sample_pool = snd (mp_create_pool one_block_env 4096 0 empty_heap)"

lemma sample_pool_created: "mp_create_pool one_block_env 4096 0 empty_heap = (4096, sample_pool)"
  by (simp add: sample_pool_def mp_create_pool_def Let_def one_block_env_def empty_heap_def
      MP_ALIGNMENT_def sizeof_pool_def sizeof_node_def)

lemma sample_pool_inv: "pool_inv sample_pool 4096 [4120] 4128 []"
  using mp_create_pool_inv [OF one_block_env_ok sample_pool_created]
  by (simp add: head_def sizeof_pool_def)

lemma sample_pool_max: "\<exists>P. pools sample_pool 4096 = Some P \<and> max_size P = 4095"
  by (simp add: sample_pool_def mp_create_pool_def Let_def one_block_env_def empty_heap_def
      MP_ALIGNMENT_def sizeof_pool_def sizeof_node_def MP_MAX_ALLOC_FROM_POOL_def MP_PAGE_SIZE_def
      take_block_def)

text \<open>
  C4. \<open>mp_nalloc\<close> of a size the pool serves itself returns, and either fails leaving everything as
  it was or hands out bytes that lie inside the pool's own memory, outside every node header and
  disjoint from every region handed out before.
\<close>

theorem mp_nalloc_disjoint:
  assumes "pool_inv s pool ns ps rs" "env_ok e" "pools s pool = Some P" "n \<le> max_size P"
  shows "\<exists>m s'. mp_nalloc e pool n s = Some (m, s') \<and>
    (m = 0 \<and> s' = s \<or>
     m \<noteq> 0 \<and> (\<exists>ns'. pool_inv s' pool ns' ps ((unat m, unat n) # rs)) \<and>
       (\<forall>r\<in>set rs. unat m + unat n \<le> fst r \<or> fst r + snd r \<le> unat m))"
proof -
  from mp_nalloc_spec [OF assms] obtain m s' where
    "mp_nalloc e pool n s = Some (m, s')" "served (m, s') pool ns ps rs (unat n) s" by fastforce
  then show ?thesis by (auto simp: served_def pool_inv_def far_def)
qed

theorem mp_nalloc_disjoint_witness:
  "\<exists>m s'. mp_nalloc one_block_env 4096 100 sample_pool = Some (m, s') \<and>
    (m = 0 \<or> (\<exists>ns'. pool_inv s' 4096 ns' 4128 [(unat m, 100)]))"
proof -
  obtain P where "pools sample_pool 4096 = Some P" "max_size P = 4095" using sample_pool_max by blast
  with mp_nalloc_disjoint [OF sample_pool_inv one_block_env_ok, of P 100] show ?thesis by auto
qed

text \<open>
  \<open>mp_alloc\<close> gives the same guarantee, and 32-byte alignment, as long as rounding the \<open>last\<close> of
  each node up to a multiple of 32 stays within the node.
\<close>

theorem mp_alloc_aligned_disjoint:
  assumes "pool_inv s pool ns ps rs" "env_ok e" "pools s pool = Some P" "n \<le> max_size P"
    and "\<forall>a\<in>set ns. fits (nodes s) a"
  shows "\<exists>m s'. mp_alloc e pool n s = Some (m, s') \<and> unat m mod 32 = 0 \<and>
    (m = 0 \<and> s' = s \<or>
     m \<noteq> 0 \<and> (\<exists>ns'. pool_inv s' pool ns' ps ((unat m, unat n) # rs)) \<and>
       (\<forall>r\<in>set rs. unat m + unat n \<le> fst r \<or> fst r + snd r \<le> unat m))"
proof -
  from mp_alloc_spec [OF assms] obtain m s' where
    "mp_alloc e pool n s = Some (m, s')" "served (m, s') pool ns ps rs (unat n) s" "unat m mod 32 = 0"
    by fastforce
  then show ?thesis by (auto simp: served_def pool_inv_def far_def)
qed

lemma sample_pool_fits: "\<forall>a\<in>set [4120]. fits (nodes sample_pool) a"
  by (simp add: fits_def sample_pool_def mp_create_pool_def Let_def one_block_env_def empty_heap_def
      MP_ALIGNMENT_def sizeof_pool_def sizeof_node_def take_block_def mp_align_ptr_def head_def)

theorem mp_alloc_aligned_disjoint_witness:
  "\<exists>m s'. mp_alloc one_block_env 4096 100 sample_pool = Some (m, s') \<and> unat m mod 32 = 0 \<and>
    (m = 0 \<or> (\<exists>ns'. pool_inv s' 4096 ns' 4128 [(unat m, 100)]))"
proof -
  obtain P where "pools sample_pool 4096 = Some P" "max_size P = 4095" using sample_pool_max by blast
  with mp_alloc_aligned_disjoint [OF sample_pool_inv one_block_env_ok, of P 100] sample_pool_fits
  show ?thesis by fastforce
qed

text \<open>
  Without that condition \<open>mp_alloc\<close> hands out memory that is not the pool's: in a pool of 4096
  bytes, after a request of 4070 bytes, the subtraction \<open>end - m\<close> wraps around and every later
  request is served at 8 bytes past the end of the block the pool was made of.
\<close>

theorem mp_alloc_past_end:
  assumes "env_ok e" "mp_create_pool e 4096 0 s = (p, s0)" "p \<noteq> 0" "unat p < 2 ^ 63" "n \<le> 4095"
  shows "\<exists>s1 s2. mp_alloc e p 4070 s0 = Some (p + 64, s1) \<and> mp_alloc e p n s1 = Some (p + 4160, s2) \<and>
    blocks s2 p = Some 4152"
proof -
  have "memalign e s MP_ALIGNMENT 4152 = p"
    using assms(2,3) by (auto simp: mp_create_pool_def Let_def sizeof_pool_def sizeof_node_def split: if_splits)
  from env_ok_memalign [OF assms(1) this assms(3)] obtain j where
    p: "unat p = 32 * j" by (auto elim: dvdE)
  then have j: "32 * j < 9223372036854775808" using assms(4) by simp
  have "(32 * j + 56 + 31) div 32 * 32 = 32 * j + 64" "(32 * j + 4134 + 31) div 32 * 32 = 32 * j + 4160"
    by presburger+
  moreover have "unat (p + 56) = 32 * j + 56" "unat (p + 4134) = 32 * j + 4134"
    "unat (p + 64) = 32 * j + 64" "unat (p + 4160) = 32 * j + 4160"
    using p j by (simp_all add: unat_add64)
  ultimately have al: "mp_align_ptr (p + 56) MP_ALIGNMENT = p + 64"
    "mp_align_ptr (p + 4134) MP_ALIGNMENT = p + 4160"
    using j by (simp_all add: word_unat_eq_iff unat_mp_align_ptr)
  let ?N = "\<lparr>last_ptr = p + 56, end_ptr = p + 4152, next_node = 0, failed = 0\<rparr>"
  let ?P = "\<lparr>max_size = 4095, current = p + 24, large = 0\<rparr>"
  have s0: "pools s0 p = Some ?P" "nodes s0 (p + 24) = Some ?N" "blocks s0 p = Some 4152"
    using assms(2,3) by (auto simp: mp_create_pool_def Let_def sizeof_pool_def sizeof_node_def head_def
        take_block_def MP_MAX_ALLOC_FROM_POOL_def MP_PAGE_SIZE_def split: if_splits)
  have c: "4134 + p = p + 4134" by (rule add.commute)
  define s1 where "s1 = bump (p + 24) (p + 4134) s0"
  have e1: "mp_alloc e p 4070 s0 = Some (p + 64, s1)"
    using s0 al by (subst mp_alloc_eq, subst alloc_loop.simps)
      (simp add: s1_def upd_node_def bump_def c)
  have s1: "pools s1 p = Some ?P" "nodes s1 (p + 24) = Some (?N\<lparr>last_ptr := p + 4134\<rparr>)"
    "blocks s1 p = Some 4152"
    using s0 by (simp_all add: bump_def s1_def)
  have "n \<le> - 8"
    using assms(5) by (simp add: word_le_nat_alt)
  then have "mp_alloc e p n s1 = Some (p + 4160, bump (p + 24) (p + 4160 + n) s1)"
    using s1 al assms(5) by (subst mp_alloc_eq, subst alloc_loop.simps)
      (simp add: upd_node_def bump_def c Let_def)
  with e1 s1 show ?thesis by (auto simp: bump_def)
qed

theorem mp_alloc_past_end_witness:
  "\<exists>s1 s2. mp_alloc one_block_env 4096 4070 sample_pool = Some (4160, s1) \<and>
    mp_alloc one_block_env 4096 1000 s1 = Some (8256, s2) \<and> blocks s2 4096 = Some 4152"
  using mp_alloc_past_end [OF one_block_env_ok sample_pool_created, of 1000] by simp

text \<open>
  Destroying a pool ends and gives back exactly the blocks the pool holds: its own, those of
  its further nodes and those of its large allocations; no other block is released.
\<close>

theorem mp_destory_pool_releases_all:
  assumes "pool_inv s pool ns ps rs" "larges_inv s pool ns ls"
  shows "\<exists>s'. mp_destory_pool pool s = Some s' \<and>
    blocks s' = blocks s |` (- (insert pool (set (tl ns)) \<union> set (held ls)))"
  by (rule mp_destory_pool_spec [OF assms])

lemma sample_pool_larges: "larges_inv sample_pool 4096 [4120] []"
  by (simp add: larges_inv_def sample_pool_def mp_create_pool_def Let_def one_block_env_def empty_heap_def
      MP_ALIGNMENT_def sizeof_pool_def sizeof_node_def take_block_def)

lemma sample_pool_blocks: "blocks sample_pool = [4096 \<mapsto> 4152]"
  by (simp add: sample_pool_def mp_create_pool_def Let_def one_block_env_def empty_heap_def
      MP_ALIGNMENT_def sizeof_pool_def sizeof_node_def take_block_def)

theorem mp_destory_pool_releases_all_witness:
  "blocks sample_pool = [4096 \<mapsto> 4152] \<and>
   (\<exists>s'. mp_destory_pool 4096 sample_pool = Some s' \<and> blocks s' = Map.empty)"
  using mp_destory_pool_releases_all [OF sample_pool_inv sample_pool_larges] sample_pool_blocks
  by (auto simp: restrict_map_def fun_eq_iff)

text \<open>
  Resetting a pool releases its large blocks and empties every node: the pool is usable again
  with nothing handed out.
\<close>

theorem mp_reset_pool_empties:
  assumes "pool_inv s pool ns ps rs" "larges_inv s pool ns ls"
  shows "\<exists>s'. mp_reset_pool pool s = Some s' \<and> pool_inv s' pool ns ps [] \<and> larges_inv s' pool ns [] \<and>
    blocks s' = blocks s |` (- set (held ls))"
  using mp_reset_pool_spec [OF assms] by blast

theorem mp_reset_pool_empties_witness:
  "\<exists>s'. mp_reset_pool 4096 sample_pool = Some s' \<and> pool_inv s' 4096 [4120] 4128 []"
  using mp_reset_pool_empties [OF sample_pool_inv sample_pool_larges] by auto

text \<open>
  \<open>mp_free\<close> of a large block releases that block and no other, and its record stays in the list
  with no block, ready for reuse.
\<close>

theorem mp_free_releases_block:
  assumes "larges_inv s pool ns ls" "b \<in> set (held ls)"
  shows "\<exists>s'. mp_free pool b s = Some s' \<and> blocks s' = blocks s |` (- {b}) \<and>
    larges_inv s' pool ns (drop_block b ls) \<and> pools s' = pools s \<and> nodes s' = nodes s"
  by (rule mp_free_spec [OF assms])

definition large_sample :: mp_heap where
  "large_sample = sample_pool\<lparr>blocks := (blocks sample_pool)(65536 \<mapsto> 9000),
     pools := [4096 \<mapsto> \<lparr>max_size = 4095, current = 4120, large = 4160\<rparr>],
     larges := [4160 \<mapsto> \<lparr>next_large = 0, alloc = 65536\<rparr>]\<rparr>"

theorem mp_free_releases_block_witness:
  "\<exists>s'. mp_free 4096 65536 large_sample = Some s' \<and> blocks s' 65536 = None \<and> blocks s' 4096 \<noteq> None"
proof -
  have "larges_inv large_sample 4096 [4120] [(4160, 65536)]"
    by (simp add: larges_inv_def large_sample_def)
  from mp_free_releases_block [OF this, of 65536] show ?thesis
    by (auto simp: large_sample_def sample_pool_blocks)
qed

text \<open>
  In a pool made for fewer than 16 bytes a request the pool cannot serve itself never returns:
  the record of a large block is itself requested from the pool, which asks for a large block.
\<close>

theorem mp_alloc_small_pool_diverges:
  assumes "\<forall>s n. sys_malloc e s n \<noteq> 0"
    and "pools s pool = Some P" "large P = 0" "max_size P < 16" "max_size P < n"
  shows "mp_alloc e pool n s = None"
  using mp_alloc_no_result [OF _ assms] by (cases "mp_alloc e pool n s") auto

theorem mp_alloc_small_pool_diverges_witness:
  "mp_alloc one_block_env 4096 100
     (empty_heap\<lparr>pools := [4096 \<mapsto> \<lparr>max_size = 8, current = 4120, large = 0\<rparr>]\<rparr>) = None"
  by (rule mp_alloc_small_pool_diverges [where P = "\<lparr>max_size = 8, current = 4120, large = 0\<rparr>"])
    (simp_all add: one_block_env_def)

end
