(* ===== verification/Skiplist.thy ===== *)
theory Skiplist
  imports Prelude
begin

text \<open>
  The skip list of \<open>util/skiplist.c\<close> and \<open>util/skiplist.h\<close>.

  A node carries its array of forward pointers, as many as \<open>calloc\<close> was asked for; an access past
  the array, or through the null pointer, is \<open>None\<close>. What is random in the code is an argument:
  \<open>rand\<close> is the list of the values the C library's generator returns, and \<open>p\<close> the address \<open>calloc\<close>
  returns (\<open>NULL\<close> for a failure).
\<close>

section \<open>The data\<close>

record skpnode =
  timestamp :: u64
  func :: ptr
  level :: "ptr list"

record skplist =
  head :: ptr
  len :: int
  height :: nat
  mem :: "skpnode heap"
  freed :: bool

text \<open>\<open>freed\<close>: the list structure itself has been released.\<close>

definition SKIPLIST_LEVEL_MAX :: nat where "SKIPLIST_LEVEL_MAX = 32"

definition next_at :: "skplist \<Rightarrow> ptr \<Rightarrow> nat \<Rightarrow> ptr option" where
  "next_at s p i = do { n \<leftarrow> mem s p; if i < length (level n) then Some (level n ! i) else None }"

definition set_next :: "skplist \<Rightarrow> ptr \<Rightarrow> nat \<Rightarrow> ptr \<Rightarrow> skplist option" where
  "set_next s p i q = do {
     n \<leftarrow> mem s p;
     if i < length (level n) then Some (s\<lparr>mem := (mem s)(p \<mapsto> n\<lparr>level := (level n)[i := q]\<rparr>)\<rparr>)
     else None
   }"

definition ts_of :: "skplist \<Rightarrow> ptr \<Rightarrow> u64 option" where
  "ts_of s p = map_option timestamp (mem s p)"

section \<open>Creation\<close>

definition skpnode_create :: "u64 \<Rightarrow> ptr \<Rightarrow> nat \<Rightarrow> skpnode" where
  "skpnode_create t f n = \<lparr>timestamp = t, func = f, level = replicate n NULL\<rparr>"

definition skplist_create :: "ptr \<Rightarrow> ptr \<Rightarrow> skplist" where
  "skplist_create h default_func = \<lparr>head = h, len = 0, height = 0,
     mem = [h \<mapsto> skpnode_create 0 default_func SKIPLIST_LEVEL_MAX], freed = False\<rparr>"

text \<open>\<open>SKIPLIST_P * 0xFFFF\<close> is 16383.75: the test holds for the values up to 16383.\<close>

fun level_loop :: "u32 list \<Rightarrow> nat \<Rightarrow> nat" where
  "level_loop [] n = n"
| "level_loop (r # rs) n = (if r AND 0xFFFF \<le> 16383 then level_loop rs (n + 1) else n)"

definition random_leve :: "u32 list \<Rightarrow> nat" where
  "random_leve rs = (let n = level_loop rs 1 in
     if n < SKIPLIST_LEVEL_MAX then n else SKIPLIST_LEVEL_MAX)"

section \<open>Walking a level\<close>

text \<open>The inner loop of every operation: as long as the next node of the level is earlier than \<open>t\<close>.\<close>

partial_function (option) walk :: "skplist \<Rightarrow> ptr \<Rightarrow> nat \<Rightarrow> u64 \<Rightarrow> ptr option" where
  "walk s cur i t = do {
     q \<leftarrow> next_at s cur i;
     if q = NULL then Some cur
     else do {
       u \<leftarrow> ts_of s q;
       if u < t then walk s q i t else Some cur
     }
   }"

section \<open>Insertion\<close>

text \<open>\<open>insert_loop s cur i t node lv\<close> does the levels \<open>i - 1, ..., 0\<close>.\<close>

fun insert_loop :: "skplist \<Rightarrow> ptr \<Rightarrow> nat \<Rightarrow> u64 \<Rightarrow> ptr \<Rightarrow> nat \<Rightarrow> skplist option" where
  "insert_loop s cur 0 t node lv = Some s"
| "insert_loop s cur (Suc i) t node lv = do {
     cur \<leftarrow> walk s cur i t;
     s \<leftarrow> (if i < lv then do {
             q \<leftarrow> next_at s cur i;
             s \<leftarrow> set_next s node i q;
             set_next s cur i node
           } else Some s);
     insert_loop s cur i t node lv
   }"

definition skplist_insert :: "ptr \<Rightarrow> u32 list \<Rightarrow> u64 \<Rightarrow> ptr \<Rightarrow> skplist \<Rightarrow> (int \<times> skplist) option" where
  "skplist_insert p rand t f s = (
     let lv = random_leve rand;
         s = s\<lparr>height := (if lv > height s then lv else height s)\<rparr> in
     if p = NULL then Some (- 1, s)
     else do {
       s \<leftarrow> insert_loop (s\<lparr>mem := (mem s)(p \<mapsto> skpnode_create t f lv)\<rparr>) (head s) (height s) t p lv;
       Some (0, s\<lparr>len := len s + 1\<rparr>)
     })"

section \<open>Removal\<close>

text \<open>\<open>int ts\<close>: the timestamp is cut to 32 bits and compared after sign extension.\<close>

definition as_int :: "u64 \<Rightarrow> u64" where
  "as_int t = scast (ucast t :: u32)"

fun remove_loop :: "skplist \<Rightarrow> ptr \<Rightarrow> nat \<Rightarrow> u64 \<Rightarrow> ptr \<Rightarrow> skplist option" where
  "remove_loop s cur 0 t node = Some s"
| "remove_loop s cur (Suc i) t node = do {
     cur \<leftarrow> walk s cur i t;
     q \<leftarrow> next_at s cur i;
     u \<leftarrow> ts_of s q;
     s \<leftarrow> (if u = t then do {
             r \<leftarrow> next_at s node i;
             set_next s cur i r
           } else Some s);
     remove_loop s cur i t node
   }"

definition skplist_remove :: "ptr \<Rightarrow> skplist \<Rightarrow> (int \<times> skplist) option" where
  "skplist_remove node s =
     (if node = NULL then Some (- 1, s)
      else do {
        t \<leftarrow> ts_of s node;
        s \<leftarrow> remove_loop s (head s) (height s) (as_int t) node;
        Some (0, s\<lparr>mem := (mem s)(node := None), len := len s - 1\<rparr>)
      })"

section \<open>Lookup\<close>

text \<open>The third parameter of \<open>skplist_find\<close> is assigned but never read: it has no effect.\<close>

fun find_levels :: "skplist \<Rightarrow> ptr \<Rightarrow> nat \<Rightarrow> u64 \<Rightarrow> int option" where
  "find_levels s cur 0 t = Some (- 1)"
| "find_levels s cur (Suc i) t = do {
     cur \<leftarrow> walk s cur i t;
     q \<leftarrow> next_at s cur i;
     u \<leftarrow> ts_of s q;
     if u = t then Some 0 else find_levels s cur i t
   }"

definition skplist_find :: "u64 \<Rightarrow> skplist \<Rightarrow> int option" where
  "skplist_find t s = (if len s = 0 then Some (- 1) else find_levels s (head s) (height s) t)"

section \<open>Destruction and printing\<close>

definition free_node :: "ptr \<Rightarrow> skplist \<Rightarrow> skplist option" where
  "free_node p s = (case mem s p of None \<Rightarrow> None | Some n \<Rightarrow> Some (s\<lparr>mem := (mem s)(p := None)\<rparr>))"

partial_function (option) destroy_loop :: "skplist \<Rightarrow> ptr \<Rightarrow> ptr \<Rightarrow> (ptr \<times> skplist) option" where
  "destroy_loop s cur nxt =
     (if nxt = NULL then Some (cur, s)
      else do {
        s \<leftarrow> free_node cur s;
        q \<leftarrow> next_at s nxt 0;
        destroy_loop s nxt q
      })"

definition skplist_destroy :: "skplist \<Rightarrow> (int \<times> skplist) option" where
  "skplist_destroy s = do {
     cur \<leftarrow> next_at s (head s) 0;
     if cur = NULL then Some (0, s)
     else do {
       nxt \<leftarrow> next_at s cur 0;
       (cur, s) \<leftarrow> destroy_loop s cur nxt;
       s \<leftarrow> free_node cur s;
       Some (0, s\<lparr>freed := True\<rparr>)
     }
   }"

partial_function (option) print_level :: "skplist \<Rightarrow> ptr \<Rightarrow> nat \<Rightarrow> u64 list option" where
  "print_level s cur i =
     (if cur = NULL then Some []
      else do {
        t \<leftarrow> ts_of s cur;
        q \<leftarrow> next_at s cur i;
        ts \<leftarrow> print_level s q i;
        Some (t # ts)
      })"

fun print_levels :: "skplist \<Rightarrow> nat \<Rightarrow> u64 list list option" where
  "print_levels s 0 = Some []"
| "print_levels s (Suc i) = do {
     cur \<leftarrow> next_at s (head s) i;
     ts \<leftarrow> print_level s cur i;
     rest \<leftarrow> print_levels s i;
     Some (ts # rest)
   }"

definition skplist_print :: "skplist \<Rightarrow> u64 list list option" where
  "skplist_print s = print_levels s (height s)"

lemmas skp_loops [code] = walk.simps destroy_loop.simps print_level.simps

end
