(* ===== verification/Skiplist_Inv.thy ===== *)
theory Skiplist_Inv
  imports Skiplist
begin

text \<open>
  The invariant of the skip list, and what each operation does to the chains of its levels.
\<close>

section \<open>The chains of a level\<close>

fun chain :: "skplist \<Rightarrow> nat \<Rightarrow> ptr \<Rightarrow> ptr list \<Rightarrow> bool" where
  "chain s i p [] \<longleftrightarrow> p = NULL"
| "chain s i p (q # qs) \<longleftrightarrow> p = q \<and> q \<noteq> NULL \<and> (\<exists>r. next_at s q i = Some r \<and> chain s i r qs)"

lemma chain_cong:
  "\<forall>q\<in>set qs. next_at s' q i = next_at s q i \<Longrightarrow> chain s' i p qs = chain s i p qs"
  by (induction qs arbitrary: p) auto


lemma chain_suffix: "chain s i p (xs @ c # ys) \<Longrightarrow> chain s i c (c # ys)"
  by (induction xs arbitrary: p) auto

lemma chain_ts: "chain s i p qs \<Longrightarrow> q \<in> set qs \<Longrightarrow> \<exists>n. mem s q = Some n \<and> i < length (level n)"
  by (induction qs arbitrary: p) (auto simp: next_at_def bind_simps split: if_splits)

definition key_of :: "skplist \<Rightarrow> ptr \<Rightarrow> u64" where
  "key_of s q = timestamp (the (mem s q))"

lemma chain_key: "chain s i p qs \<Longrightarrow> q \<in> set qs \<Longrightarrow> ts_of s q = Some (key_of s q)"
  by (auto simp: ts_of_def key_of_def dest!: chain_ts)

lemma walk_spec:
  assumes "chain s i cur (cur # rest)"
  shows "walk s cur i t = Some (last (cur # takeWhile (\<lambda>q. key_of s q < t) rest))"
  using assms
proof (induction rest arbitrary: cur)
  case Nil
  then show ?case by (subst walk.simps) auto
next
  case (Cons q rest)
  then have "next_at s cur i = Some q" "q \<noteq> NULL" "chain s i q (q # rest)" by auto
  moreover have "ts_of s q = Some (key_of s q)" by (rule chain_key [OF Cons.prems]) simp
  ultimately show ?case using Cons.IH [of q]
    by (subst walk.simps) auto
qed

lemma chain_insert:
  assumes "chain s i h (h # xs @ ys)" "distinct (h # xs @ ys)" "p \<notin> set (h # xs @ ys)" "p \<noteq> NULL"
    and "next_at s (last (h # xs)) i = Some q" "next_at s' p i = Some q"
    and "next_at s' (last (h # xs)) i = Some p"
    and "\<forall>c. c \<noteq> p \<and> c \<noteq> last (h # xs) \<longrightarrow> next_at s' c i = next_at s c i"
  shows "chain s' i h (h # xs @ p # ys)"
  using assms
proof (induction xs arbitrary: h)
  case Nil
  have "chain s i q ys" using Nil.prems(1,5) by simp
  moreover have "\<forall>c\<in>set ys. next_at s' c i = next_at s c i"
    using Nil.prems(2,3,8) by auto
  ultimately have "chain s' i q ys" using chain_cong by blast
  with Nil.prems show ?case by simp
next
  case (Cons x xs)
  have "chain s i x (x # xs @ ys)" using Cons.prems(1) by auto
  then have "chain s' i x (x # xs @ p # ys)"
    using Cons.prems by (intro Cons.IH) auto
  moreover have "h \<noteq> last (x # xs)" using Cons.prems(2) last_in_set [of "x # xs"] by auto
  then have "next_at s' h i = next_at s h i" using Cons.prems by auto
  ultimately show ?case using Cons.prems(1) by auto
qed

lemma last_takeWhile:
  assumes "sorted_wrt (\<lambda>a b. f a \<le> f b) xs" "xs = as @ c # bs" "f c < (t :: u64)"
  shows "last (h # takeWhile (\<lambda>q. f q < t) xs) = last (c # takeWhile (\<lambda>q. f q < t) bs)"
proof -
  have "\<forall>q\<in>set (as @ [c]). f q < t"
    using assms by (auto simp: sorted_wrt_append)
  then have "takeWhile (\<lambda>q. f q < t) xs = as @ c # takeWhile (\<lambda>q. f q < t) bs"
    using assms(2) by (simp add: takeWhile_append2)
  then show ?thesis by simp
qed

lemma set_next_spec:
  assumes "next_at s p i = Some x"
  shows "\<exists>s'. set_next s p i q = Some s' \<and> next_at s' p i = Some q \<and>
    (\<forall>c j. c \<noteq> p \<or> j \<noteq> i \<longrightarrow> next_at s' c j = next_at s c j) \<and> (\<forall>c. ts_of s' c = ts_of s c) \<and>
    (\<exists>m. s' = s\<lparr>mem := m\<rparr>) \<and> key_of s' = key_of s \<and> dom (mem s') = dom (mem s)"
proof -
  obtain n where n: "mem s p = Some n" "i < length (level n)"
    using assms by (auto simp: next_at_def bind_simps split: if_splits)
  then show ?thesis
    by (intro exI [of _ "s\<lparr>mem := (mem s)(p \<mapsto> n\<lparr>level := (level n)[i := q]\<rparr>)\<rparr>"])
      (auto simp: set_next_def next_at_def ts_of_def key_of_def fun_eq_iff nth_list_update)
qed


section \<open>Insertion\<close>

text \<open>\<open>place f t p xs\<close>: \<open>p\<close> goes before the first element whose key is not below \<open>t\<close>.\<close>

definition place :: "(ptr \<Rightarrow> u64) \<Rightarrow> u64 \<Rightarrow> ptr \<Rightarrow> ptr list \<Rightarrow> ptr list" where
  "place f t p xs = takeWhile (\<lambda>q. f q < t) xs @ p # dropWhile (\<lambda>q. f q < t) xs"

lemma set_place [simp]: "set (place f t p xs) = insert p (set xs)"
  by (simp add: place_def) (metis set_append takeWhile_dropWhile_id)

lemma length_place [simp]: "length (place f t p xs) = Suc (length xs)"
  by (simp add: place_def) (metis length_append takeWhile_dropWhile_id)

lemma distinct_place: "distinct xs \<Longrightarrow> p \<notin> set xs \<Longrightarrow> distinct (place f t p xs)"
  using takeWhile_dropWhile_id [of "\<lambda>q. f q < t" xs] distinct_append
    [of "takeWhile (\<lambda>q. f q < t) xs" "dropWhile (\<lambda>q. f q < t) xs"]
  by (auto simp: place_def dest: set_takeWhileD set_dropWhileD)

lemma dropWhile_sorted:
  "sorted_wrt (\<lambda>a b. f a \<le> f b) xs \<Longrightarrow> q \<in> set (dropWhile (\<lambda>q. f q < t) xs) \<Longrightarrow> t \<le> f q" for t :: u64
proof (induction xs)
  case (Cons x xs)
  then show ?case by (cases "f x < t") (auto intro: order.trans)
qed simp

lemma sorted_key_cong:
  "(\<And>q. q \<in> set xs \<Longrightarrow> f q = g q) \<Longrightarrow>
   sorted_wrt (\<lambda>a b. f a \<le> f b) xs = sorted_wrt (\<lambda>a b. g a \<le> g b) xs" for f :: "ptr \<Rightarrow> u64"
  by (induction xs) auto

lemma sorted_place:
  assumes "sorted_wrt (\<lambda>a b. f a \<le> f b) xs" "f p = t"
  shows "sorted_wrt (\<lambda>a b. f a \<le> f b) (place f t p xs)"
proof -
  let ?A = "takeWhile (\<lambda>q. f q < t) xs" and ?B = "dropWhile (\<lambda>q. f q < t) xs"
  have "sorted_wrt (\<lambda>a b. f a \<le> f b) (?A @ ?B)" using assms(1) by simp
  moreover have "\<forall>a\<in>set ?A. f a \<le> t" by (auto dest: set_takeWhileD)
  moreover have "\<forall>b\<in>set ?B. t \<le> f b" using dropWhile_sorted [OF assms(1)] by blast
  moreover have "\<forall>a\<in>set ?A. \<forall>b\<in>set ?B. f a \<le> f b"
    using calculation(1) unfolding sorted_wrt_append by blast
  ultimately show ?thesis using assms(2) by (simp add: place_def sorted_wrt_append)
qed

definition lev_ok :: "skplist \<Rightarrow> ptr \<Rightarrow> (nat \<Rightarrow> ptr list) \<Rightarrow> nat \<Rightarrow> bool" where
  "lev_ok s h L i \<longleftrightarrow> chain s i h (h # L i) \<and> distinct (h # L i) \<and>
     sorted_wrt (\<lambda>a b. key_of s a \<le> key_of s b) (L i)"

definition start_ok :: "skplist \<Rightarrow> ptr \<Rightarrow> (nat \<Rightarrow> ptr list) \<Rightarrow> nat \<Rightarrow> u64 \<Rightarrow> ptr \<Rightarrow> bool" where
  "start_ok s h L i t cur \<longleftrightarrow> cur = h \<or> (cur \<in> set (L i) \<and> key_of s cur < t)"

lemma walk_level:
  assumes "lev_ok s h L i" "start_ok s h L i t cur"
  shows "walk s cur i t = Some (last (h # takeWhile (\<lambda>q. key_of s q < t) (L i)))"
proof (cases "cur = h")
  case True
  with assms(1) walk_spec show ?thesis by (simp add: lev_ok_def)
next
  case False
  with assms(2) obtain as bs where ab: "L i = as @ cur # bs" "key_of s cur < t"
    by (auto simp: start_ok_def dest: split_list)
  have "chain s i cur (cur # bs)"
    using assms(1) chain_suffix [of s i h "h # as" cur bs] by (simp add: lev_ok_def ab)
  from walk_spec [OF this, of t] last_takeWhile [of "key_of s" "L i" as cur bs t h] ab assms(1)
  show ?thesis by (simp add: lev_ok_def)
qed

lemma start_below:
  assumes "lev_ok s h L i" "set (L i) \<subseteq> set (L j)"
  shows "start_ok s h L j t (last (h # takeWhile (\<lambda>q. key_of s q < t) (L i)))"
proof (cases "takeWhile (\<lambda>q. key_of s q < t) (L i) = []")
  case False
  let ?M = "takeWhile (\<lambda>q. key_of s q < t) (L i)"
  have "last ?M \<in> set ?M" using False by simp
  then have "last ?M \<in> set (L i)" "key_of s (last ?M) < t" by (auto dest: set_takeWhileD)
  with False assms(2) show ?thesis by (auto simp: start_ok_def)
qed (simp add: start_ok_def)

lemma next_after:
  assumes "chain s i h (h # xs @ ys)"
  shows "next_at s (last (h # xs)) i = Some (case ys of [] \<Rightarrow> NULL | y # _ \<Rightarrow> y)"
  using assms
proof (induction xs arbitrary: h)
  case Nil
  then show ?case by (cases ys) auto
next
  case (Cons x xs)
  then show ?case by auto
qed

lemma insert_loop_ok:
  assumes "\<forall>j<k. lev_ok s h L j" "\<forall>j<k. p \<notin> set (h # L j)" "\<forall>j. Suc j < k \<longrightarrow> set (L (Suc j)) \<subseteq> set (L j)"
    and "k > 0 \<Longrightarrow> start_ok s h L (k - 1) t cur"
    and "\<forall>j<lv. \<exists>x. next_at s p j = Some x" "p \<noteq> NULL"
  shows "\<exists>s'. insert_loop s cur k t p lv = Some s' \<and>
    (\<forall>j<k. chain s' j h (h # (if j < lv then place (key_of s) t p (L j) else L j))) \<and>
    (\<forall>c j. k \<le> j \<longrightarrow> next_at s' c j = next_at s c j) \<and>
    (\<exists>m. s' = s\<lparr>mem := m\<rparr>) \<and> key_of s' = key_of s \<and> dom (mem s') = dom (mem s)"
  using assms
proof (induction k arbitrary: s cur)
  case 0
  then show ?case by (auto intro!: exI [of _ "mem s"])
next
  case (Suc i)
  let ?f = "key_of s" and ?A = "takeWhile (\<lambda>q. key_of s q < t) (L i)"
    and ?B = "dropWhile (\<lambda>q. key_of s q < t) (L i)"
  let ?c = "last (h # ?A)"
  have lev: "lev_ok s h L i" using Suc.prems(1) by simp
  have w: "walk s cur i t = Some ?c" using walk_level [OF lev] Suc.prems(4) by simp
  have ch: "chain s i h (h # ?A @ ?B)" and di: "distinct (h # ?A @ ?B)" and p: "p \<notin> set (h # ?A @ ?B)"
    using lev Suc.prems(2) [rule_format, of i] by (simp_all add: lev_ok_def)
  have step: "\<exists>s1. (if i < lv then do {
             q \<leftarrow> next_at s ?c i;
             s \<leftarrow> set_next s p i q;
             set_next s ?c i p
           } else Some s) = Some s1 \<and>
      chain s1 i h (h # (if i < lv then place ?f t p (L i) else L i)) \<and>
      (\<forall>c j. j \<noteq> i \<longrightarrow> next_at s1 c j = next_at s c j) \<and>
      (\<exists>m. s1 = s\<lparr>mem := m\<rparr>) \<and> key_of s1 = ?f \<and> dom (mem s1) = dom (mem s) \<and>
      (\<forall>j<lv. \<exists>x. next_at s1 p j = Some x)"
  proof (cases "i < lv")
    case True
    let ?q = "case ?B of [] \<Rightarrow> NULL | y # _ \<Rightarrow> y"
    note q = next_after [OF ch]
    obtain x where "next_at s p i = Some x" using Suc.prems(5) True by blast
    from set_next_spec [OF this, of ?q] obtain s0 where s0: "set_next s p i ?q = Some s0"
      "next_at s0 p i = Some ?q" "\<forall>c j. c \<noteq> p \<or> j \<noteq> i \<longrightarrow> next_at s0 c j = next_at s c j"
      "\<exists>m. s0 = s\<lparr>mem := m\<rparr>" "key_of s0 = ?f" "dom (mem s0) = dom (mem s)" by blast
    have cp: "?c \<noteq> p" using p last_in_set [of "h # ?A"] by (auto simp del: last.simps dest: set_takeWhileD)
    then have "next_at s0 ?c i = Some ?q" using s0(3) q by simp
    from set_next_spec [OF this, of p] obtain s1 where s1: "set_next s0 ?c i p = Some s1"
      "next_at s1 ?c i = Some p" "\<forall>c j. c \<noteq> ?c \<or> j \<noteq> i \<longrightarrow> next_at s1 c j = next_at s0 c j"
      "\<exists>m. s1 = s0\<lparr>mem := m\<rparr>" "key_of s1 = key_of s0" "dom (mem s1) = dom (mem s0)" by blast
    have "chain s1 i h (h # ?A @ p # ?B)"
      by (rule chain_insert [OF ch di p Suc.prems(6) q]) (use s0 s1 cp in auto)
    moreover have "\<forall>j<lv. \<exists>x. next_at s1 p j = Some x"
      using s0(2,3) s1(3) cp Suc.prems(5) by metis
    ultimately show ?thesis using True q s0 s1 by (auto simp: place_def)
  next
    case False
    with lev Suc.prems(5) show ?thesis by (auto simp: lev_ok_def intro!: exI [of _ "mem s"])
  qed
  then obtain s1 where s1: "(if i < lv then do {
             q \<leftarrow> next_at s ?c i;
             s \<leftarrow> set_next s p i q;
             set_next s ?c i p
           } else Some s) = Some s1"
      "chain s1 i h (h # (if i < lv then place ?f t p (L i) else L i))"
      "\<forall>c j. j \<noteq> i \<longrightarrow> next_at s1 c j = next_at s c j"
      "\<exists>m. s1 = s\<lparr>mem := m\<rparr>" "key_of s1 = ?f" "dom (mem s1) = dom (mem s)"
      "\<forall>j<lv. \<exists>x. next_at s1 p j = Some x" by blast
  have same: "lev_ok s1 h L j = lev_ok s h L j" if "j < i" for j
    using that s1(3,5) chain_cong [of "h # L j" s1 j s h] by (simp add: lev_ok_def del: chain.simps)
  have "\<exists>s'. insert_loop s1 ?c i t p lv = Some s' \<and>
    (\<forall>j<i. chain s' j h (h # (if j < lv then place (key_of s1) t p (L j) else L j))) \<and>
    (\<forall>c j. i \<le> j \<longrightarrow> next_at s' c j = next_at s1 c j) \<and>
    (\<exists>m. s' = s1\<lparr>mem := m\<rparr>) \<and> key_of s' = key_of s1 \<and> dom (mem s') = dom (mem s1)"
  proof (rule Suc.IH)
    show "i > 0 \<Longrightarrow> start_ok s1 h L (i - 1) t ?c"
      using start_below [OF lev, of "i - 1" t] Suc.prems(3) s1(5)
      by (cases i) (auto simp: start_ok_def)
  qed (use Suc.prems same s1(7) in auto)
  from this [unfolded s1(5,6)] obtain s' where s': "insert_loop s1 ?c i t p lv = Some s'"
    "\<forall>j<i. chain s' j h (h # (if j < lv then place ?f t p (L j) else L j))"
    "\<forall>c j. i \<le> j \<longrightarrow> next_at s' c j = next_at s1 c j"
    "\<exists>m. s' = s1\<lparr>mem := m\<rparr>" "key_of s' = ?f" "dom (mem s') = dom (mem s)"
    by blast
  have "chain s' i h (h # (if i < lv then place ?f t p (L i) else L i))"
    using s1(2) s'(3) chain_cong [of "h # (if i < lv then place ?f t p (L i) else L i)" s' i s1 h]
    by (simp del: chain.simps)
  then have "\<forall>j<Suc i. chain s' j h (h # (if j < lv then place ?f t p (L j) else L j))"
    using s'(2) less_Suc_eq by simp
  moreover have "\<forall>c j. Suc i \<le> j \<longrightarrow> next_at s' c j = next_at s c j" using s'(3) s1(3) by auto
  moreover have "insert_loop s cur (Suc i) t p lv = Some s'"
    by (simp only: insert_loop.simps w s1(1) s'(1) Option.bind.bind_lunit)
  ultimately show ?case using s'(4,5,6) s1(4) by auto
qed


section \<open>The invariant\<close>

text \<open>
  \<open>skp_inv s L\<close>: \<open>L i\<close> are the nodes of level \<open>i\<close> in order. Level 0 holds every node, each level is
  part of the one below, and the levels from \<open>height s\<close> on are empty.
\<close>

definition skp_inv :: "skplist \<Rightarrow> (nat \<Rightarrow> ptr list) \<Rightarrow> bool" where
  "skp_inv s L \<longleftrightarrow> (\<forall>i<32. lev_ok s (head s) L i) \<and> (\<forall>i<31. set (L (Suc i)) \<subseteq> set (L i)) \<and>
     (\<forall>i. height s \<le> i \<longrightarrow> L i = []) \<and> height s \<le> 32 \<and> len s = int (length (L 0))"

lemma random_leve_bounds: "1 \<le> random_leve rs \<and> random_leve rs \<le> 32"
proof -
  have "n \<le> level_loop rs n" for n
    by (induction rs arbitrary: n) (auto intro: Suc_leD)
  from this [of 1] show ?thesis by (simp add: random_leve_def SKIPLIST_LEVEL_MAX_def Let_def)
qed

lemma skplist_create_inv: "h \<noteq> NULL \<Longrightarrow> skp_inv (skplist_create h f) (\<lambda>i. [])"
  by (simp add: skp_inv_def lev_ok_def skplist_create_def skpnode_create_def next_at_def SKIPLIST_LEVEL_MAX_def)

lemma skplist_insert_spec:
  assumes inv: "skp_inv s L" and p: "p \<noteq> NULL" "mem s p = None"
  shows "\<exists>s' L'. skplist_insert p rs t f s = Some (0, s') \<and> skp_inv s' L' \<and>
    L' = (\<lambda>i. if i < random_leve rs then place (key_of s') t p (L i) else L i) \<and>
    head s' = head s \<and> freed s' = freed s \<and>
    dom (mem s') = insert p (dom (mem s)) \<and> key_of s' = (key_of s)(p := t)"
proof -
  let ?lv = "random_leve rs" and ?h = "head s"
  let ?H = "if ?lv > height s then ?lv else height s"
  let ?s = "s\<lparr>height := ?H, mem := (mem s)(p \<mapsto> skpnode_create t f ?lv)\<rparr>"
  have lv: "?lv \<le> 32" "1 \<le> ?lv" using random_leve_bounds by auto
  have key: "key_of ?s = (key_of s)(p := t)" by (auto simp: key_of_def skpnode_create_def fun_eq_iff)
  have notin: "p \<notin> set (?h # L i)" if "i < 32" for i
  proof
    assume "p \<in> set (?h # L i)"
    moreover have "chain s i ?h (?h # L i)" using inv that by (simp add: skp_inv_def lev_ok_def)
    ultimately show False using chain_ts [of s i ?h "?h # L i" p] p(2) by auto
  qed
  have lev: "lev_ok ?s ?h L i" if "i < 32" for i
  proof -
    have "lev_ok s ?h L i" using inv that by (simp add: skp_inv_def)
    moreover have "\<forall>q\<in>set (?h # L i). next_at ?s q i = next_at s q i"
      using notin [OF that] by (auto simp: next_at_def)
    moreover have "sorted_wrt (\<lambda>a b. key_of ?s a \<le> key_of ?s b) (L i) =
        sorted_wrt (\<lambda>a b. key_of s a \<le> key_of s b) (L i)"
      using notin [OF that] by (intro sorted_key_cong) (auto simp: key)
    ultimately show ?thesis using chain_cong [of "?h # L i" ?s i s ?h]
      by (simp add: lev_ok_def del: chain.simps)
  qed
  have H: "?H \<le> 32" using lv inv by (simp add: skp_inv_def)
  have "\<exists>s'. insert_loop ?s ?h ?H t p ?lv = Some s' \<and>
    (\<forall>j<?H. chain s' j ?h (?h # (if j < ?lv then place (key_of ?s) t p (L j) else L j))) \<and>
    (\<forall>c j. ?H \<le> j \<longrightarrow> next_at s' c j = next_at ?s c j) \<and>
    (\<exists>m. s' = ?s\<lparr>mem := m\<rparr>) \<and> key_of s' = key_of ?s \<and> dom (mem s') = dom (mem ?s)"
  proof (rule insert_loop_ok)
    show "\<forall>j<?H. lev_ok ?s ?h L j" "\<forall>j<?H. p \<notin> set (?h # L j)"
      using lev notin H less_le_trans by blast+
    show "\<forall>j. Suc j < ?H \<longrightarrow> set (L (Suc j)) \<subseteq> set (L j)"
      using inv H by (auto simp: skp_inv_def split: if_splits)
    show "\<forall>j<?lv. \<exists>x. next_at ?s p j = Some x" by (simp add: next_at_def skpnode_create_def)
  qed (simp_all add: start_ok_def p)
  then obtain s' where s': "insert_loop ?s ?h ?H t p ?lv = Some s'"
    "\<forall>j<?H. chain s' j ?h (?h # (if j < ?lv then place (key_of ?s) t p (L j) else L j))"
    "\<forall>c j. ?H \<le> j \<longrightarrow> next_at s' c j = next_at ?s c j"
    "\<exists>m. s' = ?s\<lparr>mem := m\<rparr>" "key_of s' = key_of ?s" "dom (mem s') = dom (mem ?s)" by blast
  let ?s' = "s'\<lparr>len := len s' + 1\<rparr>"
  let ?L = "\<lambda>i. if i < ?lv then place (key_of ?s) t p (L i) else L i"
  have same: "next_at ?s' = next_at s'" "key_of ?s' = key_of s'"
    by (simp_all add: next_at_def key_of_def fun_eq_iff)
  have fields: "head s' = ?h" "height s' = ?H" "len s' = len s" "freed s' = freed s"
    using s'(4) by auto
  have code: "skplist_insert p rs t f s = Some (0, ?s')"
    using s'(1) p(1) by (simp add: skplist_insert_def Let_def cong: if_cong)
  have lev': "lev_ok ?s' ?h ?L i" if "i < 32" for i
  proof -
    have "chain s' i ?h (?h # ?L i)"
    proof (cases "i < ?H")
      case False
      then have "?L i = []" "L i = []" using inv by (auto simp: skp_inv_def split: if_splits)
      moreover have "chain ?s i ?h [?h]" using lev [OF that] \<open>L i = []\<close> by (simp add: lev_ok_def)
      ultimately show ?thesis using s'(3) False chain_cong [of "[?h]" s' i ?s ?h]
        by (simp del: chain.simps)
    qed (use s'(2) in blast)
    then have "chain ?s' i ?h (?h # ?L i)"
      using chain_cong [of "?h # ?L i" ?s' i s' ?h] same(1) by (simp del: chain.simps)
    moreover have "distinct (?h # ?L i)"
      using lev [OF that] notin [OF that] by (auto simp: lev_ok_def distinct_place)
    moreover have "sorted_wrt (\<lambda>a b. key_of ?s a \<le> key_of ?s b) (?L i)"
      using lev [OF that] sorted_place [of "key_of ?s" "L i" p t] key by (simp add: lev_ok_def)
    ultimately show ?thesis by (simp add: lev_ok_def same(2) s'(5) del: chain.simps)
  qed
  have "length (?L 0) = Suc (length (L 0))"
    using lv(2) by simp
  moreover have "\<forall>i. ?H \<le> i \<longrightarrow> ?L i = []"
    using inv by (auto simp: skp_inv_def split: if_splits)
  moreover have "set (?L (Suc i)) \<subseteq> set (?L i)" if "i < 31" for i
  proof -
    have "set (L (Suc i)) \<subseteq> set (L i)" using inv that by (simp add: skp_inv_def)
    then show ?thesis by auto
  qed
  ultimately have "skp_inv ?s' ?L"
    using lev' H inv fields by (simp add: skp_inv_def)
  moreover have "?L = (\<lambda>i. if i < ?lv then place (key_of ?s') t p (L i) else L i)"
    by (simp only: same(2) s'(5))
  moreover have "head ?s' = ?h" "freed ?s' = freed s" "dom (mem ?s') = insert p (dom (mem s))"
    "key_of ?s' = (key_of s)(p := t)"
    using fields s'(5,6) same(2) key by simp_all
  ultimately show ?thesis using code by blast
qed

section \<open>Lookup\<close>

lemma chain_nonnull: "chain s i p qs \<Longrightarrow> q \<in> set qs \<Longrightarrow> q \<noteq> NULL"
  by (induction qs arbitrary: p) auto

lemma lev_keys:
  assumes "lev_ok s h L i" "q \<in> set (L i)"
  shows "ts_of s q = Some (key_of s q)" "q \<noteq> NULL"
proof -
  have c: "chain s i h (h # L i)" using assms(1) by (simp add: lev_ok_def)
  show "ts_of s q = Some (key_of s q)" using chain_key [OF c, of q] assms(2) by simp
  show "q \<noteq> NULL" using chain_nonnull [OF c] assms(2) by simp
qed

text \<open>What one step of a search sees: the first node of the level that is not before \<open>t\<close>.\<close>

lemma level_step:
  assumes lev: "lev_ok s h L i" and st: "start_ok s h L i t cur"
  shows "\<exists>c. walk s cur i t = Some c \<and> c = last (h # takeWhile (\<lambda>q. key_of s q < t) (L i)) \<and>
    next_at s c i = Some (case dropWhile (\<lambda>q. key_of s q < t) (L i) of [] \<Rightarrow> NULL | y # _ \<Rightarrow> y)"
  using walk_level [OF assms] next_after [of s i h "takeWhile (\<lambda>q. key_of s q < t) (L i)"
      "dropWhile (\<lambda>q. key_of s q < t) (L i)"] lev
  by (auto simp: lev_ok_def)

lemma dropWhile_first:
  fixes t :: u64
  assumes "sorted_wrt (\<lambda>a b. f a \<le> f b) xs" "dropWhile (\<lambda>q. f q < t) xs = y # ys"
  shows "(f y = t) = (t \<in> f ` set xs)" "t \<le> f y" "y \<in> set xs"
proof -
  have xs: "xs = takeWhile (\<lambda>q. f q < t) xs @ y # ys" using assms(2) by (metis takeWhile_dropWhile_id)
  show ge: "t \<le> f y" using dropWhile_sorted [OF assms(1), of y t] assms(2) by simp
  show y: "y \<in> set xs" using xs by (metis in_set_conv_decomp)
  show "(f y = t) = (t \<in> f ` set xs)"
  proof
    assume "t \<in> f ` set xs"
    then obtain q where q: "q \<in> set xs" "f q = t" by auto
    then have "q \<notin> set (takeWhile (\<lambda>q. f q < t) xs)" by (auto dest: set_takeWhileD)
    then have "q \<in> set (y # ys)" using q(1) xs by (metis Un_iff set_append)
    moreover have "sorted_wrt (\<lambda>a b. f a \<le> f b) (y # ys)" using assms(1) xs by (metis sorted_wrt_append)
    ultimately show "f y = t" using q(2) ge by auto
  qed (use y in auto)
qed

lemma find_levels_spec:
  assumes "\<forall>j<k. lev_ok s h L j" "\<forall>j. Suc j < k \<longrightarrow> set (L (Suc j)) \<subseteq> set (L j)"
    "k > 0 \<Longrightarrow> start_ok s h L (k - 1) t cur" "\<forall>j<k. \<exists>q\<in>set (L j). t \<le> key_of s q"
  shows "find_levels s cur k t = Some (if k > 0 \<and> t \<in> key_of s ` set (L 0) then 0 else - 1)"
  using assms
proof (induction k arbitrary: cur)
  case (Suc i)
  let ?D = "dropWhile (\<lambda>q. key_of s q < t) (L i)"
  have lev: "lev_ok s h L i" and st: "start_ok s h L i t cur" using Suc.prems(1,3) by simp_all
  obtain q where "q \<in> set (L i)" "t \<le> key_of s q" using Suc.prems(4) by blast
  then have "?D \<noteq> []" by (auto simp: dropWhile_eq_Nil_conv not_less)
  then obtain y ys where D: "?D = y # ys" by (cases ?D) auto
  have so: "sorted_wrt (\<lambda>a b. key_of s a \<le> key_of s b) (L i)" using lev by (simp add: lev_ok_def)
  note y = dropWhile_first [OF so D]
  have sub: "set (L i) \<subseteq> set (L 0)"
    using Suc.prems(2)
  proof (induction i)
    case (Suc j)
    then have "set (L j) \<subseteq> set (L 0)" "set (L (Suc j)) \<subseteq> set (L j)" by auto
    then show ?case by blast
  qed simp
  from level_step [OF lev st] obtain c where c: "walk s cur i t = Some c"
    "c = last (h # takeWhile (\<lambda>q. key_of s q < t) (L i))" "next_at s c i = Some y" by (auto simp: D)
  have ts: "ts_of s y = Some (key_of s y)" using lev_keys [OF lev y(3)] by simp
  show ?case
  proof (cases "key_of s y = t")
    case True
    with c ts y(3) sub show ?thesis by auto
  next
    case False
    have "find_levels s c i t = Some (if i > 0 \<and> t \<in> key_of s ` set (L 0) then 0 else - 1)"
    proof (rule Suc.IH)
      show "i > 0 \<Longrightarrow> start_ok s h L (i - 1) t c"
        using start_below [OF lev, of "i - 1" t] Suc.prems(2) c(2) by (cases i) auto
    qed (use Suc.prems in auto)
    moreover have "i = 0 \<Longrightarrow> t \<notin> key_of s ` set (L 0)" using y(1) False by auto
    ultimately show ?thesis using c ts False by auto
  qed
qed simp

lemma skp_levels:
  assumes "skp_inv s L"
  shows "\<forall>j<height s. lev_ok s (head s) L j" "\<forall>j. Suc j < height s \<longrightarrow> set (L (Suc j)) \<subseteq> set (L j)"
  using assms by (auto simp: skp_inv_def)

lemma skplist_find_spec:
  assumes "skp_inv s L" "\<forall>j<height s. \<exists>q\<in>set (L j). t \<le> key_of s q"
  shows "skplist_find t s = Some (if t \<in> key_of s ` set (L 0) then 0 else - 1)"
proof (cases "L 0 = []")
  case True
  with assms(1) show ?thesis by (simp add: skplist_find_def skp_inv_def)
next
  case False
  then have "0 < height s" using assms(1) by (auto simp: skp_inv_def)
  then show ?thesis
    using find_levels_spec [OF skp_levels [OF assms(1)], of t "head s"] assms False
    by (simp add: skplist_find_def start_ok_def skp_inv_def)
qed

lemma skplist_find_crash:
  assumes "skp_inv s L" "L 0 \<noteq> []" "mem s NULL = None" "0 < height s"
    and "\<forall>q\<in>set (L (height s - 1)). key_of s q < t"
  shows "skplist_find t s = None"
proof -
  let ?i = "height s - 1"
  have lev: "lev_ok s (head s) L ?i" using skp_levels(1) [OF assms(1)] assms(4) by simp
  have D: "dropWhile (\<lambda>q. key_of s q < t) (L ?i) = []" using assms(5) by simp
  from level_step [OF lev, of t "head s"] obtain c where
    "walk s (head s) ?i t = Some c" "next_at s c ?i = Some NULL"
    unfolding D by (auto simp: start_ok_def)
  then show ?thesis using assms(1,2,3,4)
    by (cases "height s") (auto simp: skplist_find_def skp_inv_def ts_of_def)
qed

section \<open>Printing and destruction\<close>

lemma print_level_spec:
  "chain s i p qs \<Longrightarrow> print_level s p i = Some (map (key_of s) qs)"
proof (induction qs arbitrary: p)
  case Nil
  then show ?case by (subst print_level.simps) simp
next
  case (Cons q qs)
  then obtain r where "p = q" "q \<noteq> NULL" "next_at s q i = Some r" "chain s i r qs" by auto
  moreover have "ts_of s q = Some (key_of s q)" using chain_key [OF Cons.prems] by simp
  ultimately show ?case using Cons.IH by (subst print_level.simps) simp
qed

lemma print_levels_spec:
  assumes "\<forall>j<k. lev_ok s (head s) L j"
  shows "print_levels s k = Some (map (\<lambda>i. map (key_of s) (L i)) (rev [0..<k]))"
  using assms
proof (induction k)
  case (Suc i)
  then obtain r where "next_at s (head s) i = Some r" "chain s i r (L i)" by (auto simp: lev_ok_def)
  with print_level_spec [of s i r "L i"] Suc show ?case by simp
qed simp

lemma skplist_print_spec:
  "skp_inv s L \<Longrightarrow> skplist_print s = Some (map (\<lambda>i. map (key_of s) (L i)) (rev [0..<height s]))"
  using print_levels_spec skp_levels(1) by (simp add: skplist_print_def)

lemma free_node_eq: "mem s p = Some n \<Longrightarrow> free_node p s = Some (s\<lparr>mem := mem s |` (- {p})\<rparr>)"
  by (auto simp: free_node_def restrict_map_def fun_eq_iff)

lemma next_at_restrict: "p \<notin> A \<Longrightarrow> next_at (s\<lparr>mem := mem s |` (- A)\<rparr>) p i = next_at s p i"
  by (simp add: next_at_def restrict_map_def)

lemma destroy_loop_spec:
  assumes "chain s 0 cur (cur # qs)" "next_at s cur 0 = Some nxt" "distinct (cur # qs)"
  shows "destroy_loop s cur nxt = Some (last (cur # qs), s\<lparr>mem := mem s |` (- set (butlast (cur # qs)))\<rparr>)"
  using assms
proof (induction qs arbitrary: s cur nxt)
  case Nil
  then show ?case by (subst destroy_loop.simps) simp
next
  case (Cons q qs)
  then obtain r where q: "nxt = q" "q \<noteq> NULL" "next_at s q 0 = Some r" "chain s 0 q (q # qs)" by auto
  obtain n where n: "mem s cur = Some n" using chain_ts [OF Cons.prems(1)] by auto
  let ?s = "s\<lparr>mem := mem s |` (- {cur})\<rparr>"
  have "next_at ?s q 0 = Some r" using Cons.prems(3) q(3) by (simp add: next_at_restrict)
  moreover have "chain ?s 0 q (q # qs)"
  proof -
    have "\<forall>x\<in>set (q # qs). next_at ?s x 0 = next_at s x 0"
    proof
      fix x assume "x \<in> set (q # qs)"
      then have "x \<notin> {cur}" using Cons.prems(3) by auto
      then show "next_at ?s x 0 = next_at s x 0" by (rule next_at_restrict)
    qed
    with q(4) show ?thesis using chain_cong by blast
  qed
  ultimately have "destroy_loop ?s q r =
      Some (last (q # qs), ?s\<lparr>mem := mem ?s |` (- set (butlast (q # qs)))\<rparr>)"
    using Cons.prems(3) by (intro Cons.IH) auto
  with q free_node_eq [OF n] \<open>next_at ?s q 0 = Some r\<close> show ?case
    by (subst destroy_loop.simps) (simp flip: Compl_insert Compl_Un)
qed


lemma skplist_destroy_spec:
  assumes inv: "skp_inv s L" and ne: "L 0 \<noteq> []"
  shows "skplist_destroy s = Some (0, s\<lparr>mem := mem s |` (- set (L 0)), freed := True\<rparr>)"
proof -
  obtain q qs where L: "L 0 = q # qs" using ne by (cases "L 0") auto
  have "lev_ok s (head s) L 0" using inv by (simp add: skp_inv_def)
  then have c: "next_at s (head s) 0 = Some q" "q \<noteq> NULL" "chain s 0 q (q # qs)" "distinct (q # qs)"
    by (auto simp: lev_ok_def L)
  then obtain r where r: "next_at s q 0 = Some r" by auto
  have l: "last (q # qs) \<in> set (q # qs)" "last (q # qs) \<notin> set (butlast (q # qs))"
    using c(4) append_butlast_last_id [of "q # qs"] by (simp, metis distinct_append
        disjoint_insert(1) list.set(2) list.simps(3) not_distinct_conv_prefix distinct_butlast in_set_butlast_appendI)
  obtain n where "mem s (last (q # qs)) = Some n" using chain_ts [OF c(3) l(1)] by auto
  then have n: "mem (s\<lparr>mem := mem s |` (- set (butlast (q # qs)))\<rparr>) (last (q # qs)) = Some n"
    using l(2) by simp
  have "set (q # qs) = insert (last (q # qs)) (set (butlast (q # qs)))"
    by (metis append_butlast_last_id list.distinct(1) list.set(2) rotate1.simps(2) set_rotate1 set_append Un_insert_right sup_bot_right list.set(1))
  then have e: "- set (butlast (q # qs)) \<inter> - {last (q # qs)} = - set (q # qs)" by auto
  show ?thesis
    using c(1,2) r destroy_loop_spec [OF c(3) r c(4)] free_node_eq [OF n]
    by (simp add: skplist_destroy_def L e del: last.simps butlast.simps list.set)
qed

section \<open>Removal\<close>

lemma chain_remove:
  assumes "chain s i h (h # xs @ y # ys)" "distinct (h # xs @ y # ys)"
    and "next_at s y i = Some r" "next_at s' (last (h # xs)) i = Some r"
    and "\<forall>c. c \<noteq> last (h # xs) \<longrightarrow> next_at s' c i = next_at s c i"
  shows "chain s' i h (h # xs @ ys)"
  using assms
proof (induction xs arbitrary: h)
  case Nil
  have "chain s i r ys" using Nil.prems(1,3) by auto
  moreover have "\<forall>c\<in>set ys. next_at s' c i = next_at s c i" using Nil.prems(2,5) by auto
  ultimately have "chain s' i r ys" using chain_cong by blast
  with Nil.prems show ?case by simp
next
  case (Cons x xs)
  have "chain s i x (x # xs @ y # ys)" using Cons.prems(1) by auto
  then have "chain s' i x (x # xs @ ys)"
    using Cons.prems by (intro Cons.IH) auto
  moreover have "h \<noteq> last (x # xs)" using Cons.prems(2) last_in_set [of "x # xs"] by auto
  then have "next_at s' h i = next_at s h i" using Cons.prems by auto
  ultimately show ?case using Cons.prems(1) by auto
qed

lemma remove_loop_ok:
  assumes "\<forall>j<k. lev_ok s h L j" "\<forall>j. Suc j < k \<longrightarrow> set (L (Suc j)) \<subseteq> set (L j)"
    and "k > 0 \<Longrightarrow> start_ok s h L (k - 1) t cur" "\<forall>j<k. \<exists>q\<in>set (L j). t \<le> key_of s q"
    and "\<forall>j<k. \<forall>q\<in>set (L j). key_of s q = t \<longleftrightarrow> q = p"
  shows "\<exists>s'. remove_loop s cur k t p = Some s' \<and>
    (\<forall>j<k. chain s' j h (h # remove1 p (L j))) \<and>
    (\<forall>c j. k \<le> j \<longrightarrow> next_at s' c j = next_at s c j) \<and>
    (\<exists>m. s' = s\<lparr>mem := m\<rparr>) \<and> key_of s' = key_of s \<and> dom (mem s') = dom (mem s)"
  using assms
proof (induction k arbitrary: s cur)
  case 0
  then show ?case by (auto intro!: exI [of _ "mem s"])
next
  case (Suc i)
  let ?A = "takeWhile (\<lambda>q. key_of s q < t) (L i)" and ?D = "dropWhile (\<lambda>q. key_of s q < t) (L i)"
  let ?c = "last (h # ?A)"
  have lev: "lev_ok s h L i" and st: "start_ok s h L i t cur" using Suc.prems(1,3) by simp_all
  obtain q where "q \<in> set (L i)" "t \<le> key_of s q" using Suc.prems(4) by blast
  then have "?D \<noteq> []" by (auto simp: dropWhile_eq_Nil_conv not_less)
  then obtain y ys where D: "?D = y # ys" by (cases ?D) auto
  have so: "sorted_wrt (\<lambda>a b. key_of s a \<le> key_of s b) (L i)" using lev by (simp add: lev_ok_def)
  note y = dropWhile_first [OF so D]
  have Li: "L i = ?A @ y # ys" using D by (metis takeWhile_dropWhile_id)
  have w: "walk s cur i t = Some ?c" "next_at s ?c i = Some y"
    using level_step [OF lev st] by (auto simp: D)
  have ts: "ts_of s y = Some (key_of s y)" using lev_keys [OF lev y(3)] by simp
  have yp: "(key_of s y = t) = (y = p)" using Suc.prems(5) y(3) by blast
  have step: "\<exists>s1. (if key_of s y = t then do { r \<leftarrow> next_at s p i; set_next s ?c i r } else Some s) = Some s1 \<and>
      chain s1 i h (h # remove1 p (L i)) \<and> (\<forall>c j. j \<noteq> i \<longrightarrow> next_at s1 c j = next_at s c j) \<and>
      (\<exists>m. s1 = s\<lparr>mem := m\<rparr>) \<and> key_of s1 = key_of s \<and> dom (mem s1) = dom (mem s)"
  proof (cases "y = p")
    case True
    have ch: "chain s i h (h # ?A @ y # ys)" "distinct (h # ?A @ y # ys)"
      using lev Li by (simp_all add: lev_ok_def)
    obtain r where r: "next_at s y i = Some r"
      using chain_suffix [of s i h "h # ?A" y ys] ch(1) by auto
    from set_next_spec [OF w(2), of r] obtain s1 where s1: "set_next s ?c i r = Some s1"
      "next_at s1 ?c i = Some r" "\<forall>c j. c \<noteq> ?c \<or> j \<noteq> i \<longrightarrow> next_at s1 c j = next_at s c j"
      "\<exists>m. s1 = s\<lparr>mem := m\<rparr>" "key_of s1 = key_of s" "dom (mem s1) = dom (mem s)" by blast
    have "chain s1 i h (h # ?A @ ys)"
      by (rule chain_remove [OF ch r s1(2)]) (use s1(3) in blast)
    moreover have "y \<notin> set ?A" using ch(2) by auto
    then have "remove1 p (L i) = ?A @ ys" unfolding True [symmetric] by (subst Li) (simp add: remove1_append)
    moreover have "(if key_of s y = t then do { r \<leftarrow> next_at s p i; set_next s ?c i r } else Some s) = Some s1"
      using True yp r s1(1) by simp
    ultimately show ?thesis using s1 by (intro exI [of _ s1]) simp
  next
    case False
    have "p \<notin> set (L i)"
    proof
      assume p: "p \<in> set (L i)"
      then have "key_of s p = t" using Suc.prems(5) [rule_format, of i p] by simp
      with p have "t \<in> key_of s ` set (L i)" by auto
      with y(1) yp False show False by blast
    qed
    then have "remove1 p (L i) = L i" by (rule remove1_idem)
    with False yp lev show ?thesis by (auto simp: lev_ok_def intro!: exI [of _ "mem s"])
  qed
  then obtain s1 where s1: "(if key_of s y = t then do { r \<leftarrow> next_at s p i; set_next s ?c i r } else Some s) = Some s1"
      "chain s1 i h (h # remove1 p (L i))" "\<forall>c j. j \<noteq> i \<longrightarrow> next_at s1 c j = next_at s c j"
      "\<exists>m. s1 = s\<lparr>mem := m\<rparr>" "key_of s1 = key_of s" "dom (mem s1) = dom (mem s)" by blast
  have same: "lev_ok s1 h L j = lev_ok s h L j" if "j < i" for j
    using that s1(3,5) chain_cong [of "h # L j" s1 j s h] by (simp add: lev_ok_def del: chain.simps)
  have "\<exists>s'. remove_loop s1 ?c i t p = Some s' \<and>
    (\<forall>j<i. chain s' j h (h # remove1 p (L j))) \<and>
    (\<forall>c j. i \<le> j \<longrightarrow> next_at s' c j = next_at s1 c j) \<and>
    (\<exists>m. s' = s1\<lparr>mem := m\<rparr>) \<and> key_of s' = key_of s1 \<and> dom (mem s') = dom (mem s1)"
  proof (rule Suc.IH)
    show "i > 0 \<Longrightarrow> start_ok s1 h L (i - 1) t ?c"
      using start_below [OF lev, of "i - 1" t] Suc.prems(2) s1(5)
      by (cases i) (auto simp: start_ok_def)
    show "\<forall>j<i. \<forall>q\<in>set (L j). key_of s1 q = t \<longleftrightarrow> q = p"
      unfolding s1(5) using Suc.prems(5) less_SucI by blast
  qed (use Suc.prems same s1(5) in auto)
  from this [unfolded s1(5,6)] obtain s' where s': "remove_loop s1 ?c i t p = Some s'"
    "\<forall>j<i. chain s' j h (h # remove1 p (L j))" "\<forall>c j. i \<le> j \<longrightarrow> next_at s' c j = next_at s1 c j"
    "\<exists>m. s' = s1\<lparr>mem := m\<rparr>" "key_of s' = key_of s" "dom (mem s') = dom (mem s)" by blast
  have "chain s' i h (h # remove1 p (L i))"
    using s1(2) s'(3) chain_cong [of "h # remove1 p (L i)" s' i s1 h] by (simp del: chain.simps)
  then have "\<forall>j<Suc i. chain s' j h (h # remove1 p (L j))"
    using s'(2) less_Suc_eq by simp
  moreover have "\<forall>c j. Suc i \<le> j \<longrightarrow> next_at s' c j = next_at s c j" using s'(3) s1(3) by auto
  moreover have "remove_loop s cur (Suc i) t p = Some s'"
    by (simp only: remove_loop.simps w ts s1(1) s'(1) Option.bind.bind_lunit)
  ultimately show ?case using s'(4,5,6) s1(4) by auto
qed


lemma sorted_wrt_remove1: "sorted_wrt P xs \<Longrightarrow> sorted_wrt P (remove1 p xs)"
  by (induction xs) (auto dest: subsetD [OF set_remove1_subset])

lemma as_int_small: "unat t < 2147483648 \<Longrightarrow> as_int t = t"
proof -
  assume "unat t < 2147483648"
  then have t: "0 \<le> uint t" "uint t < 2147483648" by (simp_all add: nat_less_iff flip: nat_uint_eq)
  then have u: "uint (ucast t :: u32) = uint t"
    by (simp add: unsigned_ucast_eq take_bit_int_eq_self)
  then have "sint (ucast t :: u32) = uint t"
    using t signed_take_bit_int_eq_self [of 31 "uint t"] by (simp add: sint_uint order.trans [OF _ t(1)])
  then show ?thesis by (simp add: as_int_def scast_eq)
qed

lemma skplist_remove_spec:
  assumes inv: "skp_inv s L" and p: "p \<in> set (L 0)" and t: "unat (key_of s p) < 2147483648"
    and u: "\<forall>q\<in>set (L 0). key_of s q = key_of s p \<longrightarrow> q = p"
    and top: "\<forall>j<height s. \<exists>q\<in>set (L j). key_of s p \<le> key_of s q"
  shows "\<exists>s'. skplist_remove p s = Some (0, s') \<and> skp_inv s' (\<lambda>i. remove1 p (L i)) \<and>
    mem s' p = None \<and> (\<forall>q. q \<noteq> p \<longrightarrow> key_of s' q = key_of s q)"
proof -
  let ?t = "key_of s p" and ?h = "head s"
  note lev = skp_levels [OF inv]
  have sub: "set (L j) \<subseteq> set (L 0)" if "j < 32" for j
    using that
  proof (induction j)
    case (Suc j)
    then have "set (L j) \<subseteq> set (L 0)" "set (L (Suc j)) \<subseteq> set (L j)" using inv by (auto simp: skp_inv_def)
    then show ?case by blast
  qed simp
  have H: "height s \<le> 32" "0 < height s" using inv p by (auto simp: skp_inv_def)
  have uq: "\<forall>j<height s. \<forall>q\<in>set (L j). key_of s q = ?t \<longleftrightarrow> q = p"
  proof (intro allI impI ballI)
    fix j q assume "j < height s" "q \<in> set (L j)"
    then have "q \<in> set (L 0)" using sub [of j] H(1) by auto
    with u show "key_of s q = ?t \<longleftrightarrow> q = p" by auto
  qed
  from remove_loop_ok [OF lev _ top uq, of ?h] obtain s' where s':
    "remove_loop s ?h (height s) ?t p = Some s'"
    "\<forall>j<height s. chain s' j ?h (?h # remove1 p (L j))"
    "\<forall>c j. height s \<le> j \<longrightarrow> next_at s' c j = next_at s c j"
    "\<exists>m. s' = s\<lparr>mem := m\<rparr>" "key_of s' = key_of s" "dom (mem s') = dom (mem s)"
    by (auto simp: start_ok_def)
  let ?s = "s'\<lparr>mem := (mem s')(p := None), len := len s' - 1\<rparr>"
  have fields: "head s' = ?h" "height s' = height s" "len s' = len s" using s'(4) by auto
  have l0: "lev_ok s ?h L 0" using inv by (simp add: skp_inv_def)
  have ph: "p \<noteq> ?h" "p \<noteq> NULL" using l0 p lev_keys(2) [OF l0 p] by (auto simp: lev_ok_def)
  have "skplist_remove p s = Some (0, ?s)"
    using s'(1) ph lev_keys(1) [OF l0 p] as_int_small [OF t] by (simp add: skplist_remove_def)
  moreover have lev': "lev_ok ?s ?h (\<lambda>i. remove1 p (L i)) i" if "i < 32" for i
  proof -
    have li: "lev_ok s ?h L i" using inv that by (simp add: skp_inv_def)
    have pn: "p \<notin> set (?h # remove1 p (L i))" using li ph by (auto simp: lev_ok_def)
    have "chain s' i ?h (?h # remove1 p (L i))"
    proof (cases "i < height s")
      case False
      then have e: "L i = []" using inv by (auto simp: skp_inv_def)
      have "chain s i ?h [?h]" using li e by (simp add: lev_ok_def)
      then show ?thesis using s'(3) False chain_cong [of "[?h]" s' i s ?h]
        by (simp add: e del: chain.simps)
    qed (use s'(2) in blast)
    moreover have "\<forall>q\<in>set (?h # remove1 p (L i)). next_at ?s q i = next_at s' q i"
      using pn by (auto simp: next_at_def)
    ultimately have "chain ?s i ?h (?h # remove1 p (L i))" using chain_cong by blast
    moreover have "\<forall>q\<in>set (remove1 p (L i)). key_of ?s q = key_of s q"
      using pn s'(5) by (auto simp: key_of_def fun_eq_iff)
    then have "sorted_wrt (\<lambda>a b. key_of ?s a \<le> key_of ?s b) (remove1 p (L i)) =
      sorted_wrt (\<lambda>a b. key_of s a \<le> key_of s b) (remove1 p (L i))"
      by (intro sorted_key_cong) blast
    moreover have "sorted_wrt (\<lambda>a b. key_of s a \<le> key_of s b) (remove1 p (L i))"
      using li by (simp add: lev_ok_def sorted_wrt_remove1)
    moreover have "distinct (?h # remove1 p (L i))"
      using li by (auto simp: lev_ok_def distinct_remove1 dest: subsetD [OF set_remove1_subset])
    ultimately show ?thesis by (simp add: lev_ok_def del: chain.simps)
  qed
  moreover have "set (remove1 p (L (Suc i))) \<subseteq> set (remove1 p (L i))" if "i < 31" for i
  proof -
    have "distinct (L i)" "distinct (L (Suc i))" "set (L (Suc i)) \<subseteq> set (L i)"
      using inv that by (auto simp: skp_inv_def lev_ok_def)
    then show ?thesis by auto
  qed
  moreover obtain n where "length (L 0) = Suc n" using p by (cases "L 0") auto
  then have "int (length (remove1 p (L 0))) = len s - 1"
    using inv p by (simp add: skp_inv_def length_remove1)
  ultimately have "skp_inv ?s (\<lambda>i. remove1 p (L i))"
    using inv fields by (simp add: skp_inv_def)
  moreover have "\<forall>q. q \<noteq> p \<longrightarrow> key_of ?s q = key_of s q"
    using s'(5) by (auto simp: key_of_def fun_eq_iff)
  ultimately show ?thesis using \<open>skplist_remove p s = Some (0, ?s)\<close>
    by (intro exI [of _ ?s]) simp
qed

end
