(* ===== verification/Skiplist_Correct.thy ===== *)
theory Skiplist_Correct
  imports Skiplist_Inv Interfaces
begin

text \<open>
  The skip list as a sorted bag of timestamps, and the properties of the component.
\<close>

section \<open>The skip list is a sorted bag\<close>

type_synonym request = "ptr \<times> u32 list \<times> u64 \<times> ptr"

definition skp_ok :: "skplist \<Rightarrow> bool" where
  "skp_ok s \<longleftrightarrow> (\<exists>L. skp_inv s L)"

definition skp_add :: "request \<Rightarrow> skplist \<Rightarrow> skplist option" where
  "skp_add a s = (case a of (p, rs, t, f) \<Rightarrow> map_option snd (skplist_insert p rs t f s))"

definition skp_key :: "request \<Rightarrow> u64" where
  "skp_key a = fst (snd (snd a))"

definition skp_ready :: "skplist \<Rightarrow> request \<Rightarrow> bool" where
  "skp_ready s a \<longleftrightarrow> fst a \<noteq> NULL \<and> mem s (fst a) = None"

definition skp_apart :: "request \<Rightarrow> request \<Rightarrow> bool" where
  "skp_apart a b \<longleftrightarrow> fst a \<noteq> fst b"

text \<open>The timestamps along level 0, the last line \<open>skplist_print\<close> prints.\<close>

definition skp_keys :: "skplist \<Rightarrow> u64 list option" where
  "skp_keys s = next_at s (head s) 0 \<bind> (\<lambda>q. print_level s q 0)"

definition skp_elems :: "skplist \<Rightarrow> u64 multiset" where
  "skp_elems s = mset (the (skp_keys s))"

lemma skp_keys_inv: "skp_inv s L \<Longrightarrow> skp_keys s = Some (map (key_of s) (L 0))"
proof -
  assume inv: "skp_inv s L"
  then have "lev_ok s (head s) L 0" by (simp add: skp_inv_def)
  then obtain r where "next_at s (head s) 0 = Some r" "chain s 0 r (L 0)"
    by (auto simp: lev_ok_def)
  then show ?thesis by (simp add: skp_keys_def print_level_spec)
qed

lemma mset_place [simp]: "mset (place f t p xs) = add_mset p (mset xs)"
  by (simp add: place_def) (metis mset_append takeWhile_dropWhile_id)

lemma skp_add_ok:
  assumes "skp_ok s" "skp_ready s a"
  shows "\<exists>s'. skp_add a s = Some s' \<and> skp_ok s' \<and> skp_elems s' = add_mset (skp_key a) (skp_elems s) \<and>
    (\<forall>b. skp_apart a b \<longrightarrow> skp_ready s b \<longrightarrow> skp_ready s' b)"
proof -
  obtain L where L: "skp_inv s L" using assms(1) by (auto simp: skp_ok_def)
  obtain p rs t f where a: "a = (p, rs, t, f)" by (cases a) auto
  have p: "p \<noteq> NULL" "mem s p = None" using assms(2) by (simp_all add: skp_ready_def a)
  from skplist_insert_spec [OF L p, of rs t f] obtain s' L' where s':
    "skplist_insert p rs t f s = Some (0, s')" "skp_inv s' L'"
    "L' = (\<lambda>i. if i < random_leve rs then place (key_of s') t p (L i) else L i)"
    "dom (mem s') = insert p (dom (mem s))" "key_of s' = (key_of s)(p := t)" by blast
  have "lev_ok s (head s) L 0" using L by (simp add: skp_inv_def)
  then have "p \<notin> set (L 0)" using chain_ts [of s 0 "head s" "head s # L 0" p] p(2)
    by (auto simp: lev_ok_def)
  then have k: "map (key_of s') (L 0) = map (key_of s) (L 0)" by (auto simp: s'(5))
  have "mset (map (key_of s') (place (key_of s') t p (L 0))) = add_mset t (mset (map (key_of s') (L 0)))"
    by (simp add: s'(5))
  then have "skp_elems s' = add_mset t (skp_elems s)"
    using random_leve_bounds [of rs] by (simp add: skp_elems_def skp_keys_inv [OF L] skp_keys_inv [OF s'(2)] s'(3) k)
  moreover have "skp_ready s' b" if "skp_apart a b" "skp_ready s b" for b
    using that s'(4) by (auto simp: skp_apart_def skp_ready_def a domIff)
  ultimately show ?thesis using s' by (auto simp: skp_add_def a skp_ok_def skp_key_def)
qed

interpretation skp: sorted_bag skp_ok skp_elems skp_add skp_key skp_ready skp_apart "\<lambda>s n. True" skp_keys
proof unfold_locales
  fix s assume "skp_ok s"
  then obtain L where L: "skp_inv s L" by (auto simp: skp_ok_def)
  then have "sorted_wrt (\<lambda>a b. key_of s a \<le> key_of s b) (L 0)" by (simp add: skp_inv_def lev_ok_def)
  then show "\<exists>xs. skp_keys s = Some xs \<and> sorted xs \<and> mset xs = skp_elems s"
    by (simp add: skp_elems_def skp_keys_inv [OF L] sorted_map)
qed (use skp_add_ok in \<open>auto\<close>)

section \<open>Properties\<close>

text \<open>
  C7. Inserting any timers, with any values of the random generator, into an empty skip list
  returns, and level 0 then lists their timestamps in increasing order, duplicates included.
\<close>

theorem skplist_insert_sorts:
  assumes "h \<noteq> NULL" "\<forall>a\<in>set as. fst a \<noteq> NULL \<and> fst a \<noteq> h" "distinct (map fst as)"
  shows "(add_all skp_add as (skplist_create h f) \<bind> skp_keys) = Some (sort (map skp_key as))"
proof (rule skp.add_all_sorts)
  show "skp_ok (skplist_create h f)" using skplist_create_inv [OF assms(1)] by (auto simp: skp_ok_def)
  show "skp_elems (skplist_create h f) = {#}"
    by (simp add: skp_elems_def skp_keys_inv [OF skplist_create_inv [OF assms(1)]])
  show "\<forall>a\<in>set as. skp_ready (skplist_create h f) a"
    using assms(2) by (simp add: skp_ready_def skplist_create_def)
  show "sorted_wrt skp_apart as"
    using assms(3) by (induction as) (auto simp: skp_apart_def)
qed simp

theorem skplist_insert_sorts_witness:
  "(add_all skp_add [(10, [1, 65535], 7, 0), (11, [], 3, 0), (12, [5, 5], 7, 0)] (skplist_create 1 0) \<bind> skp_keys) =
     Some [3, 7, 7]"
  using skplist_insert_sorts [of 1 "[(10, [1, 65535], 7, 0), (11, [], 3, 0), (12, [5, 5], 7, 0)]" 0]
  by (simp add: skp_key_def)

text \<open>
  The structure of the skip list: an insertion puts the node into its place on each of the
  levels it takes part in and keeps every level sorted, without repetition and part of the level
  below, and the count right.
\<close>

theorem skplist_insert_keeps_levels:
  assumes "skp_inv s L" "p \<noteq> NULL" "mem s p = None"
  shows "\<exists>s' L'. skplist_insert p rs t f s = Some (0, s') \<and> skp_inv s' L' \<and>
    L' = (\<lambda>i. if i < random_leve rs then place (key_of s') t p (L i) else L i) \<and>
    key_of s' = (key_of s)(p := t) \<and> len s' = len s + 1"
proof -
  from skplist_insert_spec [OF assms, of rs t f] obtain s' L' where s':
    "skplist_insert p rs t f s = Some (0, s')" "skp_inv s' L'"
    "L' = (\<lambda>i. if i < random_leve rs then place (key_of s') t p (L i) else L i)"
    "key_of s' = (key_of s)(p := t)" by blast
  have "len s' = len s + 1"
    using s'(2) assms(1) random_leve_bounds [of rs] by (simp add: skp_inv_def s'(3))
  with s' show ?thesis by blast
qed

theorem skplist_insert_keeps_levels_witness:
  "\<exists>s' L'. skplist_insert 10 [] 7 0 (skplist_create 1 0) = Some (0, s') \<and> skp_inv s' L' \<and> L' 0 = [10]"
  using skplist_insert_keeps_levels [OF skplist_create_inv [of 1 0], of 10 "[]" 7 0]
    random_leve_bounds [of "[]"]
  by (fastforce simp: skplist_create_def place_def)

text \<open>
  \<open>skplist_find\<close> answers correctly, 0 exactly for the timestamps in the list, when every level
  has a node that is not before the timestamp.
\<close>

theorem skplist_find_correct:
  assumes "skp_inv s L" "\<forall>j<height s. \<exists>q\<in>set (L j). t \<le> key_of s q"
  shows "skplist_find t s = Some (if t \<in> key_of s ` set (L 0) then 0 else - 1)"
  by (rule skplist_find_spec [OF assms])

definition two_nodes :: skplist where
  "two_nodes = \<lparr>head = 1, len = 2, height = 2,
     mem = [1 \<mapsto> \<lparr>timestamp = 0, func = 0, level = [10, 10] @ replicate 30 0\<rparr>,
            10 \<mapsto> \<lparr>timestamp = 5, func = 0, level = [11, 0]\<rparr>,
            11 \<mapsto> \<lparr>timestamp = 7, func = 0, level = [0]\<rparr>], freed = False\<rparr>"

definition two_levels :: "nat \<Rightarrow> ptr list" where
  "two_levels i = (if i = 0 then [10, 11] else if i = 1 then [10] else [])"

lemma two_nodes_inv: "skp_inv two_nodes two_levels"
proof -
  have "lev_ok two_nodes 1 two_levels i" if "i < 32" for i
  proof -
    consider "i = 0" | "i = 1" | "2 \<le> i" by linarith
    then show ?thesis
    proof cases
      case 3
      then have "([10, 10] @ replicate 30 NULL) ! i = NULL"
        using that by (simp add: nth_append)
      with 3 that show ?thesis
        by (simp add: lev_ok_def two_nodes_def two_levels_def next_at_def)
    qed (simp_all add: lev_ok_def two_nodes_def two_levels_def next_at_def key_of_def)
  qed
  then show ?thesis by (simp add: skp_inv_def two_nodes_def two_levels_def)
qed

theorem skplist_find_correct_witness:
  "skplist_find 5 two_nodes = Some 0 \<and> skplist_find 4 two_nodes = Some (- 1)"
proof -
  have "\<forall>j<height two_nodes. \<exists>q\<in>set (two_levels j). t \<le> key_of two_nodes q" if "t \<le> 5" for t
    using that by (auto simp: two_nodes_def two_levels_def key_of_def less_Suc_eq numeral_2_eq_2)
  from skplist_find_correct [OF two_nodes_inv this] show ?thesis
    by (auto simp: two_levels_def two_nodes_def key_of_def)
qed

text \<open>
  Otherwise \<open>skplist_find\<close> goes through the null pointer: looking up a timestamp after all
  those of the highest level crashes, even when the timestamp is in the list.
\<close>

theorem skplist_find_null_dereference:
  assumes "skp_inv s L" "L 0 \<noteq> []" "mem s NULL = None" "0 < height s"
    and "\<forall>q\<in>set (L (height s - 1)). key_of s q < t"
  shows "skplist_find t s = None"
  by (rule skplist_find_crash [OF assms])

theorem skplist_find_null_dereference_witness:
  "7 \<in> key_of two_nodes ` set (two_levels 0) \<and> skplist_find 7 two_nodes = None"
  using skplist_find_null_dereference [OF two_nodes_inv, of 7]
  by (simp add: two_levels_def two_nodes_def key_of_def)

text \<open>
  Removing a node takes it out of every level and releases it, when its timestamp is its own,
  fits in 31 bits, and every level has a node that is not before it.
\<close>

theorem skplist_remove_correct:
  assumes "skp_inv s L" "p \<in> set (L 0)" "unat (key_of s p) < 2147483648"
    and "\<forall>q\<in>set (L 0). key_of s q = key_of s p \<longrightarrow> q = p"
    and "\<forall>j<height s. \<exists>q\<in>set (L j). key_of s p \<le> key_of s q"
  shows "\<exists>s'. skplist_remove p s = Some (0, s') \<and> skp_inv s' (\<lambda>i. remove1 p (L i)) \<and>
    mem s' p = None \<and> (\<forall>q. q \<noteq> p \<longrightarrow> key_of s' q = key_of s q)"
  by (rule skplist_remove_spec [OF assms])

theorem skplist_remove_correct_witness:
  "\<exists>s'. skplist_remove 10 two_nodes = Some (0, s') \<and> skp_keys s' = Some [7]"
proof -
  have "\<forall>j<height two_nodes. \<exists>q\<in>set (two_levels j). key_of two_nodes 10 \<le> key_of two_nodes q"
    by (auto simp: two_nodes_def two_levels_def key_of_def less_Suc_eq numeral_2_eq_2)
  from skplist_remove_correct [OF two_nodes_inv _ _ _ this] obtain s' where
    "skplist_remove 10 two_nodes = Some (0, s')" "skp_inv s' (\<lambda>i. remove1 10 (two_levels i))"
    "\<forall>q. q \<noteq> 10 \<longrightarrow> key_of s' q = key_of two_nodes q"
    by (auto simp: two_levels_def two_nodes_def key_of_def)
  then show ?thesis using skp_keys_inv [of s' "\<lambda>i. remove1 10 (two_levels i)"]
    by (simp add: two_levels_def two_nodes_def key_of_def)
qed

text \<open>
  Destroying a list that is not empty releases exactly its nodes and the list, but never the
  head node that \<open>skplist_create\<close> allocated.
\<close>

theorem skplist_destroy_leaks_head:
  assumes "skp_inv s L" "L 0 \<noteq> []"
  shows "\<exists>s'. skplist_destroy s = Some (0, s') \<and> freed s' \<and> mem s' = mem s |` (- set (L 0)) \<and>
    head s \<in> dom (mem s')"
proof -
  have "lev_ok s (head s) L 0" using assms(1) by (simp add: skp_inv_def)
  then have "head s \<notin> set (L 0)" "\<exists>n. mem s (head s) = Some n"
    using chain_ts [of s 0 "head s" "head s # L 0" "head s"] by (auto simp: lev_ok_def)
  with skplist_destroy_spec [OF assms] show ?thesis by auto
qed

theorem skplist_destroy_leaks_head_witness:
  "\<exists>s'. skplist_destroy two_nodes = Some (0, s') \<and> freed s' \<and> dom (mem s') = {1}"
  using skplist_destroy_leaks_head [OF two_nodes_inv]
  by (auto simp: two_levels_def two_nodes_def restrict_map_def dom_def split: if_splits)

end
