(* ===== verification/Minheap.thy ===== *)
theory Minheap
  imports Prelude
begin

text \<open>
  The timer heap of \<open>util/minheap-timer.c\<close> and \<open>util/minheap-timer.h\<close>.

  \<open>slots\<close> is the memory behind \<open>timer->list\<close>, as many pointers as the bytes the allocator was asked
  for hold; an access past it is \<open>None\<close>, as is one through the null pointer. \<open>last\<close> and \<open>amount\<close>
  are 32-bit words.
\<close>

section \<open>The data\<close>

record timer_entry =
  entry_id :: u16
  expire :: u32
  shutdown :: u8
  next_entry :: ptr
  callback :: ptr
  arg :: ptr

record mhp_timer =
  slots :: "ptr list"
  last_ix :: u32
  amount :: u32
  entries :: "timer_entry heap"

definition MINHEAP_TIMER_SIZE_MIN :: u32 where "MINHEAP_TIMER_SIZE_MIN = 9"

definition slot :: "mhp_timer \<Rightarrow> nat \<Rightarrow> ptr option" where
  "slot s i = (if i < length (slots s) then Some (slots s ! i) else None)"

definition set_slot :: "mhp_timer \<Rightarrow> nat \<Rightarrow> ptr \<Rightarrow> mhp_timer option" where
  "set_slot s i p = (if i < length (slots s) then Some (s\<lparr>slots := (slots s)[i := p]\<rparr>) else None)"

definition swap_ptr :: "mhp_timer \<Rightarrow> nat \<Rightarrow> nat \<Rightarrow> mhp_timer option" where
  "swap_ptr s a b = do {
     tmp \<leftarrow> slot s a;
     q \<leftarrow> slot s b;
     s \<leftarrow> set_slot s a q;
     set_slot s b tmp
   }"

definition timer_entry_greater :: "mhp_timer \<Rightarrow> ptr \<Rightarrow> ptr \<Rightarrow> bool option" where
  "timer_entry_greater s a b = do { x \<leftarrow> entries s a; y \<leftarrow> entries s b; Some (expire x > expire y) }"

section \<open>Growing\<close>

text \<open>
  \<open>realloc (timer->list, size)\<close> asks for \<open>size\<close> bytes, 8 to a pointer. \<open>mem\<close> is \<open>None\<close> when it
  fails, and otherwise what the memory after the old contents holds.
\<close>

definition reserve :: "ptr list option \<Rightarrow> u32 \<Rightarrow> mhp_timer \<Rightarrow> int \<times> mhp_timer" where
  "reserve mem n s =
     (if n > amount s then
        let sz = (if amount s * 2 > n then amount s * 2 else n) in
        case mem of None \<Rightarrow> (- 1, s)
        | Some junk \<Rightarrow> (0, s\<lparr>slots := take (unat sz div 8) (slots s @ junk), amount := sz\<rparr>)
      else (0, s))"

section \<open>Restoring the order\<close>

text \<open>The parent of position 0 is computed but not used.\<close>

partial_function (option) adjust_up :: "mhp_timer \<Rightarrow> nat \<Rightarrow> mhp_timer option" where
  "adjust_up s pos =
     (if pos > 0 then do {
        let parent = (pos - 1) div 2;
        a \<leftarrow> slot s parent;
        b \<leftarrow> slot s pos;
        g \<leftarrow> timer_entry_greater s a b;
        if g then swap_ptr s parent pos \<bind> (\<lambda>s. adjust_up s parent) else Some s
      } else Some s)"

text \<open>
  The precedence of C makes \<open>(pos+1)>>1 - 1\<close> the shift by \<open>1 - 1\<close>: \<open>lchild\<close> is \<open>pos + 1\<close>, and \<open>rchild\<close>
  is \<open>(pos + 1) / 2\<close>.
\<close>

definition lchild :: "nat \<Rightarrow> nat" where "lchild pos = (pos + 1) div 2 ^ (1 - 1)"
definition rchild :: "nat \<Rightarrow> nat" where "rchild pos = (pos + 1) div 2 ^ 1"

definition lower_child :: "mhp_timer \<Rightarrow> nat \<Rightarrow> nat option" where
  "lower_child s pos = do {
     a \<leftarrow> slot s (lchild pos);
     b \<leftarrow> slot s (rchild pos);
     g \<leftarrow> timer_entry_greater s a b;
     Some (if g then rchild pos else lchild pos)
   }"

partial_function (option) down_loop :: "mhp_timer \<Rightarrow> nat \<Rightarrow> nat \<Rightarrow> mhp_timer option" where
  "down_loop s pos lower = do {
     a \<leftarrow> slot s pos;
     b \<leftarrow> slot s lower;
     g \<leftarrow> timer_entry_greater s a b;
     if g then do {
       s \<leftarrow> swap_ptr s pos lower;
       l \<leftarrow> lower_child s lower;
       down_loop s lower l
     } else Some s
   }"

definition adjust_down :: "mhp_timer \<Rightarrow> nat \<Rightarrow> mhp_timer option" where
  "adjust_down s pos = do { p \<leftarrow> slot s pos; l \<leftarrow> lower_child s pos; down_loop s pos l }"

section \<open>The operations\<close>

definition mhp_timer_init :: "u32 \<Rightarrow> mhp_timer" where
  "mhp_timer_init sz = (
     let n = (if sz > MINHEAP_TIMER_SIZE_MIN then sz else MINHEAP_TIMER_SIZE_MIN) in
     \<lparr>slots = replicate (unat n) NULL, last_ix = 0, amount = n, entries = Map.empty\<rparr>)"

text \<open>\<open>t\<close> and \<open>l\<close> are what \<open>calloc\<close> returns for the timer and for its list; the operations below are
  those on a timer that is not null.\<close>

definition mhp_timer_create :: "ptr \<Rightarrow> ptr \<Rightarrow> u32 \<Rightarrow> mhp_timer option" where
  "mhp_timer_create t l sz = (if t = NULL then None else if l = NULL then None else Some (mhp_timer_init sz))"

definition free_entry :: "ptr \<Rightarrow> mhp_timer \<Rightarrow> mhp_timer option" where
  "free_entry p s = (case entries s p of None \<Rightarrow> None | Some e \<Rightarrow> Some (s\<lparr>entries := (entries s)(p := None)\<rparr>))"

text \<open>\<open>destroy_loop s i k cnt\<close>: the iterations from \<open>i\<close> on, \<open>k\<close> of them left.\<close>

fun destroy_loop :: "mhp_timer \<Rightarrow> nat \<Rightarrow> nat \<Rightarrow> nat \<Rightarrow> mhp_timer option" where
  "destroy_loop s i 0 cnt = Some s"
| "destroy_loop s i (Suc k) cnt = do {
     p \<leftarrow> slot s i;
     (s, cnt) \<leftarrow> (if p \<noteq> NULL then do {
                    s \<leftarrow> free_entry p s;
                    s \<leftarrow> set_slot s i NULL;
                    Some (s, cnt + 1)
                  } else Some (s, cnt));
     if cnt = unat (last_ix s) then Some s else destroy_loop s (i + 1) k cnt
   }"

definition mhp_timer_destroy :: "mhp_timer \<Rightarrow> mhp_timer option" where
  "mhp_timer_destroy s = do {
     s \<leftarrow> destroy_loop s 0 (unat (amount s)) 0;
     Some (s\<lparr>slots := []\<rparr>)
   }"

text \<open>\<open>p\<close> is what \<open>calloc\<close> returns for the entry, \<open>mem\<close> what \<open>realloc\<close> does.\<close>

definition mhp_timer_push ::
  "ptr \<Rightarrow> ptr list option \<Rightarrow> u32 \<Rightarrow> ptr \<Rightarrow> ptr \<Rightarrow> mhp_timer \<Rightarrow> (int \<times> mhp_timer) option" where
  "mhp_timer_push p mem e cb a s =
     (if p = NULL then Some (- 1, s)
      else do {
        let s = s\<lparr>entries := (entries s)(p \<mapsto> \<lparr>entry_id = 0, expire = e, shutdown = 0,
                    next_entry = NULL, callback = cb, arg = a\<rparr>)\<rparr>;
        cur \<leftarrow> slot s 0;
        if cur = NULL then do {
          s \<leftarrow> set_slot s 0 p;
          Some (0, s)
        } else do {
          let (ret, s) = reserve mem (last_ix s + 1) s;
          if ret = - 1 then Some (- 1, s)
          else do {
            let s = s\<lparr>last_ix := last_ix s + 1\<rparr>;
            s \<leftarrow> set_slot s (unat (last_ix s)) p;
            s \<leftarrow> adjust_up s (unat (last_ix s));
            Some (0, s)
          }
        }
      })"

text \<open>\<open>nhp_timer_pop\<close> stores the entry through its parameter; it has no return statement.\<close>

definition nhp_timer_pop :: "mhp_timer \<Rightarrow> (ptr \<times> mhp_timer) option" where
  "nhp_timer_pop s = do {
     p \<leftarrow> slot s 0;
     s \<leftarrow> swap_ptr s 0 (unat (last_ix s));
     s \<leftarrow> adjust_down (s\<lparr>last_ix := last_ix s - 1\<rparr>) 0;
     Some (p, s)
   }"

definition mhp_timer_top :: "mhp_timer \<Rightarrow> ptr option" where
  "mhp_timer_top s = slot s 0"

lemmas mhp_loops [code] = adjust_up.simps down_loop.simps

end
