(* ===== verification/Minheap_Inv.thy ===== *)
theory Minheap_Inv
  imports Minheap
begin

text \<open>
  The heap order of the timer heap's slots, the invariant \<open>mhp_ok\<close> of the whole structure, and what
  swimming up does to them.
\<close>

section \<open>The heap in the slots\<close>

text \<open>\<open>used s\<close> is the number of timers: \<open>last\<close> is the position of the last one, and the heap is empty
  when position 0 is null.\<close>

definition used :: "mhp_timer \<Rightarrow> nat" where
  "used s = (if slot s 0 = Some NULL then 0 else Suc (unat (last_ix s)))"

definition key_of :: "mhp_timer \<Rightarrow> ptr \<Rightarrow> u32" where
  "key_of s p = (case entries s p of None \<Rightarrow> 0 | Some e \<Rightarrow> expire e)"

text \<open>\<open>heap_but f n p\<close>: no parent below \<open>n\<close> exceeds its child, except perhaps the parent of \<open>p\<close>.\<close>

definition heap_but :: "(nat \<Rightarrow> 'a::linorder) \<Rightarrow> nat \<Rightarrow> nat \<Rightarrow> bool" where
  "heap_but f n p \<longleftrightarrow> (\<forall>i<n. 0 < i \<longrightarrow> i \<noteq> p \<longrightarrow> f ((i - 1) div 2) \<le> f i)"

definition mhp_ok :: "mhp_timer \<Rightarrow> bool" where
  "mhp_ok s \<longleftrightarrow> length (slots s) = unat (amount s) \<and> 2 \<le> unat (amount s) \<and> used s \<le> unat (amount s) \<and>
     (used s = 0 \<longrightarrow> last_ix s = 0) \<and>
     distinct (take (used s) (slots s)) \<and>
     (\<forall>i<used s. slots s ! i \<noteq> NULL \<and> entries s (slots s ! i) \<noteq> None) \<and>
     (\<forall>i. used s \<le> i \<longrightarrow> i < length (slots s) \<longrightarrow> slots s ! i = NULL) \<and>
     entries s NULL = None \<and>
     heap_but (\<lambda>i. key_of s (slots s ! i)) (used s) 0"

definition mhp_keys :: "mhp_timer \<Rightarrow> u32 multiset" where
  "mhp_keys s = mset (map (key_of s) (take (used s) (slots s)))"

section \<open>Swimming up\<close>

lemma key_of_entry: "entries s p = Some e \<Longrightarrow> key_of s p = expire e"
  by (simp add: key_of_def)

lemma greater_key:
  "entries s a \<noteq> None \<Longrightarrow> entries s b \<noteq> None \<Longrightarrow> timer_entry_greater s a b = Some (key_of s b < key_of s a)"
  by (auto simp: timer_entry_greater_def key_of_def)

lemma swap_ptr_eq:
  "a < length (slots s) \<Longrightarrow> b < length (slots s) \<Longrightarrow>
   swap_ptr s a b = Some (s\<lparr>slots := (slots s)[a := slots s ! b, b := slots s ! a]\<rparr>)"
  by (simp add: swap_ptr_def slot_def set_slot_def)

lemma mset_take_swap:
  "a < n \<Longrightarrow> b < n \<Longrightarrow> n \<le> length xs \<Longrightarrow> mset (take n (xs[a := xs ! b, b := xs ! a])) = mset (take n xs)"
  using mset_swap [of b "take n xs" a] by (simp add: take_update_swap)

lemma heap_but_swim:
  assumes h: "heap_but f n p" and p: "0 < p" "p < n" and q: "q = (p - 1) div 2"
    and above: "\<forall>i<n. 0 < i \<longrightarrow> (i - 1) div 2 = p \<longrightarrow> f q \<le> f i"
    and less: "f p < f q" and g: "g = f(q := f p, p := f q)"
  shows "heap_but g n q" "0 < q \<Longrightarrow> \<forall>i<n. 0 < i \<longrightarrow> (i - 1) div 2 = q \<longrightarrow> g ((q - 1) div 2) \<le> g i"
proof -
  have "q < p" using p q by simp
  have ord: "f ((i - 1) div 2) \<le> f i" if "i < n" "0 < i" "i \<noteq> p" for i
    using h that by (simp add: heap_but_def)
  show "heap_but g n q" unfolding heap_but_def
  proof (intro allI impI)
    fix i assume i: "i < n" "0 < i" "i \<noteq> q"
    show "g ((i - 1) div 2) \<le> g i"
    proof (cases "i = p")
      case True
      then show ?thesis using less \<open>q < p\<close> q by (auto simp: g)
    next
      case False
      then have "f ((i - 1) div 2) \<le> f i" using ord i by simp
      moreover have "f q \<le> f i" if "(i - 1) div 2 = p" using above i that by blast
      moreover have "f p \<le> f i" if "(i - 1) div 2 = q" using ord [of i] i False that less by simp
      ultimately show ?thesis using i False by (simp add: g)
    qed
  qed
  show "\<forall>i<n. 0 < i \<longrightarrow> (i - 1) div 2 = q \<longrightarrow> g ((q - 1) div 2) \<le> g i" if "0 < q"
  proof (intro allI impI)
    fix i assume i: "i < n" "0 < i" "(i - 1) div 2 = q"
    have r: "(q - 1) div 2 < q" using that by simp
    have rq: "f ((q - 1) div 2) \<le> f q" using ord [of q] that \<open>q < p\<close> p(2) by simp
    have "q < i" using i by linarith
    show "g ((q - 1) div 2) \<le> g i"
    proof (cases "i = p")
      case True
      then show ?thesis using r rq \<open>q < p\<close> by (simp add: g)
    next
      case False
      have "f q \<le> f i" using ord [of i] i False by simp
      then show ?thesis using False r rq \<open>q < p\<close> \<open>q < i\<close> by (simp add: g)
    qed
  qed
qed

lemma adjust_up_spec:
  assumes "n \<le> length (slots s)" "pos < n" "\<forall>i<n. entries s (slots s ! i) \<noteq> None"
    "heap_but (\<lambda>i. key_of s (slots s ! i)) n pos"
    "0 < pos \<Longrightarrow> \<forall>i<n. 0 < i \<longrightarrow> (i - 1) div 2 = pos \<longrightarrow> key_of s (slots s ! ((pos - 1) div 2)) \<le> key_of s (slots s ! i)"
  shows "\<exists>xs. adjust_up s pos = Some (s\<lparr>slots := xs\<rparr>) \<and> length xs = length (slots s) \<and>
    mset (take n xs) = mset (take n (slots s)) \<and> drop n xs = drop n (slots s) \<and>
    heap_but (\<lambda>i. key_of s (xs ! i)) n 0"
  using assms
proof (induction pos arbitrary: s rule: less_induct)
  case (less pos)
  note prems = less.prems
  let ?q = "(pos - 1) div 2" and ?f = "\<lambda>i. key_of s (slots s ! i)"
  show ?case
  proof (cases "0 < pos \<and> ?f pos < ?f ?q")
    case False
    then have "adjust_up s pos = Some s"
      using prems(1-3) by (subst adjust_up.simps) (auto simp: slot_def Let_def greater_key)
    moreover have "heap_but ?f n 0" using prems(4) False by (auto simp: heap_but_def)
    ultimately show ?thesis by (intro exI [of _ "slots s"]) simp
  next
    case True
    then have q: "?q < pos" by auto
    define ys where "ys = (slots s)[?q := slots s ! pos, pos := slots s ! ?q]"
    let ?s = "s\<lparr>slots := ys\<rparr>"
    have eq: "adjust_up s pos = adjust_up ?s ?q"
      using prems(1-3) True q by (subst adjust_up.simps) (simp add: slot_def Let_def greater_key swap_ptr_eq ys_def)
    have g: "(\<lambda>i. key_of s (ys ! i)) = ?f(?q := ?f pos, pos := ?f ?q)"
      using prems(1,2) q by (auto simp: ys_def fun_eq_iff nth_list_update)
    have k: "key_of ?s = key_of s" by (simp add: key_of_def fun_eq_iff)
    have len: "length ys = length (slots s)" by (simp add: ys_def)
    have ent: "\<forall>i<n. entries ?s (slots ?s ! i) \<noteq> None"
      using prems(1-3) q by (auto simp: ys_def nth_list_update)
    note swim = heap_but_swim [OF prems(4) _ prems(2) refl prems(5) _ g, simplified]
    from less.IH [of ?q ?s] q prems(1,2) True ent swim k len obtain xs where
      "adjust_up ?s ?q = Some (?s\<lparr>slots := xs\<rparr>)" "length xs = length ys"
      "mset (take n xs) = mset (take n ys)" "drop n xs = drop n ys" "heap_but (\<lambda>i. key_of s (xs ! i)) n 0"
      by auto
    moreover have "mset (take n ys) = mset (take n (slots s))" "drop n ys = drop n (slots s)"
      using prems(1,2) q mset_take_swap [of ?q n pos "slots s"] by (simp_all add: ys_def)
    ultimately show ?thesis using eq len by auto
  qed
qed

end
