(* ===== verification/Minheap_Correct.thy ===== *)
theory Minheap_Correct
  imports Minheap_Inv Interfaces
begin

text \<open>
  Pushing, popping and destroying: the heap as a bag that gives its least key, and where the code
  fails.
\<close>

section \<open>Pushing\<close>

lemma mhp_init_ok: "mhp_ok (mhp_timer_init n)" "mhp_keys (mhp_timer_init n) = {#}"
  "used (mhp_timer_init n) = 0"
proof -
  have "9 \<le> unat (if n > MINHEAP_TIMER_SIZE_MIN then n else MINHEAP_TIMER_SIZE_MIN)"
    by (auto simp: MINHEAP_TIMER_SIZE_MIN_def word_less_nat_alt)
  then show "mhp_ok (mhp_timer_init n)" "mhp_keys (mhp_timer_init n) = {#}"
    "used (mhp_timer_init n) = 0"
    by (simp_all add: mhp_timer_init_def mhp_ok_def mhp_keys_def used_def slot_def Let_def heap_but_def)
qed

lemma used_slots:
  assumes "mhp_ok s"
  shows "used s = 0 \<longleftrightarrow> slots s ! 0 = NULL" "0 < used s \<Longrightarrow> used s = Suc (unat (last_ix s))"
    "slot s 0 = Some (slots s ! 0)"
proof -
  have "0 < length (slots s)" using assms by (simp add: mhp_ok_def)
  then show "used s = 0 \<longleftrightarrow> slots s ! 0 = NULL" "0 < used s \<Longrightarrow> used s = Suc (unat (last_ix s))"
    "slot s 0 = Some (slots s ! 0)"
    by (auto simp: used_def slot_def split: if_splits)
qed

definition new_entry :: "u32 \<Rightarrow> ptr \<Rightarrow> ptr \<Rightarrow> timer_entry" where
  "new_entry e cb a = \<lparr>entry_id = 0, expire = e, shutdown = 0, next_entry = NULL, callback = cb, arg = a\<rparr>"

text \<open>The state after the entry is stored behind the last one and before it swims up.\<close>

definition placed :: "ptr \<Rightarrow> timer_entry \<Rightarrow> mhp_timer \<Rightarrow> mhp_timer" where
  "placed p e s = s\<lparr>entries := (entries s)(p \<mapsto> e), last_ix := of_nat (used s),
     slots := (slots s)[used s := p]\<rparr>"

lemma push_placed:
  assumes ok: "mhp_ok s" and p: "p \<noteq> NULL" and room: "used s < unat (amount s)"
  shows "mhp_timer_push p mem e cb a s =
    (if used s = 0 then Some (0, placed p (new_entry e cb a) s)
     else map_option (\<lambda>s. (0, s)) (adjust_up (placed p (new_entry e cb a) s) (used s)))"
proof (cases "used s = 0")
  case True
  moreover have "slots s ! 0 = NULL" "last_ix s = 0" "slot s 0 = Some NULL"
    using True ok used_slots [OF ok] by (simp_all add: mhp_ok_def)
  moreover have "0 < length (slots s)" using ok by (simp add: mhp_ok_def)
  ultimately show ?thesis
    using p by (simp add: mhp_timer_push_def placed_def new_entry_def slot_def set_slot_def)
next
  case False
  then have c: "used s = Suc (unat (last_ix s))" "slots s ! 0 \<noteq> NULL" and len: "length (slots s) = unat (amount s)"
    using used_slots [OF ok] ok by (auto simp: mhp_ok_def)
  have "Suc (unat (last_ix s)) < 4294967296" using room c(1) unat_less_pow32 [of "amount s"] by linarith
  then have w: "unat (last_ix s + 1) = used s" "last_ix s + 1 = of_nat (used s)"
    using c(1) by (simp_all add: unat_inc32)
  have "\<not> last_ix s + 1 > amount s" using w room by (simp add: word_less_nat_alt)
  moreover have "placed p (new_entry e cb a) s = s\<lparr>entries := (entries s)(p \<mapsto> new_entry e cb a),
      last_ix := last_ix s + 1, slots := (slots s)[used s := p]\<rparr>"
    using w by (simp add: placed_def)
  moreover have "slots s \<noteq> []" using len room by auto
  ultimately show ?thesis
    using p c False room len w(1)
    by (simp add: mhp_timer_push_def slot_def set_slot_def reserve_def new_entry_def Let_def
        map_conv_bind_option o_def)
qed

lemma placed_ok:
  fixes e :: timer_entry
  assumes ok: "mhp_ok s" and p: "p \<noteq> NULL" "entries s p = None" and room: "used s < unat (amount s)"
  defines "t \<equiv> placed p e s"
  shows "length (slots t) = length (slots s)" "used t = Suc (used s)"
    "\<forall>i<Suc (used s). slots t ! i \<noteq> NULL \<and> entries t (slots t ! i) \<noteq> None"
    "distinct (take (Suc (used s)) (slots t))"
    "mset (map (key_of t) (take (Suc (used s)) (slots t))) = add_mset (expire e) (mhp_keys s)"
    "heap_but (\<lambda>i. key_of t (slots t ! i)) (Suc (used s)) (used s)"
    "\<forall>i. Suc (used s) \<le> i \<longrightarrow> i < length (slots t) \<longrightarrow> slots t ! i = NULL"
proof -
  have len: "length (slots s) = unat (amount s)" using ok by (simp add: mhp_ok_def)
  have mem: "slots s ! i \<noteq> NULL" "entries s (slots s ! i) \<noteq> None" "slots s ! i \<noteq> p" if "i < used s" for i
    using ok that p by (auto simp: mhp_ok_def)
  have nth: "slots t ! i = (if i = used s then p else slots s ! i)" if "i < length (slots s)" for i
    using that by (simp add: t_def placed_def nth_list_update)
  have key: "key_of t q = (if q = p then expire e else key_of s q)" for q
    by (simp add: key_of_def t_def placed_def)
  show lt: "length (slots t) = length (slots s)" by (simp add: t_def placed_def)
  have tk: "take (Suc (used s)) (slots t) = take (used s) (slots s) @ [p]"
    using room len by (simp add: t_def placed_def take_Suc_conv_app_nth)
  have pn: "p \<notin> set (take (used s) (slots s))" using mem(3) by (auto simp: in_set_conv_nth)
  show "used t = Suc (used s)"
  proof -
    have "slot t 0 \<noteq> Some NULL" using nth [of 0] mem(1) [of 0] room len p by (auto simp: slot_def)
    moreover have "unat (of_nat (used s) :: u32) = used s"
      using room unat_less_pow32 [of "amount s"] by (simp add: unsigned_of_nat take_bit_nat_eq_self_iff del: unat_less_pow32)
    ultimately show ?thesis by (simp add: used_def [of t]) (simp add: t_def placed_def)
  qed
  show "\<forall>i<Suc (used s). slots t ! i \<noteq> NULL \<and> entries t (slots t ! i) \<noteq> None"
    using nth mem room len p by (auto simp: less_Suc_eq) (simp_all add: t_def placed_def)
  show "distinct (take (Suc (used s)) (slots t))" using ok pn by (simp add: tk mhp_ok_def)
  have "image_mset (key_of t) (mset (take (used s) (slots s))) = image_mset (key_of s) (mset (take (used s) (slots s)))"
    using pn by (intro image_mset_cong) (auto simp: key)
  then show "mset (map (key_of t) (take (Suc (used s)) (slots t))) = add_mset (expire e) (mhp_keys s)"
    by (simp add: tk mhp_keys_def key)
  show "heap_but (\<lambda>i. key_of t (slots t ! i)) (Suc (used s)) (used s)"
    unfolding heap_but_def
  proof (intro allI impI)
    fix i assume i: "i < Suc (used s)" "0 < i" "i \<noteq> used s"
    then have "i < used s" "(i - 1) div 2 < used s" by auto
    then show "key_of t (slots t ! ((i - 1) div 2)) \<le> key_of t (slots t ! i)"
      using ok i mem(3) room len by (auto simp: nth key mhp_ok_def heap_but_def)
  qed
  show "\<forall>i. Suc (used s) \<le> i \<longrightarrow> i < length (slots t) \<longrightarrow> slots t ! i = NULL"
    using ok nth by (simp add: lt mhp_ok_def)
qed

lemma mhp_push_ok:
  assumes ok: "mhp_ok s" and p: "p \<noteq> NULL" "entries s p = None" and room: "used s < unat (amount s)"
  shows "\<exists>s'. mhp_timer_push p mem e cb a s = Some (0, s') \<and> mhp_ok s' \<and>
    mhp_keys s' = add_mset e (mhp_keys s) \<and> used s' = Suc (used s) \<and> amount s' = amount s \<and>
    entries s' = (entries s)(p \<mapsto> new_entry e cb a)"
proof -
  define t where "t = placed p (new_entry e cb a) s"
  note t = placed_ok [OF ok p room, of "new_entry e cb a", folded t_def]
  have new: "expire (new_entry e cb a) = e" by (simp add: new_entry_def)
  have fields: "amount t = amount s" "entries t = (entries s)(p \<mapsto> new_entry e cb a)" "last_ix t = of_nat (used s)"
    by (simp_all add: t_def placed_def)
  have len: "length (slots s) = unat (amount s)" using ok by (simp add: mhp_ok_def)
  have "\<exists>xs. adjust_up t (used s) = Some (t\<lparr>slots := xs\<rparr>) \<and> length xs = length (slots t) \<and>
    mset (take (Suc (used s)) xs) = mset (take (Suc (used s)) (slots t)) \<and>
    drop (Suc (used s)) xs = drop (Suc (used s)) (slots t) \<and> heap_but (\<lambda>i. key_of t (xs ! i)) (Suc (used s)) 0"
  proof (rule adjust_up_spec)
    show "\<forall>i<Suc (used s). 0 < i \<longrightarrow> (i - 1) div 2 = used s \<longrightarrow>
        key_of t (slots t ! ((used s - 1) div 2)) \<le> key_of t (slots t ! i)" if "0 < used s"
      by auto
  qed (use t len room in auto)
  then obtain xs where xs: "adjust_up t (used s) = Some (t\<lparr>slots := xs\<rparr>)" "length xs = length (slots t)"
    "mset (take (Suc (used s)) xs) = mset (take (Suc (used s)) (slots t))"
    "drop (Suc (used s)) xs = drop (Suc (used s)) (slots t)"
    "heap_but (\<lambda>i. key_of t (xs ! i)) (Suc (used s)) 0" by blast
  let ?t = "t\<lparr>slots := xs\<rparr>"
  have push: "mhp_timer_push p mem e cb a s = Some (0, ?t)"
  proof (cases "used s = 0")
    case True
    then have "?t = t" using xs(1) by (subst (asm) adjust_up.simps) simp
    then show ?thesis using push_placed [OF ok p(1) room] True by (simp add: t_def)
  next
    case False
    then show ?thesis using push_placed [OF ok p(1) room] xs(1) by (simp add: t_def)
  qed
  have key: "key_of ?t = key_of t" by (simp add: key_of_def fun_eq_iff)
  have all: "\<forall>q\<in>set (take (Suc (used s)) xs). q \<noteq> NULL \<and> entries t q \<noteq> None"
    using t(3) mset_eq_setD [OF xs(3)] t(1) by (auto simp: in_set_conv_nth)
  then have all': "\<forall>i<Suc (used s). xs ! i \<noteq> NULL \<and> entries t (xs ! i) \<noteq> None"
  proof (intro allI impI)
    fix i assume "i < Suc (used s)"
    moreover from this have "i < length xs" using room len t(1) xs(2) by simp
    ultimately have "xs ! i \<in> set (take (Suc (used s)) xs)" by (auto simp: in_set_conv_nth)
    then show "xs ! i \<noteq> NULL \<and> entries t (xs ! i) \<noteq> None" using all by blast
  qed
  have use: "used ?t = Suc (used s)"
  proof -
    have "xs ! 0 \<noteq> NULL" "slots t ! 0 \<noteq> NULL" using all' t(3) by auto
    then show ?thesis using t(2) by (simp add: used_def slot_def split: if_splits)
  qed
  have tail: "xs ! i = NULL" if "Suc (used s) \<le> i" "i < length xs" for i
  proof -
    have "xs ! i = drop (Suc (used s)) xs ! (i - Suc (used s))" using that by simp
    also have "\<dots> = slots t ! i" using that xs(2) by (simp add: xs(4))
    finally show ?thesis using t(7) that xs(2) by simp
  qed
  have "mhp_ok ?t"
    unfolding mhp_ok_def use
    using ok all' tail xs(2,5) t(1,4) room len key mset_eq_imp_distinct_iff [OF xs(3)] p(1)
    by (simp add: fields mhp_ok_def)
  moreover have "mhp_keys ?t = add_mset e (mhp_keys s)"
    using t(5) xs(3) by (simp add: mhp_keys_def use key new)
  ultimately show ?thesis using push use fields by auto
qed

section \<open>The contract\<close>

text \<open>A request is the address \<open>calloc\<close> returns for its entry, the expiry, the callback and its argument.\<close>

fun mhp_add :: "ptr \<times> u32 \<times> ptr \<times> ptr \<Rightarrow> mhp_timer \<Rightarrow> mhp_timer option" where
  "mhp_add (p, e, cb, a) s = do {
     (ret, s) \<leftarrow> mhp_timer_push p None e cb a s;
     if ret = 0 then Some s else None
   }"

fun mhp_ready :: "mhp_timer \<Rightarrow> ptr \<times> u32 \<times> ptr \<times> ptr \<Rightarrow> bool" where
  "mhp_ready s (p, e, cb, a) \<longleftrightarrow> p \<noteq> NULL \<and> entries s p = None"

definition mhp_room :: "mhp_timer \<Rightarrow> nat \<Rightarrow> bool" where
  "mhp_room s n \<longleftrightarrow> used s + n \<le> unat (amount s)"

definition mhp_top_key :: "mhp_timer \<Rightarrow> u32 option" where
  "mhp_top_key s = do { p \<leftarrow> mhp_timer_top s; e \<leftarrow> entries s p; Some (expire e) }"

lemma heap_min:
  assumes "heap_but f n 0" "i < n"
  shows "f 0 \<le> f i"
  using assms(2)
proof (induction i rule: less_induct)
  case (less i)
  show ?case
  proof (cases "i = 0")
    case False
    then have "f 0 \<le> f ((i - 1) div 2)" using less.IH [of "(i - 1) div 2"] less.prems by simp
    also have "\<dots> \<le> f i" using assms(1) less.prems False by (simp add: heap_but_def)
    finally show ?thesis .
  qed simp
qed

lemma mhp_top_ok:
  assumes ok: "mhp_ok s" and ne: "mhp_keys s \<noteq> {#}"
  shows "mhp_top_key s = Some (Min (set_mset (mhp_keys s)))"
proof -
  let ?k = "\<lambda>i. key_of s (slots s ! i)"
  have u: "0 < used s" "used s \<le> length (slots s)" using ok ne by (auto simp: mhp_keys_def mhp_ok_def)
  then obtain e where e: "entries s (slots s ! 0) = Some e" using ok by (auto simp: mhp_ok_def)
  have "set_mset (mhp_keys s) = ?k ` {..<used s}" using u(2)
    by (force simp: mhp_keys_def in_set_conv_nth)
  moreover have "?k 0 \<le> ?k i" if "i < used s" for i
    using heap_min [of ?k "used s" i] ok that by (simp add: mhp_ok_def)
  ultimately have "Min (set_mset (mhp_keys s)) = ?k 0"
    using u(1) by (intro Min_eqI) auto
  then show ?thesis
    using used_slots(3) [OF ok] e by (simp add: mhp_top_key_def mhp_timer_top_def key_of_entry)
qed

interpretation mhp: min_bag mhp_ok mhp_keys mhp_add "\<lambda>(p, e, cb, a). e" mhp_ready
  "\<lambda>(p, _) (q, _). p \<noteq> q" mhp_room mhp_top_key
proof unfold_locales
  fix s a n
  assume asm: "mhp_ok s" "mhp_ready s a" "mhp_room s (Suc n)"
  obtain p e cb x where a: "a = (p, e, cb, x)" by (cases a) auto
  have room: "used s < unat (amount s)" using asm(3) by (simp add: mhp_room_def)
  from mhp_push_ok [OF asm(1) _ _ room, of p None e cb x] asm(2) obtain s' where s':
    "mhp_timer_push p None e cb x s = Some (0, s')" "mhp_ok s'" "mhp_keys s' = add_mset e (mhp_keys s)"
    "used s' = Suc (used s)" "amount s' = amount s" "entries s' = (entries s)(p \<mapsto> new_entry e cb x)"
    by (auto simp: a)
  then show "\<exists>s'. mhp_add a s = Some s' \<and> mhp_ok s' \<and>
      mhp_keys s' = add_mset (case a of (p, e, cb, a) \<Rightarrow> e) (mhp_keys s) \<and> mhp_room s' n \<and>
      (\<forall>b. (case a of (p, _) \<Rightarrow> \<lambda>(q, _). p \<noteq> q) b \<longrightarrow> mhp_ready s b \<longrightarrow> mhp_ready s' b)"
    using asm(3) by (intro exI [of _ s']) (auto simp: a mhp_room_def)
qed (rule mhp_top_ok)

section \<open>Properties\<close>

text \<open>
  C8. Pushing any timers, as many as the heap was made for and with distinct fresh entries, onto a
  new heap succeeds, and the top is then a timer with the least expiry among them.
\<close>

theorem mhp_push_top:
  assumes "t \<noteq> NULL" "l \<noteq> NULL" "length as \<le> unat n" "\<forall>a\<in>set as. fst a \<noteq> NULL" "distinct (map fst as)" "as \<noteq> []"
  shows "(mhp_timer_create t l n \<bind> add_all mhp_add as \<bind> mhp_top_key) = Some (Min ((\<lambda>a. fst (snd a)) ` set as))"
proof -
  let ?s = "mhp_timer_init n"
  have "sorted_wrt (\<lambda>(p, _) (q, _). p \<noteq> q) as" using assms(5) by (induction as) (auto, force)
  moreover have "unat n \<le> unat (amount ?s)" by (auto simp: mhp_timer_init_def Let_def word_less_nat_alt)
  then have "mhp_room ?s (length as)" using assms(3) by (simp add: mhp_room_def mhp_init_ok)
  moreover have "\<forall>a\<in>set as. mhp_ready ?s a"
    using assms(4) by (auto simp: mhp_timer_init_def Let_def)
  ultimately have "(add_all mhp_add as ?s \<bind> mhp_top_key) =
      Some (Min (set_mset (mhp_keys ?s) \<union> (\<lambda>(p, e, cb, a). e) ` set as))"
    using mhp.add_all_top [OF mhp_init_ok(1)] assms(6) by blast
  then show ?thesis using assms(1,2) by (simp add: mhp_timer_create_def) (simp add: mhp_init_ok case_prod_beta')
qed

theorem mhp_push_top_witness:
  "(mhp_timer_create 8 9 3 \<bind> add_all mhp_add [(1, 7, 0, 0), (2, 3, 0, 0), (3, 5, 0, 0)] \<bind> mhp_top_key) = Some 3"
  using mhp_push_top [of 8 9 "[(1, 7, 0, 0), (2, 3, 0, 0), (3, 5, 0, 0)]" 3] by simp

text \<open>
  A push that finds room stores the new entry and keeps the heap order: the timers are those of
  before and the new one, no parent expires after its child.
\<close>

theorem mhp_push_keeps_heap:
  assumes "mhp_ok s" "p \<noteq> NULL" "entries s p = None" "used s < unat (amount s)"
  shows "\<exists>s'. mhp_timer_push p mem e cb a s = Some (0, s') \<and> mhp_ok s' \<and>
    mhp_keys s' = add_mset e (mhp_keys s) \<and> entries s' = (entries s)(p \<mapsto> new_entry e cb a)"
  using mhp_push_ok [OF assms, of mem e cb a] by blast

theorem mhp_push_keeps_heap_witness:
  "\<exists>s'. mhp_timer_push 4 None 9 0 0 (mhp_timer_init 0) = Some (0, s') \<and> mhp_ok s' \<and> mhp_keys s' = {#9#}"
  using mhp_push_keeps_heap [OF mhp_init_ok(1), of 4 0 None 9 0 0]
  by (auto simp: mhp_init_ok) (auto simp: mhp_timer_init_def MINHEAP_TIMER_SIZE_MIN_def)

text \<open>
  When the heap is full the next push writes past the memory of its slots: \<open>reserve\<close> asks for
  room for \<open>last + 1\<close> entries where position \<open>last + 1\<close> needs one more.
\<close>

theorem mhp_push_full_overflows:
  assumes "mhp_ok s" "p \<noteq> NULL" "used s = unat (amount s)"
  shows "mhp_timer_push p mem e cb a s = None"
proof -
  have c: "used s = Suc (unat (last_ix s))" "slots s ! 0 \<noteq> NULL" and len: "length (slots s) = unat (amount s)"
    using used_slots [OF assms(1)] assms(1,3) by (auto simp: mhp_ok_def)
  then have "Suc (unat (last_ix s)) < 4294967296" using assms(3) unat_less_pow32 [of "amount s"] by linarith
  then have w: "unat (last_ix s + 1) = used s" using c(1) by (simp add: unat_inc32)
  then have "\<not> last_ix s + 1 > amount s" using assms(3) by (simp add: word_less_nat_alt)
  moreover have "slots s \<noteq> []" using c(1) assms(3) len by auto
  ultimately show ?thesis using assms(2,3) c len w
    by (simp add: mhp_timer_push_def slot_def set_slot_def reserve_def Let_def)
qed

definition two_timers :: mhp_timer where
  "two_timers = \<lparr>slots = [1, 2], last_ix = 1, amount = 2,
     entries = [1 \<mapsto> new_entry 5 0 0, 2 \<mapsto> new_entry 6 0 0]\<rparr>"

lemma two_timers_ok: "mhp_ok two_timers" "used two_timers = 2"
  by (auto simp: two_timers_def mhp_ok_def used_def slot_def less_Suc_eq heap_but_def key_of_def new_entry_def)

theorem mhp_push_full_overflows_witness: "mhp_timer_push 4 None 9 0 0 two_timers = None"
  by (rule mhp_push_full_overflows) (simp_all add: two_timers_ok, simp add: two_timers_def)

section \<open>Popping and destroying\<close>

text \<open>
  Popping the only timer of a heap dereferences the null pointer: \<open>adjust_down\<close> compares positions
  1 and 0 of the emptied heap.
\<close>

theorem mhp_pop_single_null:
  assumes "mhp_ok s" "used s = 1"
  shows "nhp_timer_pop s = None"
proof -
  have l: "last_ix s = 0" "2 \<le> length (slots s)" "slots s ! 1 = NULL"
    using assms used_slots(2) [OF assms(1)] by (auto simp: mhp_ok_def unsigned_eq_0_iff)
  then have "slots s \<noteq> []" by auto
  with l show ?thesis using assms
    by (simp add: nhp_timer_pop_def slot_def swap_ptr_eq adjust_down_def lower_child_def lchild_def rchild_def
        timer_entry_greater_def mhp_ok_def)
qed

theorem mhp_pop_single_null_witness:
  "nhp_timer_pop \<lparr>slots = [1, 0], last_ix = 0, amount = 2, entries = [1 \<mapsto> new_entry 5 0 0]\<rparr> = None"
  by (rule mhp_pop_single_null) (auto simp: mhp_ok_def used_def slot_def less_Suc_eq heap_but_def nth_Cons')

definition five_timers :: "(ptr \<times> u32 \<times> ptr \<times> ptr) list" where
  "five_timers = [(1, 1, 0, 0), (2, 2, 0, 0), (3, 10, 0, 0), (4, 4, 0, 0), (5, 5, 0, 0)]"

text \<open>
  Popping does not keep the heap order: after pushing the expiries 1, 2, 10, 4 and 5, a pop
  returns the timer with expiry 1 and leaves the one with expiry 2 at the top, above the one with
  expiry 5, which stands above the one with expiry 4.
\<close>

theorem mhp_pop_breaks_order:
  "map_option (\<lambda>(p, s). (p, map (key_of s) (take 4 (slots s)), last_ix s))
     (mhp_timer_create 8 9 0 \<bind> add_all mhp_add five_timers \<bind> nhp_timer_pop) = Some (1, [2, 5, 10, 4], 3)"
  by code_simp

lemma destroy_loop_entries:
  assumes "0 < m" "m < k" "unat (last_ix s) = i + m" "i + m \<le> length (slots s)" "distinct (take m (drop i (slots s)))"
    "\<forall>p\<in>set (take m (drop i (slots s))). p \<noteq> NULL \<and> entries s p \<noteq> None"
  shows "\<exists>s'. destroy_loop s i k i = Some s' \<and> entries s' = entries s |` (- set (take m (drop i (slots s))))"
  using assms
proof (induction m arbitrary: s i k)
  case (Suc m)
  obtain k' where k: "k = Suc k'" using Suc.prems(2) by (cases k) auto
  let ?p = "slots s ! i"
  have tk: "take (Suc m) (drop i (slots s)) = ?p # take m (drop (Suc i) (slots s))"
    using Suc.prems(4) by (simp flip: Cons_nth_drop_Suc)
  let ?s = "s\<lparr>entries := (entries s)(?p := None), slots := (slots s)[i := NULL]\<rparr>"
  obtain e where p: "?p \<noteq> NULL" "entries s ?p = Some e" using Suc.prems(6) by (auto simp: tk)
  have step: "destroy_loop s i k i = (if Suc i = unat (last_ix s) then Some ?s else destroy_loop ?s (Suc i) k' (Suc i))"
    using p Suc.prems(4) by (simp add: k slot_def free_entry_def set_slot_def)
  show ?case
  proof (cases "m = 0")
    case True
    then show ?thesis using step Suc.prems(3) tk by (auto simp: fun_eq_iff restrict_map_def)
  next
    case False
    have "?p \<notin> set (take m (drop (Suc i) (slots s)))" using Suc.prems(5) by (simp add: tk)
    then have "\<forall>p\<in>set (take m (drop (Suc i) (slots ?s))). p \<noteq> NULL \<and> entries ?s p \<noteq> None"
      using Suc.prems(6) by (auto simp: tk)
    then have "\<exists>s'. destroy_loop ?s (Suc i) k' (Suc i) = Some s' \<and>
        entries s' = entries ?s |` (- set (take m (drop (Suc i) (slots ?s))))"
    proof (rule Suc.IH [rotated 5])
      show "distinct (take m (drop (Suc i) (slots ?s)))" using Suc.prems(5) by (simp add: tk)
    qed (use Suc.prems False in \<open>auto simp: k\<close>)
    moreover have "entries ?s |` (- set (take m (drop (Suc i) (slots ?s)))) =
        entries s |` (- set (take (Suc m) (drop i (slots s))))"
      by (auto simp: tk restrict_map_def fun_eq_iff)
    ultimately show ?thesis unfolding step using Suc.prems(3) False by auto
  qed
qed simp

text \<open>
  Destroying a heap of two timers or more frees every timer but the one in the last position,
  which is leaked: the loop stops after \<open>last\<close> timers where there are \<open>last + 1\<close>.
\<close>

theorem mhp_destroy_leaks_last:
  assumes ok: "mhp_ok s" and two: "2 \<le> used s" and p: "p = slots s ! (used s - 1)"
  shows "\<exists>s'. mhp_timer_destroy s = Some s' \<and>
    entries s' = entries s |` (- (set (take (used s) (slots s)) - {p})) \<and> p \<in> dom (entries s')"
proof -
  let ?l = "unat (last_ix s)"
  have u: "used s = Suc ?l" using used_slots(2) [OF ok] two by simp
  have len: "length (slots s) = unat (amount s)" "used s \<le> length (slots s)" using ok by (simp_all add: mhp_ok_def)
  have tk: "take (used s) (slots s) = take ?l (slots s) @ [p]"
    using len u by (simp add: p take_Suc_conv_app_nth)
  have all: "distinct (take (used s) (slots s))" "\<forall>q\<in>set (take (used s) (slots s)). q \<noteq> NULL \<and> entries s q \<noteq> None"
    using ok by (auto simp: mhp_ok_def in_set_conv_nth)
  have "\<exists>s'. destroy_loop s 0 (unat (amount s)) 0 = Some s' \<and>
      entries s' = entries s |` (- set (take ?l (drop 0 (slots s))))"
  proof (rule destroy_loop_entries)
    show "distinct (take ?l (drop 0 (slots s)))" using all(1) by (simp add: tk)
    show "\<forall>q\<in>set (take ?l (drop 0 (slots s))). q \<noteq> NULL \<and> entries s q \<noteq> None"
      using all(2) by (simp add: tk)
  qed (use two u len in auto)
  then show ?thesis using all by (auto simp: mhp_timer_destroy_def tk)
qed

theorem mhp_destroy_leaks_last_witness:
  "\<exists>s'. mhp_timer_destroy two_timers = Some s' \<and> 2 \<in> dom (entries s')"
  using mhp_destroy_leaks_last [OF two_timers_ok(1) _ refl]
  by (simp add: two_timers_ok) (auto simp: two_timers_def)

end
