(* ===== verification/Ringbuf.thy ===== *)
theory Ringbuf
  imports Prelude
begin

text \<open>
  The ring buffer of \<open>util/ringbuf.c\<close> and \<open>util/ringbuf.h\<close>. \<open>size_t\<close> is a 64-bit word, the memory
  behind \<open>buff\<close> a list of bytes: a copy that leaves it is \<open>None\<close>, as is a remainder by zero.
\<close>

section \<open>The data\<close>

record ringbuf =
  buff :: "u8 list"
  rsize :: u64
  head :: u64
  tail :: u64

definition ERR_BUFF :: int where "ERR_BUFF = 0"

text \<open>\<open>malloc\<close> gives \<open>p\<close> for the structure and \<open>q\<close> for the bytes; a null pointer is a failure.\<close>

definition ringbuff_create :: "ptr \<Rightarrow> ptr \<Rightarrow> u64 \<Rightarrow> ringbuf option" where
  "ringbuff_create p q sz =
     (if p = NULL then None
      else if q = NULL then None
      else Some \<lparr>buff = replicate (unat sz) 0, rsize = sz, head = 0, tail = sz\<rparr>)"

section \<open>The observers\<close>

definition is_empty :: "ringbuf \<Rightarrow> bool" where
  "is_empty r = (head r = tail r)"

definition is_full :: "ringbuf \<Rightarrow> bool option" where
  "is_full r = (if rsize r = 0 then None else Some (head r = (tail r + 1) mod rsize r))"

definition get_use_size :: "ringbuf \<Rightarrow> u64 option" where
  "get_use_size r = (if rsize r = 0 then None else Some ((rsize r + tail r - head r) mod rsize r))"

definition get_remain :: "ringbuf \<Rightarrow> u64 option" where
  "get_remain r = do { u \<leftarrow> get_use_size r; Some (rsize r - u) }"

definition get_startptr :: "ringbuf \<Rightarrow> nat" where
  "get_startptr r = unat (head r)"

section \<open>The operations\<close>

text \<open>\<open>memcpy\<close> into the bytes from offset \<open>off\<close>, and out of them.\<close>

definition copy_in :: "u8 list \<Rightarrow> nat \<Rightarrow> u8 list \<Rightarrow> u8 list option" where
  "copy_in m off bs =
     (if off + length bs \<le> length m then Some (take off m @ bs @ drop (off + length bs) m) else None)"

definition copy_out :: "u8 list \<Rightarrow> nat \<Rightarrow> nat \<Rightarrow> u8 list option" where
  "copy_out m off n = (if off + n \<le> length m then Some (take n (drop off m)) else None)"

text \<open>\<open>bytes\<close> are the \<open>size\<close> bytes at \<open>data\<close>.\<close>

definition ringbuff_write :: "ringbuf \<Rightarrow> u8 list \<Rightarrow> (int \<times> ringbuf) option" where
  "ringbuff_write r bytes = do {
     let sz = (of_nat (length bytes) :: u64);
     rest \<leftarrow> get_remain r;
     if sz > rest then Some (- 1, r)
     else do {
       m \<leftarrow> copy_in (buff r) (get_startptr r) bytes;
       Some (0, r\<lparr>buff := m, tail := (tail r + sz) mod rsize r\<rparr>)
     }
   }"

text \<open>
  The result is the return value, an \<open>int\<close>, the bytes copied to \<open>buf\<close>, the new value of
  \<open>RINGBUFF_ERR\<close>, and the buffer.
\<close>

definition ringbuff_read :: "int \<Rightarrow> ringbuf \<Rightarrow> u64 \<Rightarrow> u64 \<Rightarrow> (int \<times> u8 list \<times> int \<times> ringbuf) option" where
  "ringbuff_read err r r_sz buf_sz =
     (if r_sz > buf_sz then Some (- 1, [], err, r)
      else do {
        u \<leftarrow> get_use_size r;
        if r_sz > u then Some (- 1, [], ERR_BUFF, r)
        else do {
          bs \<leftarrow> copy_out (buff r) (get_startptr r) (unat r_sz);
          Some (sint (ucast r_sz :: u32), bs, err, r\<lparr>head := (head r + r_sz) mod rsize r\<rparr>)
        }
      })"

text \<open>The search for the end of the line, \<open>n\<close> being the steps left before \<open>pos\<close> reaches a limit.\<close>

definition newline :: u8 where "newline = 10"

fun find_newline :: "ringbuf \<Rightarrow> nat \<Rightarrow> nat \<Rightarrow> nat option" where
  "find_newline r pos 0 = Some pos"
| "find_newline r pos (Suc n) =
     (if unat (head r) + pos < length (buff r) then
        if buff r ! (unat (head r) + pos) = newline then Some pos else find_newline r (pos + 1) n
      else None)"

definition ringbuffer_readline :: "int \<Rightarrow> ringbuf \<Rightarrow> u64 \<Rightarrow> (int \<times> u8 list \<times> int \<times> ringbuf) option" where
  "ringbuffer_readline err r buf_sz =
     (if is_empty r \<or> buf_sz = 0 then Some (0, [], err, r)
      else do {
        r_size \<leftarrow> get_use_size r;
        pos \<leftarrow> find_newline r 0 (min (unat r_size) (unat buf_sz));
        ringbuff_read err r (of_nat pos + 1) buf_sz
      })"

definition ringbuff_clear :: "ringbuf \<Rightarrow> ringbuf" where
  "ringbuff_clear r = r\<lparr>tail := head r\<rparr>"

text \<open>The structure at \<open>p\<close> is freed, and then written through \<open>p\<close>.\<close>

definition ringbuff_destroy :: "ptr \<Rightarrow> ringbuf heap \<Rightarrow> ringbuf heap option" where
  "ringbuff_destroy p h = do {
     r \<leftarrow> h p;
     let h = h(p := None);
     r \<leftarrow> h p;
     Some (h(p \<mapsto> r\<lparr>buff := []\<rparr>))
   }"

end
