(* ===== verification/Ringbuf_Correct.thy ===== *)
theory Ringbuf_Correct
  imports Ringbuf Interfaces
begin

text \<open>
  The ring buffer as a channel for messages that are read before the next is written, its lines,
  and the loss of unread bytes.
\<close>

section \<open>Well-formed buffers\<close>

definition ring_ok :: "ringbuf \<Rightarrow> bool" where
  "ring_ok r \<longleftrightarrow> length (buff r) = unat (rsize r) \<and> 0 < unat (rsize r) \<and> unat (rsize r) < 2 ^ 63 \<and>
     unat (head r) < unat (rsize r) \<and> unat (tail r) \<le> unat (rsize r)"

definition used :: "ringbuf \<Rightarrow> nat" where
  "used r = (unat (rsize r) + unat (tail r) - unat (head r)) mod unat (rsize r)"

lemma get_use_size_ok:
  assumes "ring_ok r"
  obtains u where "get_use_size r = Some u" "unat u = used r" "used r < unat (rsize r)"
proof -
  let ?u = "(rsize r + tail r - head r) mod rsize r"
  have ok: "0 < unat (rsize r)" "unat (rsize r) < 2 ^ 63" "unat (head r) < unat (rsize r)" "unat (tail r) \<le> unat (rsize r)"
    using assms by (simp_all add: ring_ok_def)
  have "unat (rsize r + tail r) = unat (rsize r) + unat (tail r)" using ok by (intro unat_add64) simp
  then have "unat (rsize r + tail r - head r) = unat (rsize r) + unat (tail r) - unat (head r)"
    using ok by (simp add: unat_diff64)
  then have "unat ?u = used r" by (simp add: used_def unat_mod)
  moreover have "rsize r \<noteq> 0" using ok(1) by auto
  ultimately show thesis using that ok(1) by (simp add: get_use_size_def used_def)
qed

lemma get_remain_ok:
  assumes "ring_ok r"
  obtains u where "get_remain r = Some u" "unat u = unat (rsize r) - used r"
proof -
  obtain u where u: "get_use_size r = Some u" "unat u = used r" "used r < unat (rsize r)"
    by (rule get_use_size_ok [OF assms])
  then have "unat (rsize r - u) = unat (rsize r) - used r" by (simp add: unat_diff64)
  with that u(1) show thesis by (simp add: get_remain_def)
qed

lemma unat_advance:
  assumes "ring_ok r" "unat a \<le> unat (rsize r)" "n \<le> unat (rsize r)"
  shows "unat ((a + of_nat n) mod rsize r) = (unat a + n) mod unat (rsize r)"
proof -
  have "unat (rsize r) < 2 ^ 63" using assms(1) by (simp add: ring_ok_def)
  moreover have "(2 :: nat) ^ 64 = 2 * 2 ^ 63" by simp
  ultimately have "n < 2 ^ 64" "unat a + n < 2 ^ 64" using assms(2,3) by linarith+
  moreover from this(1) have n: "unat (of_nat n :: u64) = n" by (rule unat_of_nat64)
  ultimately have "unat (a + of_nat n) = unat a + n" by (subst unat_add64) simp_all
  then show ?thesis by (simp only: unat_mod)
qed

text \<open>The bytes a reader would get: those from \<open>head\<close> on.\<close>

definition pending :: "ringbuf \<Rightarrow> u8 list" where
  "pending r = take (used r) (drop (unat (head r)) (buff r))"

text \<open>A write of bytes that fit between \<open>head\<close> and the end of the memory.\<close>

lemma write_ok:
  assumes ok: "ring_ok r" and fit: "used r + length bs \<le> unat (rsize r)" "unat (head r) + length bs \<le> unat (rsize r)"
  shows "\<exists>r'. ringbuff_write r bs = Some (0, r') \<and> ring_ok r' \<and> rsize r' = rsize r \<and> head r' = head r \<and>
    used r' = (used r + length bs) mod unat (rsize r) \<and>
    buff r' = take (unat (head r)) (buff r) @ bs @ drop (unat (head r) + length bs) (buff r)"
proof -
  let ?n = "unat (rsize r)"
  have w: "length (buff r) = ?n" "0 < ?n" "?n < 2 ^ 63" "unat (head r) < ?n" "unat (tail r) \<le> ?n"
    using ok by (simp_all add: ring_ok_def)
  define r' where "r' = r\<lparr>buff := take (unat (head r)) (buff r) @ bs @ drop (unat (head r) + length bs) (buff r),
    tail := (tail r + of_nat (length bs)) mod rsize r\<rparr>"
  obtain u where u: "get_remain r = Some u" "unat u = ?n - used r" by (rule get_remain_ok [OF ok])
  have sz: "unat (of_nat (length bs) :: u64) = length bs" using fit w(3) by (simp add: unat_of_nat64)
  then have "\<not> of_nat (length bs) > u" using u(2) fit(1) by (simp add: word_less_nat_alt)
  then have "ringbuff_write r bs = Some (0, r')"
    using u(1) fit(2) w(1) by (simp add: ringbuff_write_def copy_in_def get_startptr_def r'_def Let_def)
  moreover have t: "unat (tail r') = (unat (tail r) + length bs) mod ?n"
    using unat_advance [OF ok w(5), of "length bs"] fit(1) by (simp add: r'_def)
  moreover have "ring_ok r'" using w fit(2) t by (simp add: ring_ok_def r'_def less_imp_le)
  moreover have "used r' = (used r + length bs) mod ?n"
  proof -
    have "used r' = (?n - unat (head r) + (unat (tail r) + length bs) mod ?n) mod ?n"
    proof -
      have "?n + x - unat (head r) = ?n - unat (head r) + x" for x using w(4) by simp
      then show ?thesis using t by (simp only: used_def) (simp add: r'_def)
    qed
    also have "\<dots> = (?n + unat (tail r) - unat (head r) + length bs) mod ?n"
    proof -
      have "?n - unat (head r) + (unat (tail r) + length bs) = ?n + unat (tail r) - unat (head r) + length bs"
        using w(4) by simp
      then show ?thesis by (simp only: mod_add_right_eq)
    qed
    also have "\<dots> = (used r + length bs) mod ?n" by (simp add: used_def mod_add_left_eq)
    finally show ?thesis .
  qed
  ultimately show ?thesis by (simp add: r'_def)
qed

lemma ring_mod:
  fixes N :: nat
  assumes "h < N" "t \<le> N" "n \<le> (N + t - h) mod N" "h + n \<le> N"
  shows "(N + t - (h + n) mod N) mod N = (N + t - h) mod N - n"
proof -
  have eq: "(N + t - x) mod N = (if x \<le> t then if t - x = N then 0 else t - x else N + t - x)" if "x < N" for x
    using that assms(2) by (auto simp: mod_if)
  show ?thesis
  proof (cases "h + n = N")
    case True
    then show ?thesis using assms eq [of h] eq [of 0] by (auto split: if_splits)
  next
    case False
    then show ?thesis using assms eq [of h] eq [of "h + n"] by (auto split: if_splits)
  qed
qed

text \<open>A read of bytes that are there and lie before the end of the memory.\<close>

lemma read_ok:
  assumes ok: "ring_ok r" and n: "n \<le> used r" "unat (head r) + n \<le> unat (rsize r)" "n < 2 ^ 31" and b: "n \<le> unat bsz"
  shows "\<exists>r'. ringbuff_read err r (of_nat n) bsz = Some (int n, take n (pending r), err, r') \<and> ring_ok r' \<and>
    rsize r' = rsize r \<and> buff r' = buff r \<and> used r' = used r - n \<and>
    unat (head r') = (unat (head r) + n) mod unat (rsize r)"
proof -
  let ?n = "unat (rsize r)"
  have w: "length (buff r) = ?n" "0 < ?n" "?n < 2 ^ 63" "unat (head r) < ?n" "unat (tail r) \<le> ?n"
    using ok by (simp_all add: ring_ok_def)
  define r' where "r' = r\<lparr>head := (head r + of_nat n) mod rsize r\<rparr>"
  obtain u where u: "get_use_size r = Some u" "unat u = used r" "used r < ?n" by (rule get_use_size_ok [OF ok])
  have sz: "unat (of_nat n :: u64) = n" using n(3) by (simp add: unat_of_nat64)
  have "\<not> of_nat n > bsz" "\<not> of_nat n > u" using sz u(2) n(1) b by (simp_all add: word_less_nat_alt)
  moreover have "take n (pending r) = take n (drop (unat (head r)) (buff r))"
    using n(1) by (simp add: pending_def min_def)
  moreover have "sint (ucast (of_nat n :: u64) :: u32) = int n"
    using n(3) by (simp add: unsigned_of_nat take_bit_nat_eq_self signed_of_nat signed_take_bit_int_eq_self)
  ultimately have "ringbuff_read err r (of_nat n) bsz = Some (int n, take n (pending r), err, r')"
    using u(1) n(2) w(1) sz by (simp add: ringbuff_read_def copy_out_def get_startptr_def r'_def)
  moreover have h: "unat (head r') = (unat (head r) + n) mod ?n"
    using unat_advance [OF ok _, of "head r" n] w(4) n(1) u(3) by (simp add: r'_def)
  moreover have "ring_ok r'" using w h by (simp add: ring_ok_def) (simp add: r'_def)
  moreover have "used r' = used r - n"
    using ring_mod [of "unat (head r)" ?n "unat (tail r)" n] w n(1,2) h by (simp only: used_def) (simp add: r'_def)
  ultimately show ?thesis by (simp add: r'_def)
qed

section \<open>The ring as a channel\<close>

definition ring_idle :: "ringbuf \<Rightarrow> bool" where
  "ring_idle r \<longleftrightarrow> ring_ok r \<and> used r = 0"

definition ring_room :: "ringbuf \<Rightarrow> nat \<Rightarrow> bool" where
  "ring_room r n \<longleftrightarrow> unat (head r) + n < unat (rsize r) \<and> n < 2 ^ 31"

definition ring_send :: "ringbuf \<Rightarrow> u8 list \<Rightarrow> ringbuf option" where
  "ring_send r bs = do { (ret, r) \<leftarrow> ringbuff_write r bs; if ret = 0 then Some r else None }"

definition ring_recv :: "ringbuf \<Rightarrow> nat \<Rightarrow> (u8 list \<times> ringbuf) option" where
  "ring_recv r n = do {
     (ret, bs, err, r) \<leftarrow> ringbuff_read 0 r (of_nat n) (of_nat n);
     if ret = int n then Some (bs, r) else None
   }"

lemma create_idle:
  assumes "p \<noteq> NULL" "q \<noteq> NULL" "0 < unat n" "unat n < 2 ^ 63"
  shows "\<exists>r. ringbuff_create p q n = Some r \<and> ring_idle r \<and> head r = 0 \<and> rsize r = n"
  using assms by (auto simp: ringbuff_create_def ring_idle_def ring_ok_def used_def unsigned_eq_0_iff)

lemma idle_write:
  assumes "ring_idle r" "unat (head r) + length bs < unat (rsize r)"
  shows "\<exists>r'. ringbuff_write r bs = Some (0, r') \<and> ring_ok r' \<and> rsize r' = rsize r \<and> head r' = head r \<and>
    used r' = length bs \<and> pending r' = bs \<and>
    buff r' = take (unat (head r)) (buff r) @ bs @ drop (unat (head r) + length bs) (buff r)"
proof -
  have ok: "ring_ok r" "used r = 0" "length (buff r) = unat (rsize r)" using assms(1) by (simp_all add: ring_idle_def ring_ok_def)
  with write_ok [of r bs] assms(2) obtain r' where r': "ringbuff_write r bs = Some (0, r')" "ring_ok r'"
    "rsize r' = rsize r" "head r' = head r" "used r' = length bs mod unat (rsize r)"
    "buff r' = take (unat (head r)) (buff r) @ bs @ drop (unat (head r) + length bs) (buff r)" by auto
  then show ?thesis using assms(2) ok(3) by (simp add: pending_def)
qed

interpretation ring: channel ring_idle ring_send ring_recv length ring_room
proof unfold_locales
  fix r :: ringbuf and m :: "u8 list" and n
  assume idle: "ring_idle r" and room: "ring_room r (length m + n)"
  then have w: "unat (head r) + length m < unat (rsize r)" "length m < 2 ^ 31" "unat (rsize r) < 2 ^ 63"
    by (auto simp: ring_room_def ring_idle_def ring_ok_def)
  from idle_write [OF idle w(1)] obtain r1 where r1: "ringbuff_write r m = Some (0, r1)" "ring_ok r1"
    "rsize r1 = rsize r" "head r1 = head r" "used r1 = length m" "pending r1 = m" by blast
  have "unat (of_nat (length m) :: u64) = length m" using w(2) by (simp add: unat_of_nat64)
  with read_ok [OF r1(2), of "length m" "of_nat (length m)" 0] r1 w obtain r2 where r2:
    "ringbuff_read 0 r1 (of_nat (length m)) (of_nat (length m)) = Some (int (length m), m, 0, r2)"
    "ring_ok r2" "rsize r2 = rsize r" "used r2 = 0" "unat (head r2) = (unat (head r) + length m) mod unat (rsize r)"
    by auto
  have "ring_room r2 n" "ring_idle r2" using room r2 w(1) by (simp_all add: ring_room_def ring_idle_def)
  then show "\<exists>s1 s2. ring_send r m = Some s1 \<and> ring_recv s1 (length m) = Some (m, s2) \<and> ring_idle s2 \<and> ring_room s2 n"
    using r1(1) r2(1) by (intro exI [of _ r1] exI [of _ r2]) (simp add: ring_send_def ring_recv_def)
qed

section \<open>Lines\<close>

lemma find_newline_step:
  assumes "\<forall>b\<in>set xs. b \<noteq> newline" "length xs < n" "unat (head r) + pos + length xs < length (buff r)"
    "\<forall>i<length xs. buff r ! (unat (head r) + pos + i) = xs ! i" "buff r ! (unat (head r) + pos + length xs) = newline"
  shows "find_newline r pos n = Some (pos + length xs)"
  using assms
proof (induction xs arbitrary: pos n)
  case Nil
  then show ?case by (cases n) simp_all
next
  case (Cons x xs)
  then obtain n' where n: "n = Suc n'" by (cases n) auto
  have "buff r ! (unat (head r) + pos) = x" "x \<noteq> newline" using Cons.prems(1,4) by force+
  moreover have "\<forall>i<length xs. buff r ! (unat (head r) + (pos + 1) + i) = xs ! i"
    using Cons.prems(4) by force
  ultimately show ?case using Cons.IH [of n' "pos + 1"] Cons.prems n by simp
qed

section \<open>Properties\<close>

text \<open>
  C9. Messages written to and read from a new ring one after the other arrive unchanged, as long
  as all of them together are shorter than the ring.
\<close>

theorem ring_exchange:
  assumes "p \<noteq> NULL" "q \<noteq> NULL" "unat n < 2 ^ 63" "sum_list (map length ms) < unat n" "sum_list (map length ms) < 2 ^ 31"
  shows "\<exists>r. (ringbuff_create p q n \<bind> exchange ring_send ring_recv length ms) = Some (ms, r) \<and> used r = 0"
proof -
  obtain r where r: "ringbuff_create p q n = Some r" "ring_idle r" "head r = 0" "rsize r = n"
    using create_idle [OF assms(1,2) _ assms(3)] assms(4) by fastforce
  then show ?thesis using ring.exchange_ok [OF r(2), of ms] assms(4,5) by (auto simp: ring_room_def ring_idle_def)
qed

theorem ring_exchange_witness:
  "\<exists>r. (ringbuff_create 1 2 8 \<bind> exchange ring_send ring_recv length [[1, 2, 3], [4], [5, 6]]) =
     Some ([[1, 2, 3], [4], [5, 6]], r) \<and> used r = 0"
  using ring_exchange [of 1 2 8 "[[1, 2, 3], [4], [5, 6]]"] by simp

text \<open>
  After a write of a line and more bytes to an empty ring, \<open>ringbuffer_readline\<close> returns the line
  with its newline, and leaves the other bytes to be read.
\<close>

theorem ring_readline:
  assumes idle: "ring_idle r" and line: "newline \<notin> set xs"
    and fit: "unat (head r) + length (xs @ newline # ys) < unat (rsize r)" "length xs + 1 < 2 ^ 31"
    and buf: "length xs < unat bsz"
  shows "\<exists>r1 r2. ringbuff_write r (xs @ newline # ys) = Some (0, r1) \<and>
    ringbuffer_readline err r1 bsz = Some (int (length xs) + 1, xs @ [newline], err, r2) \<and> pending r2 = ys"
proof -
  let ?d = "xs @ newline # ys" and ?h = "unat (head r)" and ?n = "unat (rsize r)"
  have len: "length (buff r) = ?n" "?n < 2 ^ 63" using idle by (simp_all add: ring_idle_def ring_ok_def)
  from idle_write [OF idle fit(1)] obtain r1 where r1: "ringbuff_write r ?d = Some (0, r1)" "ring_ok r1"
    "rsize r1 = rsize r" "head r1 = head r" "used r1 = length ?d" "pending r1 = ?d"
    "buff r1 = take ?h (buff r) @ ?d @ drop (?h + length ?d) (buff r)" by blast
  obtain u where u: "get_use_size r1 = Some u" "unat u = length ?d" using get_use_size_ok [OF r1(2)] r1(5) by metis
  have ne: "\<not> is_empty r1"
  proof
    assume "is_empty r1"
    then have "used r1 = 0" using r1(2) by (simp add: is_empty_def used_def)
    then show False using r1(5) by simp
  qed
  have nth: "buff r1 ! (?h + i) = ?d ! i" if "i < length ?d" for i
  proof -
    have h: "length (take ?h (buff r)) = ?h" using fit(1) len(1) by simp
    have "(?d @ zs) ! i = ?d ! i" for zs by (subst nth_append) (simp only: that if_True)
    then show ?thesis using nth_append_length_plus [of "take ?h (buff r)" _ i] by (simp only: r1(7) h)
  qed
  have pos: "find_newline r1 0 (min (unat u) (unat bsz)) = Some (length xs)"
    using find_newline_step [of xs "min (unat u) (unat bsz)" r1 0] line fit(1) buf u(2) r1(3,4) nth [of "length xs"] nth
      r1(2) by (auto simp: ring_ok_def nth_append)
  have "bsz \<noteq> 0" using buf by auto
  moreover have "of_nat (length xs) + 1 = (of_nat (Suc (length xs)) :: u64)" by simp
  ultimately have rl: "ringbuffer_readline err r1 bsz = ringbuff_read err r1 (of_nat (Suc (length xs))) bsz"
    using ne u(1) pos by (simp add: ringbuffer_readline_def add.commute)
  from read_ok [OF r1(2), of "Suc (length xs)" bsz err] fit buf r1 obtain r2 where r2:
    "ringbuff_read err r1 (of_nat (Suc (length xs))) bsz = Some (int (Suc (length xs)), xs @ [newline], err, r2)"
    "buff r2 = buff r1" "used r2 = length ys" "unat (head r2) = ?h + Suc (length xs)"
    by auto
  have "min ?n ?h = ?h" using fit(1) by simp
  then have "pending r2 = ys" by (simp add: pending_def r2 r1(7) drop_append len)
  then show ?thesis using r1(1) r2(1) rl by auto
qed

theorem ring_readline_witness:
  "\<exists>r1 r2. ringbuff_write \<lparr>buff = replicate 8 0, rsize = 8, head = 2, tail = 2\<rparr> [7, newline, 9] = Some (0, r1) \<and>
     ringbuffer_readline 0 r1 5 = Some (2, [7, newline], 0, r2) \<and> pending r2 = [9]"
  using ring_readline [of "\<lparr>buff = replicate 8 0, rsize = 8, head = 2, tail = 2\<rparr>" "[7]" "[9]" 5 0]
  by (simp add: ring_idle_def ring_ok_def used_def newline_def)

text \<open>
  A write while bytes are still unread destroys them: it copies to the place of the oldest
  unread byte, not behind the newest. After a write of \<open>a\<close> and one of \<open>b\<close>, no longer than \<open>a\<close>, both
  reported as successful, a reader gets \<open>b\<close> in the place of the first bytes of \<open>a\<close>.
\<close>

theorem ring_write_overwrites:
  assumes idle: "ring_idle r" and le: "length b \<le> length a" and fit: "unat (head r) + length a < unat (rsize r)"
    "length a + length b < unat (rsize r)" "length a < 2 ^ 31" and buf: "length a \<le> unat bsz"
  shows "\<exists>r1 r2 r3. ringbuff_write r a = Some (0, r1) \<and> ringbuff_write r1 b = Some (0, r2) \<and>
    used r2 = length a + length b \<and>
    ringbuff_read err r2 (of_nat (length a)) bsz = Some (int (length a), b @ drop (length b) a, err, r3)"
proof -
  let ?h = "unat (head r)" and ?n = "unat (rsize r)"
  have len: "length (buff r) = ?n" using idle by (simp add: ring_idle_def ring_ok_def)
  from idle_write [OF idle fit(1)] obtain r1 where r1: "ringbuff_write r a = Some (0, r1)" "ring_ok r1"
    "rsize r1 = rsize r" "head r1 = head r" "used r1 = length a"
    "buff r1 = take ?h (buff r) @ a @ drop (?h + length a) (buff r)" by blast
  from write_ok [OF r1(2), of b] le fit r1(3-5) obtain r2 where r2: "ringbuff_write r1 b = Some (0, r2)" "ring_ok r2"
    "rsize r2 = rsize r" "head r2 = head r" "used r2 = length a + length b"
    "buff r2 = take ?h (buff r1) @ b @ drop (?h + length b) (buff r1)" by auto
  from read_ok [OF r2(2), of "length a" bsz err] fit buf r2(3-5) obtain r3 where
    "ringbuff_read err r2 (of_nat (length a)) bsz = Some (int (length a), take (length a) (pending r2), err, r3)"
    by auto
  moreover have "take (length a) (pending r2) = b @ drop (length b) a"
    using le fit(1) len by (simp add: pending_def r2 r1(6))
  ultimately show ?thesis using r1(1) r2(1,5) by auto
qed

theorem ring_write_overwrites_witness:
  "\<exists>r1 r2 r3. ringbuff_write \<lparr>buff = replicate 8 0, rsize = 8, head = 0, tail = 0\<rparr> [1, 2, 3] = Some (0, r1) \<and>
     ringbuff_write r1 [4, 5] = Some (0, r2) \<and> ringbuff_read 0 r2 3 3 = Some (3, [4, 5, 3], 0, r3)"
  using ring_write_overwrites [of "\<lparr>buff = replicate 8 0, rsize = 8, head = 0, tail = 0\<rparr>" "[4, 5]" "[1, 2, 3]" 3 0]
  by (simp add: ring_idle_def ring_ok_def used_def) blast

end
