(* ===== verification/Queue.thy ===== *)
theory Queue
  imports Prelude
begin

text \<open>
  The queue of \<open>util/queue.c\<close> and \<open>util/queue.h\<close>: a ring of nodes around a head node. A node that is
  freed leaves the heap; \<open>stale\<close> is what its memory holds after that, which \<open>queue_pop\<close> reads.
\<close>

section \<open>The data\<close>

record qnode =
  prev :: ptr
  nxt :: ptr
  data :: ptr

record queue =
  qhead :: ptr
  nodes :: "qnode heap"

definition set_prev :: "ptr \<Rightarrow> ptr \<Rightarrow> queue \<Rightarrow> queue option" where
  "set_prev p v q = map_option (\<lambda>n. q\<lparr>nodes := (nodes q)(p \<mapsto> n\<lparr>prev := v\<rparr>)\<rparr>) (nodes q p)"

definition set_nxt :: "ptr \<Rightarrow> ptr \<Rightarrow> queue \<Rightarrow> queue option" where
  "set_nxt p v q = map_option (\<lambda>n. q\<lparr>nodes := (nodes q)(p \<mapsto> n\<lparr>nxt := v\<rparr>)\<rparr>) (nodes q p)"

definition get_prev :: "ptr \<Rightarrow> queue \<Rightarrow> ptr option" where "get_prev p q = map_option prev (nodes q p)"
definition get_nxt :: "ptr \<Rightarrow> queue \<Rightarrow> ptr option" where "get_nxt p q = map_option nxt (nodes q p)"

section \<open>The operations\<close>

text \<open>\<open>h\<close> and \<open>r\<close> are what \<open>malloc\<close> returns for the head node and for the queue; the null queue is
  written through.\<close>

definition queue_create :: "ptr \<Rightarrow> ptr \<Rightarrow> (int \<times> queue option) option" where
  "queue_create h r =
     (if h = NULL then Some (- 1, None)
      else if r = NULL then None
      else do {
        let q = \<lparr>qhead = h, nodes = [h \<mapsto> \<lparr>prev = NULL, nxt = NULL, data = NULL\<rparr>]\<rparr>;
        q \<leftarrow> set_prev h h q;
        q \<leftarrow> set_nxt h h q;
        Some (0, Some q)
      })"

definition queue_is_empty :: "queue \<Rightarrow> bool option" where
  "queue_is_empty q = do {
     p \<leftarrow> get_prev (qhead q) q;
     n \<leftarrow> get_nxt (qhead q) q;
     Some (p = n \<and> n = qhead q)
   }"

text \<open>\<open>p\<close> is what \<open>malloc\<close> returns.\<close>

definition queue_push :: "ptr \<Rightarrow> ptr \<Rightarrow> queue \<Rightarrow> (int \<times> queue) option" where
  "queue_push p d q =
     (if p = NULL then Some (- 1, q)
      else do {
        let q = q\<lparr>nodes := (nodes q)(p \<mapsto> \<lparr>prev = NULL, nxt = NULL, data = d\<rparr>)\<rparr>;
        let head = qhead q;
        e \<leftarrow> queue_is_empty q;
        q \<leftarrow> (if e then do {
               q \<leftarrow> set_prev head p q;
               q \<leftarrow> set_nxt head p q;
               q \<leftarrow> set_prev p head q;
               set_nxt p head q
             } else Some q);
        q \<leftarrow> set_prev p head q;
        n \<leftarrow> get_nxt head q;
        q \<leftarrow> set_nxt p n q;
        n \<leftarrow> get_nxt head q;
        q \<leftarrow> set_prev n p q;
        q \<leftarrow> set_nxt head p q;
        Some (0, q)
      })"

text \<open>The result is the \<open>data\<close> pointer returned, null for an empty queue.\<close>

definition queue_pop :: "(qnode \<Rightarrow> ptr) \<Rightarrow> queue \<Rightarrow> (ptr \<times> queue) option" where
  "queue_pop stale q = do {
     e \<leftarrow> queue_is_empty q;
     if e then Some (NULL, q)
     else do {
       let head = qhead q;
       node \<leftarrow> get_prev head q;
       p \<leftarrow> get_prev node q;
       q \<leftarrow> set_prev head p q;
       hp \<leftarrow> get_prev head q;
       hn \<leftarrow> get_nxt head q;
       q \<leftarrow> (if hp = hn \<and> hn \<noteq> head then set_nxt head head q else Some q);
       n \<leftarrow> nodes q node;
       let q = q\<lparr>nodes := (nodes q)(node := None)\<rparr>;
       Some (stale n, q)
     }
   }"

definition queue_first :: "queue \<Rightarrow> ptr option" where
  "queue_first q = do {
     e \<leftarrow> queue_is_empty q;
     if e then Some NULL
     else do { p \<leftarrow> get_prev (qhead q) q; n \<leftarrow> nodes q p; Some (data n) }
   }"

partial_function (option) destroy_loop :: "(qnode \<Rightarrow> ptr) \<Rightarrow> queue \<Rightarrow> queue option" where
  "destroy_loop stale q = do {
     e \<leftarrow> queue_is_empty q;
     if e then Some q
     else do { (d, q) \<leftarrow> queue_pop stale q; destroy_loop stale q }
   }"

text \<open>The queue itself is freed; the nodes that are left in the heap, the head node at least, leak.\<close>

definition queue_destroy :: "(qnode \<Rightarrow> ptr) \<Rightarrow> queue \<Rightarrow> qnode heap option" where
  "queue_destroy stale q = do { q \<leftarrow> destroy_loop stale q; Some (nodes q) }"

lemmas queue_loops [code] = destroy_loop.simps

end
