(* ===== verification/Queue_Correct.thy ===== *)
theory Queue_Correct
  imports Queue Interfaces
begin

text \<open>
  The shape of the queue's ring of nodes while it is filled and while it is drained, its contract
  for batches, and what happens outside of it.
\<close>

section \<open>The shape of the ring\<close>

text \<open>
  Elements are pairs of a node and its data, the oldest first. \<open>linked m t xs\<close> follows the \<open>prev\<close>
  pointers from the oldest node; the one of the newest is \<open>t\<close>.
\<close>

fun first :: "ptr \<Rightarrow> (ptr \<times> ptr) list \<Rightarrow> ptr" where
  "first t [] = t"
| "first t ((p, d) # xs) = p"

fun linked :: "qnode heap \<Rightarrow> ptr \<Rightarrow> (ptr \<times> ptr) list \<Rightarrow> bool" where
  "linked m t [] \<longleftrightarrow> True"
| "linked m t ((p, d) # xs) \<longleftrightarrow> (\<exists>n. m p = Some n \<and> data n = d \<and> prev n = first t xs) \<and> linked m t xs"

definition newest :: "ptr \<Rightarrow> (ptr \<times> ptr) list \<Rightarrow> ptr" where
  "newest h xs = (if xs = [] then h else fst (last xs))"

definition ring_head :: "queue \<Rightarrow> ptr \<Rightarrow> ptr \<Rightarrow> bool" where
  "ring_head q p n \<longleftrightarrow> (\<exists>x. nodes q (qhead q) = Some x \<and> prev x = p \<and> nxt x = n)"

text \<open>While the queue is filled the newest node is behind the head; a single node points to itself.\<close>

definition filling :: "queue \<Rightarrow> (ptr \<times> ptr) list \<Rightarrow> bool" where
  "filling q xs \<longleftrightarrow> distinct (map fst xs) \<and> qhead q \<notin> fst ` set xs \<and>
     ring_head q (first (qhead q) xs) (newest (qhead q) xs) \<and>
     linked (nodes q) (if length xs = 1 then fst (hd xs) else qhead q) xs"

text \<open>While it is drained the last node points to the head, and the head's \<open>next\<close> to itself as soon
  as at most one node is left.\<close>

definition draining :: "queue \<Rightarrow> (ptr \<times> ptr) list \<Rightarrow> bool" where
  "draining q xs \<longleftrightarrow> distinct (map fst xs) \<and> qhead q \<notin> fst ` set xs \<and>
     ring_head q (first (qhead q) xs) (if length xs \<le> 1 then qhead q else newest (qhead q) xs) \<and>
     linked (nodes q) (qhead q) xs"

lemma first_Cons [simp]: "first t (x # xs) = fst x"
  by (cases x) simp

lemma first_in: "xs \<noteq> [] \<Longrightarrow> first t xs \<in> fst ` set xs"
  by (cases "(t, xs)" rule: first.cases) auto

lemma linked_cong: "(\<And>p. p \<in> fst ` set xs \<Longrightarrow> m p = m' p) \<Longrightarrow> linked m t xs = linked m' t xs"
  by (induction m t xs rule: linked.induct) auto

lemma linked_snoc:
  assumes "linked m t (xs @ [(q, e)])" "distinct (map fst (xs @ [(q, e), (p, d)]))" "m q = Some n"
    "m' = m(p \<mapsto> \<lparr>prev = h, nxt = y, data = d\<rparr>, q \<mapsto> n\<lparr>prev := p\<rparr>)"
  shows "linked m' h (xs @ [(q, e), (p, d)])"
  using assms
proof (induction xs)
  case (Cons x xs)
  then show ?case by (cases x; cases xs) (auto split: if_splits)
qed auto

section \<open>Filling\<close>

lemma queue_create_filling:
  assumes "h \<noteq> NULL" "r \<noteq> NULL"
  shows "\<exists>q. queue_create h r = Some (0, Some q) \<and> filling q [] \<and> qhead q = h \<and> dom (nodes q) = {h}"
  using assms by (auto simp: queue_create_def set_prev_def set_nxt_def filling_def ring_head_def newest_def Let_def)

lemma filling_empty: "filling q xs \<Longrightarrow> queue_is_empty q = Some (xs = [])"
  using first_in [of xs "qhead q"]
  by (auto simp: filling_def ring_head_def queue_is_empty_def get_prev_def get_nxt_def newest_def)

lemma linked_dom: "linked m t xs \<Longrightarrow> fst ` set xs \<subseteq> dom m"
  by (induction m t xs rule: linked.induct) auto

lemma push_filling:
  assumes f: "filling q xs" and p: "p \<noteq> NULL" "nodes q p = None"
  shows "\<exists>q'. queue_push p d q = Some (0, q') \<and> filling q' (xs @ [(p, d)]) \<and> dom (nodes q') = insert p (dom (nodes q))"
proof -
  let ?h = "qhead q"
  obtain x where x: "nodes q ?h = Some x" "prev x = first ?h xs" "nxt x = newest ?h xs"
    using f by (auto simp: filling_def ring_head_def)
  have ph: "p \<noteq> ?h" using x(1) p(2) by auto
  have dis: "distinct (map fst xs)" "?h \<notin> fst ` set xs" using f by (auto simp: filling_def)
  have em: "queue_is_empty (q\<lparr>nodes := (nodes q)(p \<mapsto> \<lparr>prev = NULL, nxt = NULL, data = d\<rparr>)\<rparr>) = Some (xs = [])"
    using filling_empty [OF f] ph by (simp add: queue_is_empty_def get_prev_def get_nxt_def)
  show ?thesis
  proof (cases xs rule: rev_cases)
    case Nil
    then show ?thesis using em x ph p(1)
      by (auto simp: queue_push_def set_prev_def set_nxt_def get_nxt_def filling_def ring_head_def newest_def Let_def)
  next
    case (snoc ys l)
    obtain b e where l: "l = (b, e)" by (cases l)
    obtain t where lk: "linked (nodes q) t (ys @ [(b, e)])"
      using f snoc l by (auto simp only: filling_def)
    then have sub: "fst ` set xs \<subseteq> dom (nodes q)" using linked_dom snoc l by blast
    then obtain n where n: "nodes q b = Some n" by (auto simp: snoc l)
    have "p \<notin> dom (nodes q)" using p(2) by (simp add: domIff)
    with sub have pxs: "p \<notin> fst ` set xs" by blast
    have b: "b \<noteq> ?h" "b \<noteq> p" using dis(2) pxs by (auto simp: snoc l)
    let ?m = "(nodes q)(p \<mapsto> \<lparr>prev = ?h, nxt = b, data = d\<rparr>, b \<mapsto> n\<lparr>prev := p\<rparr>)"
    define q' where "q' = q\<lparr>nodes := ?m(?h \<mapsto> x\<lparr>nxt := p\<rparr>)\<rparr>"
    have "queue_push p d q = Some (0, q')"
      using em x ph p(1) n b
      by (auto simp: queue_push_def set_prev_def set_nxt_def get_nxt_def newest_def snoc l q'_def Let_def fun_upd_twist)
    moreover have "linked (nodes q') ?h (xs @ [(p, d)])"
    proof -
      have "linked ?m ?h (ys @ [(b, e), (p, d)])"
        using linked_snoc [OF lk _ n refl] dis(1) pxs by (simp add: snoc l)
      also have "linked ?m ?h (ys @ [(b, e), (p, d)]) = linked (nodes q') ?h (ys @ [(b, e), (p, d)])"
        using dis(2) ph by (intro linked_cong) (auto simp: q'_def snoc l)
      finally show ?thesis by (simp add: snoc l)
    qed
    moreover have "first ?h (xs @ [(p, d)]) = first ?h xs" by (cases ys) (auto simp: snoc l)
    ultimately show ?thesis using x n dis pxs ph
      by (auto simp: filling_def ring_head_def newest_def q'_def snoc l)
  qed
qed


section \<open>Draining\<close>

lemma filling_turns: "filling q xs \<Longrightarrow> 2 \<le> length xs \<Longrightarrow> draining q xs"
  by (auto simp: filling_def draining_def split: if_splits)

lemma draining_empty: "draining q xs \<Longrightarrow> queue_is_empty q = Some (xs = [])"
  using first_in [of xs "qhead q"]
  by (cases "xs = []") (auto 0 3 simp: draining_def ring_head_def queue_is_empty_def get_prev_def get_nxt_def rev_image_eqI split: if_splits)

lemma first_newest:
  assumes "distinct (map fst xs)" "2 \<le> length xs"
  shows "first h xs \<noteq> newest h xs"
proof -
  obtain p d ys where xs: "xs = (p, d) # ys" using assms(2) by (cases xs) auto
  then have "last ys \<in> set ys" using assms(2) by (cases ys) auto
  then show ?thesis using assms(1) by (auto simp: xs newest_def rev_image_eqI)
qed

lemma pop_draining:
  assumes d: "draining q ((p, e) # xs)"
  shows "\<exists>q'. queue_pop data q = Some (e, q') \<and> draining q' xs"
proof -
  let ?h = "qhead q"
  obtain x where x: "nodes q ?h = Some x" "prev x = p"
      "nxt x = (if xs = [] then ?h else newest ?h ((p, e) # xs))"
    using d by (cases xs) (auto simp: draining_def ring_head_def)
  obtain n where n: "nodes q p = Some n" "data n = e" "prev n = first ?h xs"
    using d by (auto simp: draining_def)
  have dis: "distinct (map fst xs)" "p \<notin> fst ` set xs" "?h \<noteq> p" "?h \<notin> fst ` set xs"
    using d by (auto simp: draining_def)
  define nx where "nx = (if length xs \<le> 1 then ?h else newest ?h xs)"
  define q' where "q' = q\<lparr>nodes := (nodes q)(?h \<mapsto> x\<lparr>prev := first ?h xs, nxt := nx\<rparr>, p := None)\<rparr>"
  have same: "newest ?h ((p, e) # xs) = newest ?h xs" if "xs \<noteq> []" using that by (simp add: newest_def)
  have "queue_pop data q = Some (e, q')"
  proof (cases "length xs \<le> 1")
    case True
    then have "first ?h xs = newest ?h xs" by (cases xs) (auto simp: newest_def)
    then show ?thesis using draining_empty [OF d] x n dis True same first_in [of xs ?h]
      by (cases x) (auto simp: queue_pop_def get_prev_def get_nxt_def set_prev_def set_nxt_def q'_def nx_def Let_def)
  next
    case False
    then have "first ?h xs \<noteq> newest ?h xs" using first_newest dis(1) by simp
    then show ?thesis using draining_empty [OF d] x n dis False same
      by (cases x) (auto simp: queue_pop_def get_prev_def get_nxt_def set_prev_def set_nxt_def q'_def nx_def Let_def)
  qed
  moreover have "linked (nodes q') ?h xs = linked (nodes q) ?h xs"
  proof (rule linked_cong)
    fix a assume "a \<in> fst ` set xs"
    then have "a \<noteq> ?h" "a \<noteq> p" using dis by blast+
    then show "nodes q' a = nodes q a" by (simp add: q'_def)
  qed
  ultimately show ?thesis using d dis
    by (auto simp: draining_def ring_head_def q'_def nx_def)
qed

section \<open>The contract\<close>

fun queue_enq :: "ptr \<times> ptr \<Rightarrow> queue \<Rightarrow> queue option" where
  "queue_enq (p, d) q = do { (ret, q) \<leftarrow> queue_push p d q; if ret = 0 then Some q else None }"

definition queue_ready :: "queue \<Rightarrow> ptr \<times> ptr \<Rightarrow> bool" where
  "queue_ready q a \<longleftrightarrow> fst a \<noteq> NULL \<and> fst a \<notin> dom (nodes q)"

interpretation qb: batch_queue filling draining queue_enq "queue_pop data" queue_is_empty snd queue_ready
  "\<lambda>a b. fst a \<noteq> fst b"
proof unfold_locales
  fix q xs a assume "filling q xs" "queue_ready q a"
  with push_filling [of q xs "fst a" "snd a"] obtain q' where
    "queue_push (fst a) (snd a) q = Some (0, q')" "filling q' (xs @ [a])" "dom (nodes q') = insert (fst a) (dom (nodes q))"
    by (auto simp: queue_ready_def)
  then show "\<exists>s'. queue_enq a q = Some s' \<and> filling s' (xs @ [a]) \<and>
      (\<forall>b. fst a \<noteq> fst b \<longrightarrow> queue_ready q b \<longrightarrow> queue_ready s' b)"
    by (cases a) (auto simp: queue_ready_def)
next
  fix q a and xs :: "(ptr \<times> ptr) list" assume "draining q (a # xs)"
  then show "\<exists>s'. queue_pop data q = Some (snd a, s') \<and> draining s' xs"
    using pop_draining [of q "fst a" "snd a" xs] by simp
qed (simp_all add: filling_turns draining_empty)

section \<open>Properties\<close>



definition push_pop_push :: "ptr \<Rightarrow> ptr \<Rightarrow> ptr \<Rightarrow> (ptr list \<times> bool) option" where
  "push_pop_push a b c = do {
     (ret, q) \<leftarrow> queue_create 1 2;
     q \<leftarrow> q;
     q \<leftarrow> add_all queue_enq [(3, a), (4, b)] q;
     (x, q) \<leftarrow> queue_pop data q;
     q \<leftarrow> queue_enq (5, c) q;
     (y, q) \<leftarrow> queue_pop data q;
     Some ([x, y], 4 \<in> dom (nodes q))
   }"

text \<open>
  Pushing to a queue that has been drained to its last element loses that element: whatever the
  data, of three pushed elements only the first and the third are popped, and the second node stays
  in the heap unreachable.
\<close>

theorem queue_push_after_drain_loses: "push_pop_push a b c = Some ([a, c], True)"
  by (simp add: push_pop_push_def queue_create_def queue_push_def queue_pop_def queue_is_empty_def
      set_prev_def set_nxt_def get_prev_def get_nxt_def Let_def)

text \<open>
  After one push and one pop the queue reports that it is not empty, and the next pop follows a
  pointer to the freed node.
\<close>

theorem queue_single_dangles:
  assumes "h \<noteq> NULL" "r \<noteq> NULL" "p \<noteq> NULL" "p \<noteq> h"
  shows "\<exists>q q1 q2. queue_create h r = Some (0, Some q) \<and> queue_push p d q = Some (0, q1) \<and>
    queue_pop data q1 = Some (d, q2) \<and> queue_is_empty q2 = Some False \<and> queue_pop data q2 = None"
  using assms
  by (simp add: queue_create_def queue_push_def queue_pop_def queue_is_empty_def
      set_prev_def set_nxt_def get_prev_def get_nxt_def Let_def)

theorem queue_single_dangles_witness:
  "\<exists>q q1 q2. queue_create 1 2 = Some (0, Some q) \<and> queue_push 3 30 q = Some (0, q1) \<and>
    queue_pop data q1 = Some (30, q2) \<and> queue_is_empty q2 = Some False \<and> queue_pop data q2 = None"
  using queue_single_dangles [of 1 2 3 30] by simp

end
