(* ===== verification/Dns.thy ===== *)
theory Dns
  imports Prelude
begin

text \<open>
  The asynchronous DNS client of \<open>pool/asyn_dns_client.c\<close>. Messages and names are lists of bytes; an
  access outside of one is \<open>None\<close>. The host is little-endian, as \<open>htons\<close> shows. The socket calls, the
  random number and the contents of fresh memory are parameters.
\<close>

section \<open>Bytes\<close>

definition rd :: "u8 list \<Rightarrow> nat \<Rightarrow> u8 option" where
  "rd m i = (if i < length m then Some (m ! i) else None)"

definition get_bytes :: "u8 list \<Rightarrow> nat \<Rightarrow> nat \<Rightarrow> u8 list option" where
  "get_bytes m i n = (if i + n \<le> length m then Some (take n (drop i m)) else None)"

definition put_bytes :: "u8 list \<Rightarrow> nat \<Rightarrow> u8 list \<Rightarrow> u8 list option" where
  "put_bytes m i bs =
     (if i + length bs \<le> length m then Some (take i m @ bs @ drop (i + length bs) m) else None)"

text \<open>A \<open>short\<close> as it lies in memory, and \<open>htons\<close>, which is \<open>ntohs\<close>.\<close>

definition short_mem :: "u16 \<Rightarrow> u8 list" where
  "short_mem w = [ucast w, ucast (drop_bit 8 w)]"

definition htons :: "u16 \<Rightarrow> u16" where
  "htons w = push_bit 8 w OR drop_bit 8 w"

definition rd_short :: "u8 list \<Rightarrow> nat \<Rightarrow> u16 option" where
  "rd_short m i = do { a \<leftarrow> rd m i; b \<leftarrow> rd m (i + 1); Some (ucast a OR push_bit 8 (ucast b)) }"

definition rd_net :: "u8 list \<Rightarrow> nat \<Rightarrow> nat option" where
  "rd_net m i = map_option (\<lambda>w. unat (htons w)) (rd_short m i)"

definition dot :: u8 where "dot = 46"

section \<open>The request\<close>

record dns_header =
  hd_id :: u16
  flags :: u16
  qdcount :: u16
  ancount :: u16
  nscount :: u16
  arcount :: u16

record dns_question =
  qlength :: nat
  qtype :: u16
  qclass :: u16
  qname :: "u8 list"

definition dns_create_header :: "u16 \<Rightarrow> dns_header" where
  "dns_create_header random = \<lparr>hd_id = random, flags = 0 OR htons 0x0100, qdcount = htons 1,
     ancount = 0, nscount = 0, arcount = 0\<rparr>"

text \<open>One call of \<open>strtok\<close>: the next token and the string after it and its delimiter.\<close>

definition strtok :: "u8 list \<Rightarrow> (u8 list \<times> u8 list) option" where
  "strtok s = (let s = dropWhile (\<lambda>c. c = dot) s in
     if s = [] then None
     else Some (takeWhile (\<lambda>c. c \<noteq> dot) s, drop 1 (dropWhile (\<lambda>c. c \<noteq> dot) s)))"

lemma strtok_shorter: "strtok s = Some (tok, rest) \<Longrightarrow> length rest < length s"
proof -
  assume a: "strtok s = Some (tok, rest)"
  let ?s = "dropWhile (\<lambda>c. c = dot) s"
  have "?s \<noteq> []" "rest = drop 1 (dropWhile (\<lambda>c. c \<noteq> dot) ?s)" "?s \<noteq> [] \<Longrightarrow> hd ?s \<noteq> dot"
    using a hd_dropWhile [of "\<lambda>c. c = dot" s] by (auto simp: strtok_def Let_def split: if_splits)
  moreover from this have "length (dropWhile (\<lambda>c. c \<noteq> dot) ?s) < length ?s"
    by (cases ?s) (auto simp: le_imp_less_Suc length_dropWhile_le)
  ultimately show ?thesis using length_dropWhile_le [of "\<lambda>c. c = dot" s] by simp
qed

text \<open>\<open>label_loop q i s\<close>: the tokens of \<open>s\<close> as labels in \<open>q\<close> from offset \<open>i\<close>; \<open>strncpy\<close> copies the
  token and the zero behind it.\<close>

function label_loop :: "u8 list \<Rightarrow> nat \<Rightarrow> u8 list \<Rightarrow> u8 list option" where
  "label_loop q i s = (case strtok s of
       None \<Rightarrow> Some q
     | Some (tok, rest) \<Rightarrow> do {
         q \<leftarrow> put_bytes q i [of_nat (length tok)];
         q \<leftarrow> put_bytes q (i + 1) (tok @ [0]);
         label_loop q (i + 1 + length tok) rest
       })"
  by pat_completeness auto

termination by (relation "measure (\<lambda>(q, i, s). length s)") (auto simp: strtok_shorter)

declare label_loop.simps [simp del]

text \<open>\<open>mem\<close> is what \<open>malloc\<close> returns for the name, with whatever its bytes hold.\<close>

definition dns_create_question :: "u8 list option \<Rightarrow> u8 list \<Rightarrow> (int \<times> dns_question option) option" where
  "dns_create_question mem hostname = (case mem of None \<Rightarrow> Some (- 2, None)
     | Some q \<Rightarrow> do {
         q \<leftarrow> label_loop q 0 hostname;
         Some (0, Some \<lparr>qlength = length hostname + 2, qtype = htons 1, qclass = htons 1, qname = q\<rparr>)
       })"

definition header_mem :: "dns_header \<Rightarrow> u8 list" where
  "header_mem h = short_mem (hd_id h) @ short_mem (flags h) @ short_mem (qdcount h) @
     short_mem (ancount h) @ short_mem (nscount h) @ short_mem (arcount h)"

definition dns_build_request :: "dns_header \<Rightarrow> dns_question \<Rightarrow> u8 list \<Rightarrow> (nat \<times> u8 list) option" where
  "dns_build_request header question request = do {
     let header_s = 12;
     let question_s = qlength question + 2 + 2;
     let len = question_s + header_s;
     let offset = 0;
     request \<leftarrow> put_bytes request offset (header_mem header);
     let offset = offset + 12;
     name \<leftarrow> get_bytes (qname question) 0 (qlength question);
     request \<leftarrow> put_bytes request offset name;
     let offset = offset + qlength question;
     request \<leftarrow> put_bytes request offset (short_mem (qtype question));
     let offset = offset + 2;
     request \<leftarrow> put_bytes request offset (short_mem (qclass question));
     Some (len, request)
   }"

section \<open>The response\<close>

definition is_pointer :: "u8 \<Rightarrow> bool" where
  "is_pointer b = (b AND 0xC0 = 0xC0)"

text \<open>\<open>dns_parse_name\<close> appends the name at \<open>ptr\<close> to \<open>out\<close>, which holds \<open>len\<close> bytes already.\<close>

partial_function (option) dns_parse_name :: "u8 list \<Rightarrow> nat \<Rightarrow> u8 list \<Rightarrow> nat \<Rightarrow> (u8 list \<times> nat) option" where
  "dns_parse_name chunk ptr out len = do {
     flag \<leftarrow> rd chunk ptr;
     if flag = 0 then Some (out, len)
     else if is_pointer flag then do {
       n \<leftarrow> rd chunk (ptr + 1);
       dns_parse_name chunk (unat n) out len
     } else do {
       let ptr = ptr + 1;
       seg \<leftarrow> get_bytes chunk ptr (unat flag);
       out \<leftarrow> put_bytes out len seg;
       let ptr = ptr + unat flag;
       let len = len + unat flag;
       b \<leftarrow> rd chunk ptr;
       if b \<noteq> 0 then do {
         out \<leftarrow> put_bytes out len [dot];
         dns_parse_name chunk ptr out (len + 1)
       } else dns_parse_name chunk ptr out len
     }
   }"

text \<open>The loop over the labels of a question.\<close>

partial_function (option) skip_name :: "u8 list \<Rightarrow> nat \<Rightarrow> nat option" where
  "skip_name m ptr = do {
     flag \<leftarrow> rd m ptr;
     let ptr = ptr + (unat flag + 1);
     if flag = 0 then Some ptr else skip_name m ptr
   }"

fun skip_questions :: "u8 list \<Rightarrow> nat \<Rightarrow> nat \<Rightarrow> nat option" where
  "skip_questions m ptr 0 = Some ptr"
| "skip_questions m ptr (Suc n) = do { ptr \<leftarrow> skip_name m ptr; skip_questions m (ptr + 4) n }"

text \<open>The dotted decimal of \<open>inet_ntop\<close>, and the C string in a buffer.\<close>

definition decimal :: "nat \<Rightarrow> u8 list" where
  "decimal n = (if n < 10 then [] else if n < 100 then [of_nat (48 + n div 10)]
     else [of_nat (48 + n div 100), of_nat (48 + n div 10 mod 10)]) @ [of_nat (48 + n mod 10)]"

definition inet_ntop :: "u8 list \<Rightarrow> u8 list" where
  "inet_ntop ip = concat (map (\<lambda>b. decimal (unat b) @ [dot]) (take 3 ip)) @ decimal (unat (ip ! 3))"

definition cstring :: "u8 list \<Rightarrow> u8 list" where
  "cstring m = takeWhile (\<lambda>c. c \<noteq> 0) m"

record dns_item =
  domain :: "u8 list"
  ip :: "u8 list"

definition DNS_HOST :: nat where "DNS_HOST = 0x01"
definition DNS_CNAME :: nat where "DNS_CNAME = 0x05"

text \<open>One answer: the place after it, and the item it gives, if any.\<close>

definition parse_answer :: "u8 list \<Rightarrow> nat \<Rightarrow> (nat \<times> dns_item option) option" where
  "parse_answer m ptr = do {
     (aname, len) \<leftarrow> dns_parse_name m ptr (replicate 128 0) 0;
     let ptr = ptr + 2;
     type \<leftarrow> rd_net m ptr;
     let ptr = ptr + 4;
     ttl \<leftarrow> rd_net m ptr;
     let ptr = ptr + 4;
     datalen \<leftarrow> rd_net m ptr;
     let ptr = ptr + 2;
     if type = DNS_CNAME then do {
       cname \<leftarrow> dns_parse_name m ptr (replicate 128 0) 0;
       Some (ptr + datalen, None)
     } else if type = DNS_HOST then
       if datalen = 4 then do {
         netip \<leftarrow> get_bytes m ptr datalen;
         Some (ptr + datalen, Some \<lparr>domain = cstring aname, ip = inet_ntop netip\<rparr>)
       } else Some (ptr + datalen, None)
     else Some (ptr, None)
   }"

fun parse_answers :: "u8 list \<Rightarrow> nat \<Rightarrow> nat \<Rightarrow> dns_item list option" where
  "parse_answers m ptr 0 = Some []"
| "parse_answers m ptr (Suc n) = do {
     (ptr, item) \<leftarrow> parse_answer m ptr;
     items \<leftarrow> parse_answers m ptr n;
     Some (case item of None \<Rightarrow> items | Some x \<Rightarrow> x # items)
   }"

text \<open>\<open>mem\<close> tells whether \<open>calloc\<close> gives memory for the list; the result is the return value and the
  list of items.\<close>

definition dns_parse_response :: "bool \<Rightarrow> u8 list \<Rightarrow> (int \<times> dns_item list) option" where
  "dns_parse_response mem m = do {
     querys \<leftarrow> rd_net m 4;
     answers \<leftarrow> rd_net m 6;
     ptr \<leftarrow> skip_questions m 12 querys;
     if mem then do {
       items \<leftarrow> parse_answers m ptr answers;
       Some (int (length items), items)
     } else Some (- 1, [])
   }"

section \<open>The client\<close>

text \<open>
  What the socket, the request and the epoll instance see. \<open>watched\<close> are the \<open>ep_arg\<close>s in the epoll
  instance: the callback of each descriptor; \<open>called\<close> are the calls of callbacks.
\<close>

record async_client =
  watched :: "int \<rightharpoonup> nat"
  sent :: "(int \<times> u8 list) list"
  called :: "(nat \<times> dns_item list \<times> int) list"
  closed :: "int list"

definition O_NONBLOCK :: u32 where "O_NONBLOCK = 0x800"

text \<open>\<open>fcntl\<close> gives \<open>fl\<close> for the flags, negative for an error, and \<open>setfl\<close> for setting them.\<close>

definition set_block :: "u32 \<Rightarrow> (u32 \<Rightarrow> int) \<Rightarrow> bool \<Rightarrow> int" where
  "set_block fl setfl block =
     (if sint fl < 0 then sint fl
      else let fl = (if block then fl AND NOT O_NONBLOCK else fl OR O_NONBLOCK) in
        if setfl fl < 0 then - 1 else 0)"

text \<open>The bytes that go to the server for a domain name.\<close>

definition dns_request :: "u16 \<Rightarrow> u8 list \<Rightarrow> u8 list \<Rightarrow> u8 list option" where
  "dns_request random mem name = do {
     let header = dns_create_header random;
     (ret, question) \<leftarrow> dns_create_question (Some mem) name;
     q \<leftarrow> question;
     (req_len, request) \<leftarrow> dns_build_request header q (replicate 1024 0);
     get_bytes request 0 req_len
   }"

text \<open>The blocking client: \<open>recvs\<close> are the results of \<open>recvfrom\<close> and the datagrams; it waits for the
  first that is positive. The process exits, which is \<open>None\<close>, without a socket.\<close>

definition recv_buffer :: "u8 list \<Rightarrow> u8 list" where
  "recv_buffer d = take 1024 (d @ replicate 1024 0)"

fun recv_loop :: "(int \<times> u8 list) list \<Rightarrow> (int \<times> dns_item list) option" where
  "recv_loop [] = None"
| "recv_loop ((n, d) # recvs) =
     (if n \<le> 0 then recv_loop recvs else dns_parse_response True (recv_buffer d))"

definition dns_client_commit ::
  "int \<Rightarrow> u16 \<Rightarrow> u8 list \<Rightarrow> u8 list \<Rightarrow> (int \<times> u8 list) list \<Rightarrow> (int \<times> u8 list \<times> dns_item list) option" where
  "dns_client_commit sockfd random mem name recvs =
     (if sockfd < 0 then None
      else do {
        request \<leftarrow> dns_request random mem name;
        (count, items) \<leftarrow> recv_loop recvs;
        Some (0, request, items)
      })"

text \<open>The context, or none, and the descriptors closed, for the results of \<open>epoll_create\<close>, of \<open>calloc\<close>
  and of \<open>pthread_create\<close>.\<close>

definition dns_async_client_init :: "int \<Rightarrow> bool \<Rightarrow> int \<Rightarrow> int option \<times> int list" where
  "dns_async_client_init epfd mem thread =
     (if epfd < 0 then (None, [])
      else if \<not> mem then (None, [epfd])
      else if thread \<noteq> 0 then (None, [])
      else (Some epfd, []))"

text \<open>\<open>sockfd\<close>, \<open>eparg\<close> and \<open>ret\<close> are the results of \<open>socket\<close>, of \<open>calloc\<close> and of \<open>epoll_ctl\<close>; the process
  exits, which is \<open>None\<close>, without a socket.\<close>

definition dns_async_client_commit ::
  "int \<Rightarrow> bool \<Rightarrow> int \<Rightarrow> u16 \<Rightarrow> u8 list \<Rightarrow> u8 list \<Rightarrow> nat \<Rightarrow> async_client \<Rightarrow> (int \<times> async_client) option" where
  "dns_async_client_commit sockfd eparg ret random mem name cb c =
     (if sockfd < 0 then None
      else do {
        request \<leftarrow> dns_request random mem name;
        let c = c\<lparr>sent := sent c @ [(sockfd, request)]\<rparr>;
        if \<not> eparg then Some (- 1, c)
        else Some (ret, if ret = 0 then c\<lparr>watched := (watched c)(sockfd \<mapsto> cb)\<rparr> else c)
      })"

text \<open>The turn of \<open>dns_async_client_proc\<close> for one ready descriptor and the datagram it gives.\<close>

definition handle_ready :: "int \<times> u8 list \<Rightarrow> async_client \<Rightarrow> async_client option" where
  "handle_ready = (\<lambda>(sockfd, datagram) c. do {
     cb \<leftarrow> watched c sockfd;
     (count, items) \<leftarrow> dns_parse_response True (recv_buffer datagram);
     Some (c\<lparr>called := called c @ [(cb, items, count)], watched := (watched c)(sockfd := None),
       closed := closed c @ [sockfd]\<rparr>)
   })"

fun handle_all :: "(int \<times> u8 list) list \<Rightarrow> async_client \<Rightarrow> async_client option" where
  "handle_all [] c = Some c"
| "handle_all (e # es) c = handle_ready e c \<bind> handle_all es"

text \<open>What \<open>epoll_wait\<close> reports: ready descriptors, an interruption, or an error that ends the thread.\<close>

datatype poll = Ready "(int \<times> u8 list) list" | Again | Broken

fun dns_async_client_proc :: "poll list \<Rightarrow> async_client \<Rightarrow> async_client option" where
  "dns_async_client_proc [] c = Some c"
| "dns_async_client_proc (Ready es # ps) c = handle_all es c \<bind> dns_async_client_proc ps"
| "dns_async_client_proc (Again # ps) c = dns_async_client_proc ps c"
| "dns_async_client_proc (Broken # ps) c = Some c"

lemmas dns_loops [code] = dns_parse_name.simps skip_name.simps

end
