(* ===== verification/Dns_Names.thy ===== *)
theory Dns_Names
  imports Dns
begin

text \<open>
  Bytes and 16-bit numbers in messages, names as lists of labels and their encoding, and what the
  loops that build and parse them do on it.
\<close>

section \<open>Bytes\<close>

named_theorems at_simps \<open>reading and writing at the end of a prefix\<close>

lemma rd_append [at_simps]: "rd (xs @ ys) (length xs + n) = rd ys n"
  by (simp add: rd_def)

lemma rd_Cons [at_simps]: "rd (x # xs) 0 = Some x" "rd (x # xs) (Suc n) = rd xs n"
  by (simp_all add: rd_def)

lemma get_bytes_prefix: "length bs = n \<Longrightarrow> get_bytes (bs @ ys) 0 n = Some bs"
  by (simp add: get_bytes_def)

lemma get_bytes_append [at_simps]: "get_bytes (xs @ ys) (length xs + n) k = get_bytes ys n k"
  by (simp add: get_bytes_def)

lemma get_bytes_Cons [at_simps]: "get_bytes (x # xs) (Suc n) k = get_bytes xs n k"
  by (simp add: get_bytes_def)

lemma put_bytes_at:
  "length ys = length bs \<Longrightarrow> put_bytes (xs @ ys @ zs) (length xs) bs = Some (xs @ bs @ zs)"
  by (simp add: put_bytes_def)

lemma unat_short: "unat (htons (ucast a OR push_bit 8 (ucast b))) = 256 * unat a + unat b" for a b :: u8
proof -
  have "htons (ucast a OR push_bit 8 (ucast b)) = push_bit 8 (ucast a) OR (ucast b :: u16)"
    by (rule bit_word_eqI) (auto simp: htons_def bit_simps dest: bit_imp_le_length)
  also have "\<dots> = push_bit 8 (ucast a) + (ucast b :: u16)"
    by (rule disjunctive_add [symmetric]) (auto simp: bit_simps dest: bit_imp_le_length)
  finally have eq: "htons (ucast a OR push_bit 8 (ucast b)) = push_bit 8 (ucast a) + (ucast b :: u16)" .
  have ab: "unat a < 256" "unat b < 256" using unsigned_less [of a] unsigned_less [of b] by simp_all
  have "unat (ucast a :: u16) = unat a" using ab(1) by (simp add: unsigned_ucast_eq take_bit_nat_eq_self_iff)
  then have a: "unat (push_bit 8 (ucast a :: u16)) = 256 * unat a"
    using ab(1) by (simp add: push_bit_eq_mult unat_word_ariths)
  have b: "unat (ucast b :: u16) = unat b" using ab(2) by (simp add: unsigned_ucast_eq take_bit_nat_eq_self_iff)
  show ?thesis unfolding eq using ab by (simp add: unat_plus_if' a b)
qed

lemma rd_net_at [at_simps]: "rd_net (a # b # ys) 0 = Some (256 * unat a + unat b)"
  by (simp add: rd_net_def rd_short_def rd_def unat_short)

lemma rd_net_append [at_simps]: "rd_net (xs @ ys) (length xs + n) = rd_net ys n"
  using rd_append [of xs ys "Suc n"] by (simp add: rd_net_def rd_short_def rd_append)

lemma rd_net_Cons [at_simps]: "rd_net (x # ys) (Suc n) = rd_net ys n"
  by (simp add: rd_net_def rd_short_def at_simps)

section \<open>Names and their encoding\<close>

fun dotted :: "u8 list list \<Rightarrow> u8 list" where
  "dotted [] = []"
| "dotted (l # ls) = l @ (if ls = [] then [] else dot # dotted ls)"

definition label_ok :: "u8 list \<Rightarrow> bool" where
  "label_ok l \<longleftrightarrow> l \<noteq> [] \<and> length l \<le> 63 \<and> dot \<notin> set l \<and> 0 \<notin> set l"

definition name_ok :: "u8 list list \<Rightarrow> bool" where
  "name_ok ls \<longleftrightarrow> ls \<noteq> [] \<and> (\<forall>l\<in>set ls. label_ok l)"

fun encoded :: "u8 list list \<Rightarrow> u8 list" where
  "encoded [] = [0]"
| "encoded (l # ls) = of_nat (length l) # l @ encoded ls"

lemma length_encoded: "ls \<noteq> [] \<Longrightarrow> length (encoded ls) = length (dotted ls) + 2"
  by (induction ls rule: dotted.induct) auto

lemma dotted_nonzero: "\<forall>l\<in>set ls. label_ok l \<Longrightarrow> 0 \<notin> set (dotted ls)"
  by (induction ls rule: dotted.induct) (auto simp: label_ok_def dot_def)

lemma strtok_dotted: "label_ok l \<Longrightarrow> strtok (dotted (l # ls)) = Some (l, dotted ls)"
proof -
  assume l: "label_ok l"
  then obtain c cs where c: "l = c # cs" "c \<noteq> dot" by (cases l) (auto simp: label_ok_def)
  have "takeWhile (\<lambda>c. c \<noteq> dot) l = l" "dropWhile (\<lambda>c. c \<noteq> dot) l = []"
    using l by (auto simp: takeWhile_eq_all_conv dropWhile_eq_Nil_conv label_ok_def)
  then show ?thesis using c l
    by (auto simp: strtok_def Let_def takeWhile_append dropWhile_append label_ok_def)
qed

lemma strtok_Nil [simp]: "strtok [] = None" by (simp add: strtok_def)

lemma label_loop_dotted:
  assumes "\<forall>l\<in>set ls. label_ok l" "length q = i + (if ls = [] then k else length (encoded ls))"
  shows "label_loop q i (dotted ls) = Some (take i q @ (if ls = [] then drop i q else encoded ls))"
  using assms
proof (induction ls arbitrary: q i k)
  case Nil
  then show ?case by (simp add: label_loop.simps)
next
  case (Cons l ls)
  let ?n = "of_nat (length l) :: u8" and ?p = "take i q"
  have len: "length q = i + (1 + length l + length (encoded ls))" "length ?p = i" using Cons.prems(2) by auto
  let ?q1 = "?p @ ?n # drop (i + 1) q" and ?q2 = "?p @ ?n # l @ 0 # drop (i + 2 + length l) q"
  have "length (encoded ls) \<ge> 1" by (cases ls) auto
  then have room: "i + 2 + length l \<le> length q" using len(1) by simp
  have 1: "put_bytes q i [?n] = Some ?q1" using room by (simp add: put_bytes_def)
  have 2: "put_bytes ?q1 (i + 1) (l @ [0]) = Some ?q2"
  proof -
    have "i + 1 + (length l + 1) \<le> length ?q1" "drop (i + 1 + length (l @ [0])) ?q1 = drop (i + 2 + length l) q"
      using room len(2) by (simp_all add: ac_simps)
    then show ?thesis using len(2) by (simp add: put_bytes_def)
  qed
  have "label_loop ?q2 (i + 1 + length l) (dotted ls) =
      Some (take (i + 1 + length l) ?q2 @ (if ls = [] then drop (i + 1 + length l) ?q2 else encoded ls))"
    using Cons.prems len room by (intro Cons.IH [of _ _ 1]) auto
  moreover have "take (i + 1 + length l) ?q2 = ?p @ ?n # l" "drop (i + 1 + length l) ?q2 = 0 # drop (i + 2 + length l) q"
    using len(2) by simp_all
  moreover have "drop (i + 2 + length l) q = []" if "ls = []" using len(1) that by simp
  ultimately show ?case
    using strtok_dotted [of l ls] Cons.prems(1) 1 2
    by (subst label_loop.simps) (auto simp del: dotted.simps)
qed

section \<open>Parsing a name\<close>

lemma length_byte: "n \<le> 63 \<Longrightarrow> unat (of_nat n :: u8) = n"
  by (simp add: unsigned_of_nat take_bit_nat_eq_self_iff)

lemma length_no_pointer: "n \<le> 63 \<Longrightarrow> \<not> is_pointer (of_nat n)"
proof -
  have "\<forall>n\<in>set [0..<64]. \<not> is_pointer (of_nat n)" by code_simp
  then show "n \<le> 63 \<Longrightarrow> \<not> is_pointer (of_nat n)" by simp
qed

lemma parse_encoded:
  assumes "name_ok ls" "n + length (dotted ls) \<le> length out"
  shows "dns_parse_name (pre @ encoded ls @ post) (length pre) out n =
    Some (take n out @ dotted ls @ drop (n + length (dotted ls)) out, n + length (dotted ls))"
  using assms
proof (induction ls arbitrary: pre out n)
  case (Cons l ls)
  let ?m = "pre @ encoded (l # ls) @ post" and ?k = "of_nat (length l) :: u8"
  have l: "label_ok l" "length l \<le> 63" "l \<noteq> []" using Cons.prems(1) by (auto simp: name_ok_def label_ok_def)
  have k: "unat ?k = length l" "\<not> is_pointer ?k" "?k \<noteq> 0"
    using l(2,3) length_byte [OF l(2)] length_no_pointer by auto
  have m: "?m = (pre @ ?k # l) @ encoded ls @ post" "length (pre @ ?k # l) = length pre + 1 + length l" by simp_all
  have r1: "rd ?m (length pre) = Some ?k" using rd_append [of pre _ 0] by (simp add: rd_def)
  have r2: "get_bytes ?m (length pre + 1) (length l) = Some l" by (simp add: get_bytes_def)
  have r3: "rd ?m (length pre + 1 + length l) = rd (encoded ls @ post) 0"
    using rd_append [of "pre @ ?k # l" "encoded ls @ post" 0] by simp
  let ?o = "take n out @ l @ drop (n + length l) out"
  have o1: "put_bytes out n l = Some ?o" using Cons.prems(2) by (simp add: put_bytes_def)
  show ?case
  proof (cases "ls = []")
    case True
    then show ?thesis using r1 r2 r3 k o1
      by (subst dns_parse_name.simps) (simp add: Let_def, subst dns_parse_name.simps, simp add: rd_def)
  next
    case False
    then obtain l2 ls2 where ls: "ls = l2 # ls2" by (cases ls) auto
    then have "l2 \<noteq> []" "length l2 \<le> 63" using Cons.prems(1) by (auto simp: name_ok_def label_ok_def)
    then have "(of_nat (length l2) :: u8) \<noteq> 0" using length_byte [of "length l2"] by auto
    then have r3': "rd ?m (length pre + 1 + length l) = Some (of_nat (length l2))" "(of_nat (length l2) :: u8) \<noteq> 0"
      using r3 by (simp_all add: ls rd_def)
    let ?o2 = "take n out @ (l @ [dot]) @ drop (n + length l + 1) out"
    have o2: "put_bytes ?o (n + length l) [dot] = Some ?o2"
      using Cons.prems(2) False by (simp add: put_bytes_def)
    have "dns_parse_name ?m (length pre) out n = dns_parse_name ?m (length pre + 1 + length l) ?o2 (n + length l + 1)"
      using r1 r2 r3' k o1 o2 by (subst dns_parse_name.simps) (simp add: Let_def)
    also have "\<dots> = Some (take (n + length l + 1) ?o2 @ dotted ls @ drop (n + length l + 1 + length (dotted ls)) ?o2,
        n + length l + 1 + length (dotted ls))"
      using Cons.IH [of "n + length l + 1" ?o2 "pre @ ?k # l"] Cons.prems False m by (auto simp: name_ok_def)
    finally show ?thesis using False Cons.prems(2) by (simp add: ac_simps)
  qed
qed (simp add: name_ok_def)

lemma parse_pointer:
  assumes "rd m p = Some b" "is_pointer b" "rd m (p + 1) = Some n"
  shows "dns_parse_name m p out k = dns_parse_name m (unat n) out k"
proof -
  have "b \<noteq> 0" using assms(2) by (auto simp: is_pointer_def)
  then show ?thesis using assms by (subst dns_parse_name.simps) simp
qed

lemma skip_encoded:
  assumes "\<forall>l\<in>set ls. label_ok l"
  shows "skip_name (pre @ encoded ls @ post) (length pre) = Some (length pre + length (encoded ls))"
  using assms
proof (induction ls arbitrary: pre)
  case Nil
  show ?case by (subst skip_name.simps) (simp add: rd_def)
next
  case (Cons l ls)
  let ?k = "of_nat (length l) :: u8"
  have "length l \<le> 63" "l \<noteq> []" using Cons.prems(1) by (auto simp: label_ok_def)
  then have k: "unat ?k = length l" "?k \<noteq> 0" using length_byte [of "length l"] by auto
  have r: "rd (pre @ encoded (l # ls) @ post) (length pre) = Some ?k" by (simp add: rd_def)
  show ?case using Cons.IH [of "pre @ ?k # l"] Cons.prems k r
    by (subst skip_name.simps) (simp add: Let_def)
qed

end
