(* ===== verification/Dns_Correct.thy ===== *)
theory Dns_Correct
  imports Dns_Names Interfaces
begin

text \<open>
  The request and the response of the DNS client against an encoder of the server's replies, the
  compression pointers it gets wrong, and the client from commit to callback.
\<close>

section \<open>The request\<close>

lemma htons_consts: "htons 1 = 0x100" "htons 0x100 = 1" "short_mem 0x100 = [0, 1]" "short_mem 1 = [1, 0]" "short_mem 0 = [0, 0]"
  by code_simp+

lemma header_bytes: "header_mem (dns_create_header r) = short_mem r @ [1, 0, 0, 1, 0, 0, 0, 0, 0, 0]"
  by (simp add: header_mem_def dns_create_header_def htons_consts)

definition query :: "u16 \<Rightarrow> u8 list list \<Rightarrow> u8 list" where
  "query r ls = short_mem r @ [1, 0, 0, 1, 0, 0, 0, 0, 0, 0] @ encoded ls @ [0, 1, 0, 1]"

lemma rd_net_nth: "i + 1 < length m \<Longrightarrow> rd_net m i = Some (256 * unat (m ! i) + unat (m ! (i + 1)))"
  by (simp add: rd_net_def rd_short_def rd_def unat_short)

lemma put_bytes_fill:
  assumes "length xs = n" "length bs \<le> k"
  shows "put_bytes (xs @ replicate k x) n bs = Some (xs @ bs @ replicate (k - length bs) x)"
  using assms by (simp add: put_bytes_def)

lemma dns_request_eq:
  assumes "name_ok ls" "length mem = length (dotted ls) + 2" "length (dotted ls) \<le> 1006"
  shows "dns_request r mem (dotted ls) = Some (query r ls)"
proof -
  have ls: "ls \<noteq> []" "\<forall>l\<in>set ls. label_ok l" using assms(1) by (simp_all add: name_ok_def)
  let ?e = "length (dotted ls) + 2" and ?h = "short_mem r @ [1, 0, 0, 1, 0, 0, 0, 0, 0, 0]"
  have e: "length (encoded ls) = ?e" using length_encoded [OF ls(1)] .
  have loop: "label_loop mem 0 (dotted ls) = Some (encoded ls)"
    using label_loop_dotted [OF ls(2), of mem 0 0] ls(1) assms(2) e by simp
  have h: "length ?h = 12" by (simp add: short_mem_def)
  have 1: "put_bytes (replicate 1024 0) 0 ?h = Some (?h @ replicate 1012 0)"
    using put_bytes_fill [of "[]" 0 ?h 1024 0] h by simp
  have 2: "put_bytes (?h @ replicate 1012 0) 12 (encoded ls) = Some (?h @ encoded ls @ replicate (1012 - ?e) 0)"
    using put_bytes_fill [OF h, of "encoded ls" 1012 0] assms(3) e by simp
  have 3: "put_bytes (?h @ encoded ls @ replicate (1012 - ?e) 0) (12 + ?e) [0, 1] =
      Some (?h @ encoded ls @ [0, 1] @ replicate (1010 - ?e) 0)"
    using put_bytes_fill [of "?h @ encoded ls" "12 + ?e" "[0, 1]" "1012 - ?e" 0] h assms(3) e by simp
  have 4: "put_bytes (?h @ encoded ls @ [0, 1] @ replicate (1010 - ?e) 0) (12 + ?e + 2) [0, 1] =
      Some (?h @ encoded ls @ [0, 1] @ [0, 1] @ replicate (1008 - ?e) 0)"
    using put_bytes_fill [of "?h @ encoded ls @ [0, 1]" "12 + ?e + 2" "[0, 1]" "1010 - ?e" 0] h assms(3) e by simp
  have "get_bytes (encoded ls) 0 ?e = Some (encoded ls)" using e by (simp add: get_bytes_def)
  moreover have "get_bytes (?h @ encoded ls @ [0, 1] @ [0, 1] @ replicate (1008 - ?e) 0) 0 (?e + 2 + 2 + 12) = Some (query r ls)"
    using get_bytes_prefix [of "query r ls" "?e + 2 + 2 + 12"] e by (simp add: query_def short_mem_def)
  ultimately show ?thesis using 1 2 3 4 loop
    by (simp only: dns_request_def dns_create_question_def dns_build_request_def header_bytes htons_consts Let_def
        option.case bind.bind_lunit prod.case dns_question.simps add_0 h)
qed

text \<open>
  C11. The request for a name of labels of 1 to 63 characters is the header, the name and the type
  and class as the protocol has them, and the client's own parser reads the same name back from it.
\<close>

theorem dns_query_roundtrip:
  assumes "name_ok ls" "length mem = length (dotted ls) + 2" "length (dotted ls) \<le> 1006"
    "length (dotted ls) \<le> length out"
  shows "\<exists>req. dns_request r mem (dotted ls) = Some req \<and> req = query r ls \<and>
    dns_parse_name req 12 out 0 = Some (dotted ls @ drop (length (dotted ls)) out, length (dotted ls))"
proof -
  let ?h = "short_mem r @ [1, 0, 0, 1, 0, 0, 0, 0, 0, 0]"
  have "query r ls = ?h @ encoded ls @ [0, 1, 0, 1]" "length ?h = 12"
    by (simp_all add: query_def short_mem_def)
  then show ?thesis
    using dns_request_eq [OF assms(1-3)] parse_encoded [OF assms(1), of 0 out ?h "[0, 1, 0, 1]"] assms(4)
    by (simp only: add_0 take_0 append_Nil) blast
qed

theorem dns_query_roundtrip_witness:
  "\<exists>req. dns_request 7 (replicate 5 99) [97, 46, 98] = Some req \<and>
     dns_parse_name req 12 (replicate 8 0) 0 = Some ([97, 46, 98] @ replicate 5 0, 3)"
  using dns_query_roundtrip [of "[[97], [98]]" "replicate 5 99" "replicate 8 0" 7]
  by (auto simp: name_ok_def label_ok_def dot_def)

section \<open>The response\<close>

text \<open>
  A reply as a server builds it: the header, the question of the name \<open>ls\<close>, and for each answer a
  pointer to the name in the question, type and class, the time to live and the address.
\<close>

definition answer :: "u8 list \<times> u8 list \<Rightarrow> u8 list" where
  "answer = (\<lambda>(ttl, ip). [0xC0, 12, 0, 1, 0, 1] @ ttl @ [0, 4] @ ip)"

definition reply :: "u8 list \<Rightarrow> u8 list list \<Rightarrow> (u8 list \<times> u8 list) list \<Rightarrow> u8 list" where
  "reply tag ls as = take 4 tag @ [0, 1] @ [of_nat (length as div 256), of_nat (length as mod 256)] @ drop 4 tag @
     encoded ls @ [0, 1, 0, 1] @ concat (map answer as)"

definition answer_ok :: "u8 list \<times> u8 list \<Rightarrow> bool" where
  "answer_ok a \<longleftrightarrow> length (fst a) = 4 \<and> length (snd a) = 4"

definition item_of :: "u8 list list \<Rightarrow> u8 list \<times> u8 list \<Rightarrow> dns_item" where
  "item_of ls a = \<lparr>domain = dotted ls, ip = inet_ntop (snd a)\<rparr>"

lemma cstring_padded: "0 \<notin> set xs \<Longrightarrow> 0 < n \<Longrightarrow> cstring (xs @ replicate n 0) = xs"
  by (cases n) (auto simp: cstring_def takeWhile_append takeWhile_eq_all_conv)

lemma parse_answer_reply:
  assumes m: "m = pre @ answer a @ post" and a: "answer_ok a"
    and name: "dns_parse_name m 12 (replicate 128 0) 0 = Some (dotted ls @ replicate (128 - length (dotted ls)) 0, k)"
    and ls: "0 \<notin> set (dotted ls)" "length (dotted ls) \<le> 127"
  shows "parse_answer m (length pre) = Some (length pre + 16, Some (item_of ls a))"
proof -
  obtain t1 t2 t3 t4 where t: "fst a = [t1, t2, t3, t4]"
    using a by (auto simp: answer_ok_def length_Suc_conv eval_nat_numeral)
  obtain i1 i2 i3 i4 where i: "snd a = [i1, i2, i3, i4]"
    using a by (auto simp: answer_ok_def length_Suc_conv eval_nat_numeral)
  have m': "m = pre @ [0xC0, 12, 0, 1, 0, 1, t1, t2, t3, t4, 0, 4, i1, i2, i3, i4] @ post"
    by (simp add: m answer_def case_prod_beta t i)
  have "dns_parse_name m (length pre) (replicate 128 0) 0 = dns_parse_name m (unat (12 :: u8)) (replicate 128 0) 0"
    by (rule parse_pointer [of _ _ "0xC0"]) (simp_all add: m' rd_def is_pointer_def nth_append)
  moreover have "rd_net m (length pre + 2) = Some 1" "rd_net m (6 + length pre) = Some (256 * unat t1 + unat t2)"
    "rd_net m (10 + length pre) = Some 4"
    by (simp_all add: m' rd_net_nth nth_append)
  moreover have "get_bytes m (12 + length pre) 4 = Some (snd a)"
    by (simp add: m' get_bytes_def i)
  ultimately show ?thesis using name cstring_padded [OF ls(1), of "128 - length (dotted ls)"] ls(2)
    by (simp add: parse_answer_def DNS_HOST_def DNS_CNAME_def item_of_def Let_def del: add_2_eq_Suc' cong: if_cong)
qed


lemma parse_answers_reply:
  assumes "m = pre @ concat (map answer as) @ post" "\<forall>a\<in>set as. answer_ok a"
    and "dns_parse_name m 12 (replicate 128 0) 0 = Some (dotted ls @ replicate (128 - length (dotted ls)) 0, k)"
    and "0 \<notin> set (dotted ls)" "length (dotted ls) \<le> 127"
  shows "parse_answers m (length pre) (length as) = Some (map (item_of ls) as)"
  using assms
proof (induction as arbitrary: pre)
  case (Cons a as)
  have "length (answer a) = 16" using Cons.prems(2) by (simp add: answer_def answer_ok_def case_prod_beta)
  moreover have "parse_answer m (length pre) = Some (length pre + 16, Some (item_of ls a))"
    using Cons.prems by (intro parse_answer_reply [of m pre a "concat (map answer as) @ post"]) auto
  ultimately show ?case using Cons.IH [of "pre @ answer a"] Cons.prems by simp
qed simp

lemma recv_buffer_short: "length d \<le> 1024 \<Longrightarrow> recv_buffer d = d @ replicate (1024 - length d) 0"
  by (simp add: recv_buffer_def)

lemma dns_response_parsed_eq:
  assumes ls: "name_ok ls" "length (dotted ls) \<le> 127" and tag: "length tag = 8"
    and as: "\<forall>a\<in>set as. answer_ok a" and fit: "length (reply tag ls as) \<le> 1024"
  shows "dns_parse_response True (recv_buffer (reply tag ls as)) = Some (int (length as), map (item_of ls) as)"
proof -
  define post where "post = replicate (1024 - length (reply tag ls as)) (0 :: u8)"
  let ?h = "take 4 tag @ [0, 1] @ [of_nat (length as div 256), of_nat (length as mod 256)] @ drop 4 tag"
  define m where "m = recv_buffer (reply tag ls as)"
  have m: "m = ?h @ encoded ls @ [0, 1, 0, 1] @ concat (map answer as) @ post"
    by (simp add: m_def recv_buffer_short [OF fit] flip: post_def) (simp add: reply_def)
  have h: "length ?h = 12" using tag by simp
  have lab: "\<forall>l\<in>set ls. label_ok l" using ls(1) by (simp add: name_ok_def)
  have n: "length as < 65536"
  proof -
    have "length (concat (map answer as)) = 16 * length as"
      using as by (induction as) (auto simp: answer_def answer_ok_def case_prod_beta)
    then show ?thesis using fit by (simp add: reply_def)
  qed
  have q: "rd_net m 4 = Some 1"
    using h tag by (simp add: m rd_net_nth nth_append)
  have u: "unat (of_nat (length as div 256) :: u8) = length as div 256" "unat (of_nat (length as mod 256) :: u8) = length as mod 256"
    using n by (simp_all add: unsigned_of_nat take_bit_nat_eq_self_iff less_mult_imp_div_less)
  have a: "rd_net m 6 = Some (length as)"
    using h tag u by (simp add: m rd_net_nth nth_append)
  let ?r = "[0, 1, 0, 1] @ concat (map answer as) @ post"
  have "skip_name m 12 = Some (12 + length (encoded ls))"
    using skip_encoded [OF lab, of ?h ?r] by (simp only: m h)
  then have skip: "skip_questions m 12 1 = Some (length (?h @ encoded ls @ [0, 1, 0, 1]))"
    using tag by simp
  have name: "dns_parse_name m 12 (replicate 128 0) 0 = Some (dotted ls @ replicate (128 - length (dotted ls)) 0, length (dotted ls))"
  proof -
    have "dns_parse_name m 12 (replicate 128 0) 0 = Some (take 0 (replicate 128 0) @ dotted ls @
        drop (0 + length (dotted ls)) (replicate 128 0), 0 + length (dotted ls))"
      using parse_encoded [OF ls(1), of 0 "replicate 128 0" ?h ?r] ls(2) by (simp only: m h length_replicate)
    then show ?thesis by simp
  qed
  have "parse_answers m (length (?h @ encoded ls @ [0, 1, 0, 1])) (length as) = Some (map (item_of ls) as)"
    by (rule parse_answers_reply [OF _ as name]) (use ls dotted_nonzero [OF lab] in \<open>simp_all add: m\<close>)
  then have "dns_parse_response True m = Some (int (length as), map (item_of ls) as)"
    by (simp only: dns_parse_response_def q a skip bind.bind_lunit if_True length_map)
  then show ?thesis by (simp only: m_def)
qed


text \<open>
  C12. The reply a server builds to such a request, with any number of addresses, is parsed to those
  addresses in dotted decimal, each with the name that was asked for.
\<close>

theorem dns_response_parsed:
  assumes "name_ok ls" "length (dotted ls) \<le> 127" "length tag = 8"
    "\<forall>a\<in>set as. answer_ok a" "length (reply tag ls as) \<le> 1024"
  shows "dns_parse_response True (recv_buffer (reply tag ls as)) = Some (int (length as), map (item_of ls) as)"
  by (rule dns_response_parsed_eq [OF assms])

theorem dns_response_parsed_witness:
  "dns_parse_response True (recv_buffer (reply (replicate 8 0) [[97], [98]] [([0, 0, 0, 60], [127, 0, 0, 101])])) =
     Some (1, [\<lparr>domain = [97, dot, 98], ip = inet_ntop [127, 0, 0, 101]\<rparr>])"
  using dns_response_parsed [of "[[97], [98]]" "replicate 8 0" "[([0, 0, 0, 60], [127, 0, 0, 101])]"]
  by (simp add: name_ok_def label_ok_def dot_def answer_ok_def reply_def answer_def item_of_def)

lemma self_pointer:
  assumes "dns_parse_name m p out k = Some r"
  shows "rd m p = Some b \<Longrightarrow> is_pointer b \<Longrightarrow> rd m (p + 1) = Some n \<Longrightarrow> p = unat n \<Longrightarrow> False"
proof (induction rule: dns_parse_name.raw_induct [OF _ assms])
  case (1 f m p out k r)
  have "b \<noteq> 0" using 1(4) by (auto simp: is_pointer_def)
  then have "f m p out k = Some r" using 1(2-6) by simp
  from 1(1) [OF this 1(3-6)] show False .
qed

text \<open>
  C13. A name that is a compression pointer to itself keeps the parser in its recursion for ever: no
  result is ever returned.
\<close>

theorem dns_self_pointer_diverges:
  assumes "rd m (unat n) = Some b" "is_pointer b" "rd m (unat n + 1) = Some n"
  shows "dns_parse_name m (unat n) out k = None"
  using self_pointer [OF _ assms(1,2,3) refl] by (cases "dns_parse_name m (unat n) out k") auto

theorem dns_self_pointer_diverges_witness: "dns_parse_name [0, 0, 0xC0, 2] 2 [0, 0, 0, 0] 0 = None"
  using dns_self_pointer_diverges [of "[0, 0, 0xC0, 2]" 2 "0xC0" "[0, 0, 0, 0]" 0]
  by (simp add: rd_def is_pointer_def)

text \<open>A pointer has 14 bits for the offset; the parser follows the lower 8.\<close>

theorem dns_pointer_high_bits_lost:
  assumes "off < 2 ^ 14" "rd m p = Some (0xC0 OR of_nat (off div 256))" "rd m (p + 1) = Some (of_nat (off mod 256))"
  shows "dns_parse_name m p out k = dns_parse_name m (off mod 256) out k"
proof -
  have "is_pointer (0xC0 OR w)" for w by (simp add: is_pointer_def)
  then have "dns_parse_name m p out k = dns_parse_name m (unat (of_nat (off mod 256) :: u8)) out k"
    using assms(2,3) by (intro parse_pointer)
  then show ?thesis by (simp add: unsigned_of_nat take_bit_eq_mod)
qed

section \<open>The client\<close>

text \<open>A lookup: its socket and callback, the name, and what the server answers.\<close>

record lookup =
  sock :: int
  cb :: nat
  labels :: "u8 list list"
  tag :: "u8 list"
  answers :: "(u8 list \<times> u8 list) list"

definition lookup_ok :: "lookup \<Rightarrow> bool" where
  "lookup_ok j \<longleftrightarrow> 0 \<le> sock j \<and> name_ok (labels j) \<and> length (dotted (labels j)) \<le> 127 \<and> length (tag j) = 8 \<and>
     (\<forall>a\<in>set (answers j). answer_ok a) \<and> length (reply (tag j) (labels j) (answers j)) \<le> 1024"

definition commit :: "lookup \<Rightarrow> async_client \<Rightarrow> async_client option" where
  "commit j c = do {
     (ret, c) \<leftarrow> dns_async_client_commit (sock j) True 0 0
       (replicate (length (dotted (labels j)) + 2) 0) (dotted (labels j)) (cb j) c;
     if ret = 0 then Some c else None
   }"

definition arrival :: "lookup \<Rightarrow> int \<times> u8 list" where
  "arrival j = (sock j, reply (tag j) (labels j) (answers j))"

definition call :: "lookup \<Rightarrow> nat \<times> dns_item list \<times> int" where
  "call j = (cb j, map (item_of (labels j)) (answers j), int (length (answers j)))"

lemma commit_ok:
  "lookup_ok j \<Longrightarrow> commit j c =
    Some (c\<lparr>sent := sent c @ [(sock j, query 0 (labels j))], watched := (watched c)(sock j \<mapsto> cb j)\<rparr>)"
  using dns_request_eq [of "labels j" "replicate (length (dotted (labels j)) + 2) 0" 0]
  by (simp add: lookup_ok_def commit_def dns_async_client_commit_def)

lemma commit_all:
  "\<forall>j\<in>set js. lookup_ok j \<Longrightarrow> add_all commit js c =
    Some (c\<lparr>sent := sent c @ map (\<lambda>j. (sock j, query 0 (labels j))) js,
            watched := watched c ++ map_of (rev (map (\<lambda>j. (sock j, cb j)) js))\<rparr>)"
  by (induction js arbitrary: c) (simp_all add: commit_ok)

lemma handle_ok:
  "lookup_ok j \<Longrightarrow> watched c (sock j) = Some (cb j) \<Longrightarrow> handle_ready (arrival j) c =
    Some (c\<lparr>called := called c @ [call j], watched := (watched c)(sock j := None), closed := closed c @ [sock j]\<rparr>)"
  using dns_response_parsed_eq [of "labels j" "tag j" "answers j"]
  by (simp add: handle_ready_def arrival_def call_def lookup_ok_def)

lemma handle_all_ok:
  assumes "\<forall>j\<in>set js. lookup_ok j \<and> watched c (sock j) = Some (cb j)" "distinct (map sock js)"
  shows "handle_all (map arrival js) c = Some (c\<lparr>called := called c @ map call js,
    watched := watched c |` (- sock ` set js), closed := closed c @ map sock js\<rparr>)"
  using assms
proof (induction js arbitrary: c)
  case (Cons j js)
  let ?c = "c\<lparr>called := called c @ [call j], watched := (watched c)(sock j := None), closed := closed c @ [sock j]\<rparr>"
  have "\<forall>i\<in>set js. lookup_ok i \<and> watched ?c (sock i) = Some (cb i)"
    using Cons.prems by (auto simp: rev_image_eqI)
  then have "handle_all (map arrival js) ?c = Some (?c\<lparr>called := called ?c @ map call js,
      watched := watched ?c |` (- sock ` set js), closed := closed ?c @ map sock js\<rparr>)"
    using Cons.prems(2) by (intro Cons.IH) simp_all
  moreover have "watched ?c |` (- sock ` set js) = watched c |` (- sock ` set (j # js))"
    by (auto simp: fun_eq_iff restrict_map_def)
  ultimately show ?case using handle_ok [of j c] Cons.prems(1) by simp
qed simp

definition new_client :: async_client where
  "new_client = \<lparr>watched = Map.empty, sent = [], called = [], closed = []\<rparr>"

text \<open>
  After any number of lookups is committed, each on a socket of its own, and the server's replies
  arrive in any order, the callback of each lookup has been called exactly once, with the addresses
  of its own name, its socket is closed, and nothing is left in the epoll instance.
\<close>

theorem dns_async_answers_all:
  assumes "\<forall>j\<in>set js. lookup_ok j" "distinct (map sock js)" "mset es = mset js"
  shows "\<exists>c. (add_all commit js new_client \<bind> dns_async_client_proc [Ready (map arrival es)]) = Some c \<and>
    sent c = map (\<lambda>j. (sock j, query 0 (labels j))) js \<and> called c = map call es \<and>
    closed c = map sock es \<and> watched c = Map.empty"
proof -
  let ?w = "map_of (rev (map (\<lambda>j. (sock j, cb j)) js))"
  define c where "c = new_client\<lparr>sent := map (\<lambda>j. (sock j, query 0 (labels j))) js, watched := ?w\<rparr>"
  have commit: "add_all commit js new_client = Some c"
    using commit_all [OF assms(1), of new_client] by (simp add: new_client_def c_def)
  have es: "set es = set js" using assms(3) by (metis mset_eq_setD)
  have dis: "distinct (map sock es)"
    using assms(2,3) by (metis mset_eq_imp_distinct_iff mset_map)
  have w: "?w (sock j) = Some (cb j)" if "j \<in> set js" for j
    using that assms(2) by (intro map_of_is_SomeI) (auto simp: rev_map comp_def simp flip: rev_map)
  have "dom ?w = sock ` set js" by (auto simp: dom_map_of_conv_image_fst image_comp)
  then have "?w |` (- sock ` set es) = Map.empty" using es by (auto simp: fun_eq_iff restrict_map_def domIff)
  then have "handle_all (map arrival es) c = Some (c\<lparr>called := map call es, watched := Map.empty, closed := map sock es\<rparr>)"
    using handle_all_ok [of es c] assms(1) es w dis by (simp add: c_def new_client_def)
  then show ?thesis using commit by (simp add: c_def)
qed

theorem dns_async_answers_all_witness:
  "let j = \<lparr>sock = 5, cb = 1, labels = [[97]], tag = replicate 8 0, answers = [([0, 0, 0, 9], [10, 0, 0, 1])]\<rparr>;
       k = \<lparr>sock = 6, cb = 2, labels = [[98], [99]], tag = replicate 8 0, answers = []\<rparr>
   in \<exists>c. (add_all commit [j, k] new_client \<bind> dns_async_client_proc [Ready (map arrival [k, j])]) = Some c \<and>
     called c = [call k, call j]"
  using dns_async_answers_all [of "[\<lparr>sock = 5, cb = 1, labels = [[97]], tag = replicate 8 0, answers = [([0, 0, 0, 9], [10, 0, 0, 1])]\<rparr>,
     \<lparr>sock = 6, cb = 2, labels = [[98], [99]], tag = replicate 8 0, answers = []\<rparr>]"
     "[\<lparr>sock = 6, cb = 2, labels = [[98], [99]], tag = replicate 8 0, answers = []\<rparr>,
     \<lparr>sock = 5, cb = 1, labels = [[97]], tag = replicate 8 0, answers = [([0, 0, 0, 9], [10, 0, 0, 1])]\<rparr>]"]
  by (auto simp: lookup_ok_def name_ok_def label_ok_def dot_def answer_ok_def reply_def answer_def add_mset_commute)

end
