(* ===== verification/Trycatch.thy ===== *)
theory Trycatch
  imports Prelude
begin

text \<open>
  The exceptions of \<open>src/trycatch.c\<close>. A program is a statement of the language that the macros give;
  \<open>exec\<close> runs it as the macros expand, with the stack of frames that the thread's key points to, and
  with \<open>longjmp\<close> as an outcome that names the frame it returns to.
\<close>

section \<open>Frames and throwing\<close>

text \<open>An exception is known by the address of its \<open>ntyException\<close>.\<close>

type_synonym exc = ptr

record site =
  in_func :: string
  in_file :: string
  at_line :: int

record frame =
  env :: nat
  exception :: exc
  raised_at :: site
  message :: string

definition EXCEPTIN_MESSAGE_LENGTH :: nat where "EXCEPTIN_MESSAGE_LENGTH = 512"

text \<open>\<open>vsnprintf\<close> writes one character less than its limit; the format is already applied to its arguments.\<close>

definition vsnprintf :: "string \<Rightarrow> string" where
  "vsnprintf s = take (EXCEPTIN_MESSAGE_LENGTH - 1) s"

text \<open>What is printed: by the program, and for an exception that finds no frame.\<close>

datatype event = Printed string | Uncaught exc "string option" site

text \<open>Control goes on, or jumps to where the frame called \<open>setjmp\<close>.\<close>

datatype outcome = Fin | Longjmp frame

definition ntyExceptionThrow ::
  "exc \<Rightarrow> site \<Rightarrow> string option \<Rightarrow> frame list \<Rightarrow> outcome \<times> frame list \<times> event list" where
  "ntyExceptionThrow e s cause stack = (case stack of
       fr # rest \<Rightarrow>
         let fr = fr\<lparr>exception := e, raised_at := s\<rparr> in
         let fr = (case cause of None \<Rightarrow> fr | Some m \<Rightarrow> fr\<lparr>message := vsnprintf m\<rparr>) in
         (Longjmp fr, rest, [])
     | [] \<Rightarrow> (Fin, [], [Uncaught e (map_option vsnprintf cause) s]))"

section \<open>The macros\<close>

datatype stmt =
    Skip
  | Print string
  | Throw exc "string option" site
  | Seq stmt stmt
  | Try stmt "(exc \<times> stmt) list" "stmt option"

datatype flag = Entered | Thrown | Handled | Finalized

text \<open>The address of a frame is the depth at which its block stands.\<close>

definition new_frame :: "frame list \<Rightarrow> frame" where
  "new_frame stack = \<lparr>env = length stack, exception = NULL, raised_at = \<lparr>in_func = [], in_file = [], at_line = 0\<rparr>, message = []\<rparr>"

text \<open>
  \<open>exec_catch\<close> is the chain of \<open>else if\<close>s: the flag it leaves and what the handler did. \<open>exec_end\<close> is the
  part from \<open>Finally\<close> on.
\<close>

fun exec :: "stmt \<Rightarrow> frame list \<Rightarrow> outcome \<times> frame list \<times> event list"
  and exec_catch :: "(exc \<times> stmt) list \<Rightarrow> exc \<Rightarrow> frame list \<Rightarrow> flag \<times> outcome \<times> frame list \<times> event list"
  and exec_end :: "stmt option \<Rightarrow> frame \<Rightarrow> flag \<Rightarrow> frame list \<Rightarrow> outcome \<times> frame list \<times> event list"
where
  "exec Skip stack = (Fin, stack, [])"
| "exec (Print s) stack = (Fin, stack, [Printed s])"
| "exec (Throw e cause s) stack = ntyExceptionThrow e s cause stack"
| "exec (Seq a b) stack = (case exec a stack of
       (Fin, stack, out) \<Rightarrow> (case exec b stack of (r, stack, out') \<Rightarrow> (r, stack, out @ out'))
     | r \<Rightarrow> r)"
| "exec (Try body hs fin) stack = (
     let frame = new_frame stack in
     case exec body (frame # stack) of
       (Fin, stack, out) \<Rightarrow>
         (case exec_end fin frame Entered (tl stack) of (r, stack, out') \<Rightarrow> (r, stack, out @ out'))
     | (Longjmp fr, stack, out) \<Rightarrow>
         if env fr \<noteq> env frame then (Longjmp fr, stack, out)
         else (case exec_catch hs (exception fr) stack of
             (flag, Fin, stack, out') \<Rightarrow>
               (case exec_end fin fr flag stack of (r, stack, out'') \<Rightarrow> (r, stack, out @ out' @ out''))
           | (flag, r, stack, out') \<Rightarrow> (r, stack, out @ out')))"
| "exec_catch [] e stack = (Thrown, Fin, stack, [])"
| "exec_catch ((e', h) # hs) e stack =
     (if e = e' then (Handled, exec h stack) else exec_catch hs e stack)"
| "exec_end None frame flag stack =
     (if flag = Thrown then ntyExceptionThrow (exception frame) (raised_at frame) None stack else (Fin, stack, []))"
| "exec_end (Some f) frame flag stack = (
     let flag = (if flag = Entered then Finalized else flag) in
     case exec f stack of
       (Fin, stack, out) \<Rightarrow>
         if flag = Thrown then
           (case ntyExceptionThrow (exception frame) (raised_at frame) None stack of (r, stack, out') \<Rightarrow> (r, stack, out @ out'))
         else (Fin, stack, out)
     | (r, stack, out) \<Rightarrow> (r, stack, out))"

text \<open>A new thread, with no frame in its key.\<close>

definition run_thread :: "stmt \<Rightarrow> event list" where
  "run_thread p = (case exec p [] of (r, stack, out) \<Rightarrow> out)"

section \<open>The programs of the test\<close>

definition A :: exc where "A = 1"
definition B :: exc where "B = 2"
definition C :: exc where "C = 3"
definition D :: exc where "D = 4"

definition here :: "int \<Rightarrow> site" where
  "here n = \<lparr>in_func = ''thread'', in_file = ''trycatch.c'', at_line = n\<rparr>"

fun seq :: "stmt list \<Rightarrow> stmt" where
  "seq [] = Skip"
| "seq (s # ss) = Seq s (seq ss)"

definition thread :: stmt where
  "thread = seq [
     Try (Throw A (Some ''A'') (here 158)) [(A, Print ''catch A'')] None,
     Try (Throw B (Some ''B'') (here 168)) [(B, Print ''catch B'')] None,
     Try (Throw C (Some ''C'') (here 178)) [(C, Print ''catch C'')] None,
     Try (Throw D (Some ''D'') (here 188)) [(D, Print ''catch D'')] None,
     Try (seq [Throw A (Some ''A Again'') (here 198), Throw B (Some ''B Again'') (here 199),
               Throw C (Some ''C Again'') (here 200), Throw D (Some ''D Again'') (here 201)])
       [(A, Print ''catch A again''), (B, Print ''catch B again''),
        (C, Print ''catch C again''), (D, Print ''catch B again'')] None]"

definition in_main :: "int \<Rightarrow> site" where
  "in_main n = \<lparr>in_func = ''main'', in_file = ''trycatch.c'', at_line = n\<rparr>"

text \<open>\<open>main\<close> up to the creation of the threads.\<close>

definition main_body :: stmt where
  "main_body = seq [
     Throw D None (in_main 230),
     Throw C (Some ''null C'') (in_main 232),
     Print ''=> Test1: Try-Catch'',
     Try (seq [
         Try (Throw B (Some ''recall B'') (in_main 239)) [(B, Print ''recall B'')] None,
         Throw A None (in_main 244)])
       [(A, Print ''Result: Ok'')] None,
     Print ''=> Test1: Ok'']"

end
