(* ===== verification/Trycatch_Correct.thy ===== *)
theory Trycatch_Correct
  imports Trycatch
begin

text \<open>
  The macros against a structured meaning of exceptions without a stack or jumps, and what follows
  for whole threads and for \<open>Finally\<close>.
\<close>

section \<open>Exceptions without a stack\<close>

text \<open>
  The meaning of a statement as a structured language has it: the exception that leaves it, with its
  site and cause, if any, and what is printed. \<open>inside\<close> tells whether a block encloses it: an
  exception that no block encloses is reported and execution goes on behind it.
\<close>

type_synonym raised = "(exc \<times> site \<times> string option) option"

definition raise_exc :: "bool \<Rightarrow> exc \<Rightarrow> site \<Rightarrow> string option \<Rightarrow> raised \<times> event list" where
  "raise_exc inside e s cause =
     (if inside then (Some (e, s, map_option vsnprintf cause), [])
      else (None, [Uncaught e (map_option vsnprintf cause) s]))"

definition finish :: "(raised \<times> event list) option \<Rightarrow> bool \<Rightarrow> (exc \<times> site) option \<Rightarrow> raised \<times> event list" where
  "finish fin inside pending = (case fin of
       Some (Some x, out) \<Rightarrow> (Some x, out)
     | _ \<Rightarrow>
       let out = (case fin of None \<Rightarrow> [] | Some (x, out) \<Rightarrow> out) in
       case pending of None \<Rightarrow> (None, out)
       | Some (e, s) \<Rightarrow> (case raise_exc inside e s None of (x, out') \<Rightarrow> (x, out @ out')))"

fun meaning :: "bool \<Rightarrow> stmt \<Rightarrow> raised \<times> event list"
  and handler :: "bool \<Rightarrow> (exc \<times> stmt) list \<Rightarrow> exc \<Rightarrow> (raised \<times> event list) option"
  and final :: "bool \<Rightarrow> stmt option \<Rightarrow> (raised \<times> event list) option"
where
  "meaning inside Skip = (None, [])"
| "meaning inside (Print s) = (None, [Printed s])"
| "meaning inside (Throw e cause s) = raise_exc inside e s cause"
| "meaning inside (Seq a b) = (case meaning inside a of
       (None, out) \<Rightarrow> (case meaning inside b of (x, out') \<Rightarrow> (x, out @ out'))
     | r \<Rightarrow> r)"
| "meaning inside (Try body hs fin) = (case meaning True body of
       (None, out) \<Rightarrow> (case finish (final inside fin) inside None of (x, out') \<Rightarrow> (x, out @ out'))
     | (Some (e, s, m), out) \<Rightarrow> (case handler inside hs e of
           None \<Rightarrow> (case finish (final inside fin) inside (Some (e, s)) of (x, out') \<Rightarrow> (x, out @ out'))
         | Some (None, out') \<Rightarrow> (case finish (final inside fin) inside None of (x, out'') \<Rightarrow> (x, out @ out' @ out''))
         | Some (Some x, out') \<Rightarrow> (Some x, out @ out')))"
| "handler inside [] e = None"
| "handler inside ((e', h) # hs) e = (if e = e' then Some (meaning inside h) else handler inside hs e)"
| "final inside None = None"
| "final inside (Some f) = Some (meaning inside f)"

section \<open>The macros implement it\<close>

text \<open>How an outcome of the structured meaning appears in the stack of frames.\<close>

definition landing :: "frame \<Rightarrow> exc \<times> site \<times> string option \<Rightarrow> frame" where
  "landing fr = (\<lambda>(e, s, m).
     let fr = fr\<lparr>exception := e, raised_at := s\<rparr> in
     case m of None \<Rightarrow> fr | Some t \<Rightarrow> fr\<lparr>message := t\<rparr>)"

definition unwound :: "frame list \<Rightarrow> raised \<times> event list \<Rightarrow> outcome \<times> frame list \<times> event list" where
  "unwound stack = (\<lambda>(x, out). case x of None \<Rightarrow> (Fin, stack, out)
     | Some e \<Rightarrow> (Longjmp (landing (hd stack) e), tl stack, out))"

lemma throw_unwound:
  "ntyExceptionThrow e s cause stack = unwound stack (raise_exc (stack \<noteq> []) e s cause)"
  by (auto simp: ntyExceptionThrow_def unwound_def raise_exc_def landing_def Let_def split: list.split option.split)

lemma env_landing [simp]: "env (landing fr x) = env fr"
  and exception_landing [simp]: "exception (landing fr x) = fst x"
  and raised_at_landing [simp]: "raised_at (landing fr x) = fst (snd x)"
  by (auto simp: landing_def Let_def split: prod.splits option.split)

lemma raise_shape: "(stack = [] \<Longrightarrow> fst r = None) \<Longrightarrow> unwound stack r = (q, st, out) \<Longrightarrow>
  (fst r = None \<and> q = Fin \<and> st = stack \<and> out = snd r) \<or>
  (\<exists>x. fst r = Some x \<and> q = Longjmp (landing (hd stack) x) \<and> st = tl stack \<and> out = snd r)"
  by (auto simp: unwound_def split: prod.splits option.splits)

lemma exec_meaning:
  "exec p stack = unwound stack (meaning (stack \<noteq> []) p)"
  "exec_catch hs e stack = (case handler (stack \<noteq> []) hs e of
      None \<Rightarrow> (Thrown, unwound stack (None, [])) | Some r \<Rightarrow> (Handled, unwound stack r))"
  "exec_end fin fr flag stack = unwound stack (finish (final (stack \<noteq> []) fin) (stack \<noteq> [])
      (if flag = Thrown then Some (exception fr, raised_at fr) else None))"
proof (induction p stack and hs e stack and fin fr flag stack rule: exec_exec_catch_exec_end.induct)
  case (5 body hs fin stack)
  obtain x out where b: "meaning True body = (x, out)" by fastforce
  have body: "exec body (new_frame stack # stack) = unwound (new_frame stack # stack) (x, out)"
    using 5(1) b by simp
  show ?case
  proof (cases x)
    case None
    with body have "exec body (new_frame stack # stack) = (Fin, new_frame stack # stack, out)" by (simp add: unwound_def)
    with 5(2) [OF refl this [symmetric] refl refl] b None show ?thesis
      by (auto simp: unwound_def split: prod.splits option.splits)
  next
    case (Some a)
    obtain e s m where a: "a = (e, s, m)" by (cases a)
    let ?fr = "landing (new_frame stack) a"
    have run: "exec body (new_frame stack # stack) = (Longjmp ?fr, stack, out)"
      using body Some by (simp add: unwound_def)
    note catch = 5(3) [OF refl run [symmetric] refl refl]
    note endtry = 5(4) [OF refl run [symmetric] refl refl]
    show ?thesis
      using catch endtry b Some a run
      by (auto simp: unwound_def Let_def split: prod.splits option.splits)
  qed
next
  case (8 fr flag stack)
  then show ?case by (auto simp: throw_unwound finish_def unwound_def split: prod.splits)
next
  case (9 f fr flag stack)
  obtain x out where f: "meaning (stack \<noteq> []) f = (x, out)" by fastforce
  have run: "exec f stack = unwound stack (x, out)" using 9 f by simp
  show ?case
  proof (cases x)
    case None
    then show ?thesis using run f
      by (auto simp: throw_unwound finish_def unwound_def split: prod.splits option.splits)
  next
    case (Some a)
    then show ?thesis using run f by (auto simp: finish_def unwound_def)
  qed
qed (auto simp: throw_unwound unwound_def split: prod.splits option.splits)


lemma top_raises_nothing:
  "\<not> inside \<Longrightarrow> fst (meaning inside p) = None"
  "\<not> inside \<Longrightarrow> pred_option (\<lambda>r. fst r = None) (handler inside hs e)"
  "\<not> inside \<Longrightarrow> pred_option (\<lambda>r. fst r = None) (final inside fin)"
proof (induction inside p and inside hs e and inside fin rule: meaning_handler_final.induct)
  case (5 inside body hs fin)
  obtain x out where b: "meaning True body = (x, out)" by fastforce
  have fin: "fst (finish (final inside fin) inside q) = None" if "pred_option (\<lambda>r. fst r = None) (final inside fin)" for q
    using that 5(6) by (cases "final inside fin") (auto simp: finish_def raise_exc_def split: option.splits)
  show ?case
  proof (cases x)
    case None
    then show ?thesis using b 5(2) [OF b [symmetric]] 5(6) fin by (auto simp: case_prod_beta)
  next
    case (Some a)
    obtain e s m where a: "a = (e, s, m)" by (cases a)
    show ?thesis
    proof (cases "handler inside hs e")
      case None
      then show ?thesis using b Some a 5 fin by (auto simp: case_prod_beta)
    next
      case (Some r)
      then have "fst r = None" using 5(3) b \<open>x = Some a\<close> a 5(6) by auto
      then show ?thesis using b Some \<open>x = Some a\<close> a 5 fin by (cases r) (auto simp: case_prod_beta)
    qed
  qed
qed (auto simp: raise_exc_def split: prod.splits option.splits)

section \<open>Properties\<close>

text \<open>
  C14. The macros implement structured exceptions: a run with any stack of frames prints what the
  structured meaning prints, and an exception that leaves the program jumps to the innermost
  enclosing block, with that block's frame removed and the exception, its site and its message in it.
\<close>

theorem try_structured: "exec p stack = unwound stack (meaning (stack \<noteq> []) p)"
  by (rule exec_meaning)

text \<open>
  A program run in a thread without a frame comes to its end, never jumps, and leaves no frame
  behind in the thread's key.
\<close>

theorem try_balanced: "\<exists>out. exec p [] = (Fin, [], out)"
  using exec_meaning(1) [of p "[]"] top_raises_nothing(1) [of False p]
  by (cases "meaning False p") (simp add: unwound_def)

text \<open>
  A handler that throws leaves its block without the \<open>Finally\<close> part: the run is the same as
  without that part.
\<close>

theorem finally_skipped:
  assumes "meaning True body = (Some (e, s, m), out)" "handler (stack \<noteq> []) hs e = Some (Some x, out')"
  shows "exec (Try body hs (Some f)) stack = exec (Try body hs None) stack"
  by (simp add: exec_meaning assms)

theorem finally_skipped_witness:
  "snd (snd (exec (Try (Try (Throw A None (here 1)) [(A, Throw B None (here 2))] (Some (Print ''closed'')))
     [(B, Print ''caught'')] None) [])) = [Printed ''caught'']"
proof -
  have "exec (Try (Throw A None (here 1)) [(A, Throw B None (here 2))] (Some (Print ''closed''))) [new_frame []] =
      exec (Try (Throw A None (here 1)) [(A, Throw B None (here 2))] None) [new_frame []]"
    by (rule finally_skipped [where e = A and s = "here 1" and m = None and out = "[]" and out' = "[]" and x = "(B, here 2, None)"])
      (simp_all add: raise_exc_def)
  then show ?thesis by (simp add: ntyExceptionThrow_def new_frame_def A_def B_def Let_def)
qed

text \<open>The test program: what a thread and \<open>main\<close> print. An exception that nothing catches is only reported.\<close>

lemma thread_output:
  "run_thread thread = map Printed [''catch A'', ''catch B'', ''catch C'', ''catch D'', ''catch A again'']"
  by code_simp

lemma main_output:
  "run_thread main_body = [Uncaught D None (in_main 230), Uncaught C (Some ''null C'') (in_main 232),
     Printed ''=> Test1: Try-Catch'', Printed ''recall B'', Printed ''Result: Ok'', Printed ''=> Test1: Ok'']"
  by code_simp

end
