(* ===== verification/Deadlock.thy ===== *)
theory Deadlock
  imports Prelude
begin

text \<open>
  The program of \<open>src/deadlock.c\<close>: three threads take three mutexes in different orders, through hooks
  that print and call the functions of the library. Each thread is a list of operations and a
  position in it; the steps of different threads interleave. A mutex is taken by one thread at a
  time, as documented for \<open>pthread_mutex_lock\<close>, and a thread waits while it is taken.
\<close>

section \<open>The threads\<close>

datatype op = Print string | Acquire nat | Release nat | Sleep | Create nat | Join nat

text \<open>The hooks: what the program's own \<open>pthread_mutex_lock\<close> and \<open>pthread_mutex_unlock\<close> do.\<close>

definition pthread_mutex_lock :: "nat \<Rightarrow> op list" where
  "pthread_mutex_lock m = [Print ''phtread_mutex_lock'', Acquire m]"

definition pthread_mutex_unlock :: "nat \<Rightarrow> op list" where
  "pthread_mutex_unlock m = [Print ''phtread_mutex_unlock'', Release m]"

definition mutex_1 :: nat where "mutex_1 = 1"
definition mutex_2 :: nat where "mutex_2 = 2"
definition mutex_3 :: nat where "mutex_3 = 3"

definition thread_routine_a :: "op list" where
  "thread_routine_a = [Print ''thread_routin_a enter''] @
     pthread_mutex_lock mutex_1 @
     [Sleep] @
     pthread_mutex_lock mutex_2 @
     pthread_mutex_lock mutex_3 @
     pthread_mutex_unlock mutex_3 @
     pthread_mutex_unlock mutex_2 @
     pthread_mutex_unlock mutex_1"

definition thread_routine_b :: "op list" where
  "thread_routine_b = [Print ''thread_routin_b enter''] @
     pthread_mutex_lock mutex_2 @
     [Sleep] @
     pthread_mutex_lock mutex_1 @
     pthread_mutex_lock mutex_3 @
     pthread_mutex_unlock mutex_3 @
     pthread_mutex_unlock mutex_1 @
     pthread_mutex_unlock mutex_2"

definition thread_routine_c :: "op list" where
  "thread_routine_c = [Print ''thread_routin_c enter''] @
     pthread_mutex_lock mutex_3 @
     [Sleep] @
     pthread_mutex_lock mutex_2 @
     pthread_mutex_lock mutex_1 @
     pthread_mutex_unlock mutex_1 @
     pthread_mutex_unlock mutex_2 @
     pthread_mutex_unlock mutex_3"

text \<open>Thread 0 is \<open>main\<close>; \<open>init_hook\<close> has run before its first operation.\<close>

definition main :: "op list" where
  "main = [Create 1, Create 2, Create 3, Sleep, Join 1, Join 2, Join 3]"

definition prog :: "nat \<Rightarrow> op list" where
  "prog t = (if t = 0 then main else if t = 1 then thread_routine_a else if t = 2 then thread_routine_b
     else if t = 3 then thread_routine_c else [])"

section \<open>The steps\<close>

record sys =
  pc :: "nat \<Rightarrow> nat"
  owner :: "nat \<rightharpoonup> nat"
  started :: "nat set"
  out :: "(nat \<times> string) list"

definition init :: sys where
  "init = \<lparr>pc = (\<lambda>t. 0), owner = Map.empty, started = {0}, out = []\<rparr>"

text \<open>One operation of thread \<open>t\<close>; it is \<open>None\<close> while the thread has to wait.\<close>

fun perform :: "nat \<Rightarrow> op \<Rightarrow> sys \<Rightarrow> sys option" where
  "perform t (Print msg) s = Some (s\<lparr>out := out s @ [(t, msg)]\<rparr>)"
| "perform t Sleep s = Some s"
| "perform t (Acquire m) s =
     (if owner s m = None then Some (s\<lparr>owner := (owner s)(m \<mapsto> t)\<rparr>) else None)"
| "perform t (Release m) s = Some (s\<lparr>owner := (owner s)(m := None)\<rparr>)"
| "perform t (Create u) s = Some (s\<lparr>started := insert u (started s)\<rparr>)"
| "perform t (Join u) s = (if pc s u = length (prog u) then Some s else None)"

definition turn :: "nat \<Rightarrow> sys \<Rightarrow> sys option" where
  "turn t s =
     (if t \<in> started s \<and> pc s t < length (prog t)
      then map_option (\<lambda>s. s\<lparr>pc := (pc s)(t := pc s t + 1)\<rparr>) (perform t (prog t ! pc s t) s)
      else None)"

inductive step :: "sys \<Rightarrow> sys \<Rightarrow> bool" where
  turn: "turn t s = Some s' \<Longrightarrow> step s s'"

inductive reachable :: "sys \<Rightarrow> bool" where
  init: "reachable init"
| step: "reachable s \<Longrightarrow> step s s' \<Longrightarrow> reachable s'"

text \<open>A schedule: which thread takes the next turn.\<close>

fun run :: "nat list \<Rightarrow> sys \<Rightarrow> sys option" where
  "run [] s = Some s"
| "run (t # ts) s = turn t s \<bind> run ts"

end
