(* ===== verification/Deadlock_Correct.thy ===== *)
theory Deadlock_Correct
  imports Deadlock
begin

text \<open>
  Who holds which mutex in the reachable states, that the program can deadlock, and how its runs end.
\<close>

declare step.intros [intro]
inductive_cases stepE [elim!]: "step s s'"
inductive_simps no_step: "step s s'"

section \<open>Who holds which mutex\<close>

fun after_op :: "nat set \<Rightarrow> op \<Rightarrow> nat set" where
  "after_op H (Acquire m) = insert m H"
| "after_op H (Release m) = H - {m}"
| "after_op H _ = H"

definition held :: "nat \<Rightarrow> nat \<Rightarrow> nat set" where
  "held t i = foldl after_op {} (take i (prog t))"

lemmas prog_defs = prog_def main_def thread_routine_a_def thread_routine_b_def thread_routine_c_def
  pthread_mutex_lock_def pthread_mutex_unlock_def mutex_1_def mutex_2_def mutex_3_def

lemma held_0 [simp]: "held t 0 = {}"
  by (simp add: held_def)

lemma held_Suc: "i < length (prog t) \<Longrightarrow> held t (Suc i) = after_op (held t i) (prog t ! i)"
  by (simp add: held_def take_Suc_conv_app_nth)

text \<open>A thread takes no mutex it holds, releases only what it holds, and holds nothing at its end;
  only \<open>main\<close> creates and joins threads, and none of them is itself.\<close>

fun disciplined :: "nat \<Rightarrow> nat set \<Rightarrow> op \<Rightarrow> bool" where
  "disciplined t H (Acquire m) \<longleftrightarrow> m \<notin> H"
| "disciplined t H (Release m) \<longleftrightarrow> m \<in> H"
| "disciplined t H (Create u) \<longleftrightarrow> 0 < u \<and> u \<le> 3 \<and> t = 0"
| "disciplined t H (Join u) \<longleftrightarrow> 0 < u \<and> u \<le> 3 \<and> t = 0"
| "disciplined t H _ \<longleftrightarrow> True"

lemma small: "t \<le> 3 \<Longrightarrow> t = 0 \<or> t = 1 \<or> t = 2 \<or> t = (3 :: nat)"
  by auto

lemma prog_none: "3 < t \<Longrightarrow> prog t = []"
  by (simp add: prog_def)

lemma prog_disciplined_all:
  "\<forall>t\<in>set [0..<4]. (\<forall>i\<in>set [0..<length (prog t)]. disciplined t (held t i) (prog t ! i)) \<and> held t (length (prog t)) = {}"
  by code_simp

lemma prog_disciplined: "i < length (prog t) \<Longrightarrow> disciplined t (held t i) (prog t ! i)"
  using prog_disciplined_all prog_none [of t] by (cases "3 < t") auto

lemma held_end: "held t (length (prog t)) = {}"
  using prog_disciplined_all prog_none [of t] by (cases "3 < t") auto

definition locks_ok :: "sys \<Rightarrow> bool" where
  "locks_ok s \<longleftrightarrow> (\<forall>t. pc s t \<le> length (prog t)) \<and> (\<forall>m t. owner s m = Some t \<longleftrightarrow> m \<in> held t (pc s t)) \<and>
     (\<forall>t. t \<notin> started s \<longrightarrow> pc s t = 0) \<and> 0 \<in> started s \<and>
     (\<forall>u. 0 < u \<longrightarrow> u \<le> 3 \<longrightarrow> u \<le> pc s 0 \<longrightarrow> u \<in> started s)"

lemma locks_ok_init: "locks_ok init"
  by (simp add: locks_ok_def init_def)

lemma locks_ok_step:
  assumes "step s s'" "locks_ok s"
  shows "locks_ok s'"
proof -
  obtain t where "turn t s = Some s'" using assms(1) by (auto elim: step.cases)
  then obtain r where t: "t \<in> started s" "pc s t < length (prog t)" and
    r: "perform t (prog t ! pc s t) s = Some r" "s' = r\<lparr>pc := (pc r)(t := pc r t + 1)\<rparr>"
    by (auto simp: turn_def split: if_splits)
  define a where "a = prog t ! pc s t"
  have own: "m \<in> held u (pc s u) \<longleftrightarrow> owner s m = Some u" for m u using assms(2) by (simp add: locks_ok_def)
  then have H: "held t (pc s t) = {m. owner s m = Some t}" by auto
  have disc: "disciplined t {m. owner s m = Some t} a"
    using prog_disciplined [OF t(2)] by (simp add: H a_def)
  have next_held: "held t (Suc (pc s t)) = after_op {m. owner s m = Some t} a"
    using held_Suc [OF t(2)] by (simp add: H a_def)
  have run: "perform t a s = Some r" using r(1) by (simp add: a_def)
  then have same: "pc r = pc s" "started s \<subseteq> started r" by (cases a, auto split: if_splits)+
  have "owner r m = Some u \<longleftrightarrow> m \<in> held u (if u = t then Suc (pc s t) else pc s u)" for m u
    using run disc own next_held by (cases a) (auto split: if_splits)
  moreover have "u \<in> started r" if "0 < u" "u \<le> 3" "u \<le> (if t = 0 then Suc (pc s 0) else pc s 0)" for u
  proof (cases "u \<le> pc s 0")
    case True
    then show ?thesis using assms(2) that same(2) by (auto simp: locks_ok_def)
  next
    case False
    then have u: "t = 0" "pc s 0 = u - 1" using that by (auto split: if_splits)
    then have "a = Create u" using that small [of u] by (auto simp: a_def prog_def main_def)
    then show ?thesis using run by auto
  qed
  ultimately show ?thesis using assms(2) t same r(2)
    by (auto simp: locks_ok_def)
qed

lemma reachable_locks: "reachable s \<Longrightarrow> locks_ok s"
  by (induction rule: reachable.induct) (auto intro: locks_ok_init locks_ok_step)


section \<open>Progress\<close>

text \<open>A thread that is not at its end waits for a mutex of another, or is \<open>main\<close> and joins one.\<close>

definition waits_for :: "sys \<Rightarrow> nat \<Rightarrow> nat \<Rightarrow> bool" where
  "waits_for s t u \<longleftrightarrow> pc s t < length (prog t) \<and> pc s u < length (prog u) \<and> t \<noteq> u \<and>
     ((\<exists>m. prog t ! pc s t = Acquire m \<and> owner s m = Some u) \<or> t = 0 \<and> prog t ! pc s t = Join u)"

lemma blocked:
  assumes "locks_ok s" "\<nexists>s'. step s s'" "t \<in> started s" "pc s t < length (prog t)"
  shows "\<exists>u. waits_for s t u"
proof -
  have n: "perform t (prog t ! pc s t) s = None"
  proof (rule ccontr)
    assume "perform t (prog t ! pc s t) s \<noteq> None"
    then obtain r where "turn t s = Some r" using assms(3,4) by (auto simp: turn_def)
    then show False using assms(2) by blast
  qed
  have disc: "disciplined t (held t (pc s t)) (prog t ! pc s t)" by (rule prog_disciplined [OF assms(4)])
  show ?thesis
  proof (cases "prog t ! pc s t")
    case (Acquire m)
    with n obtain u where u: "owner s m = Some u" by (auto split: if_splits)
    then have "m \<in> held u (pc s u)" using assms(1) by (simp add: locks_ok_def)
    then have "u \<noteq> t" "pc s u \<noteq> length (prog u)" using disc Acquire held_end [of u] by auto
    moreover have "pc s u \<le> length (prog u)" using assms(1) by (simp add: locks_ok_def)
    ultimately show ?thesis using Acquire u assms(4) by (auto simp: waits_for_def)
  next
    case (Join u)
    then have "pc s u \<noteq> length (prog u)" "t = 0" "u \<noteq> 0" using n disc by (auto split: if_splits)
    moreover have "pc s u \<le> length (prog u)" using assms(1) by (simp add: locks_ok_def)
    ultimately show ?thesis using Join assms(4) by (auto simp: waits_for_def)
  qed (use n in auto)
qed

text \<open>The number of operations done; each step does one.\<close>

definition work :: "sys \<Rightarrow> nat" where
  "work s = pc s 0 + pc s 1 + pc s 2 + pc s 3"

lemma prog_lengths: "length (prog 0) = 7" "length (prog 1) = 14" "length (prog 2) = 14" "length (prog 3) = 14"
  by code_simp+

lemma step_work: "step s s' \<Longrightarrow> work s' = Suc (work s)"
proof -
  assume "step s s'"
  then obtain t r where t: "pc s t < length (prog t)" "perform t (prog t ! pc s t) s = Some r"
    "s' = r\<lparr>pc := (pc r)(t := pc r t + 1)\<rparr>"
    by (auto elim!: step.cases simp: turn_def split: if_splits)
  then have "pc r = pc s" by (cases "prog t ! pc s t") (auto split: if_splits)
  moreover have "t \<le> 3" using t(1) prog_none [of t] by (cases "3 < t") auto
  ultimately show ?thesis using t(3) small [of t] by (auto simp: work_def)
qed

lemma work_bound: "locks_ok s \<Longrightarrow> work s \<le> 49"
proof -
  assume "locks_ok s"
  then have "pc s t \<le> length (prog t)" for t by (simp add: locks_ok_def)
  from this [of 0] this [of 1] this [of 2] this [of 3] show ?thesis unfolding work_def prog_lengths by linarith
qed

lemma turn_reachable: "turn t s = Some s' \<Longrightarrow> reachable s \<Longrightarrow> reachable s'"
  by (rule reachable.step) (auto intro: step.turn)

lemma run_reachable: "reachable s \<Longrightarrow> run ts s = Some s' \<Longrightarrow> reachable s'"
  by (induction ts arbitrary: s) (auto simp: bind_simps dest: turn_reachable)

section \<open>Properties\<close>

text \<open>
  In every state the program can reach, a mutex is owned by exactly the thread that has taken it
  and not yet released it: no two threads hold the same mutex.
\<close>

theorem deadlock_mutual_exclusion:
  assumes "reachable s"
  shows "(owner s m = Some t \<longleftrightarrow> m \<in> held t (pc s t)) \<and> (\<forall>u. m \<in> held t (pc s t) \<and> m \<in> held u (pc s u) \<longrightarrow> t = u)"
proof -
  have "owner s m = Some u \<longleftrightarrow> m \<in> held u (pc s u)" for u
    using reachable_locks [OF assms] by (simp add: locks_ok_def)
  then show ?thesis by (metis option.inject)
qed

definition into_deadlock :: "nat list" where
  "into_deadlock = [0, 0, 0, 0, 1, 1, 1, 2, 2, 2, 3, 3, 3, 1, 2, 3, 1, 2, 3]"

lemma into_deadlock_run:
  "\<exists>s. run into_deadlock init = Some s \<and> pc s 0 = 4 \<and> pc s 1 = 5 \<and> pc s 2 = 5 \<and> pc s 3 = 5 \<and>
     owner s = [1 \<mapsto> 1, 2 \<mapsto> 2, 3 \<mapsto> 3]"
  by (simp add: into_deadlock_def init_def turn_def prog_defs)

theorem deadlock_mutual_exclusion_witness:
  "\<exists>s. run into_deadlock init = Some s \<and> owner s 2 = Some 2 \<and> 2 \<in> held 2 (pc s 2)"
proof -
  obtain s where s: "run into_deadlock init = Some s" "owner s 2 = Some 2" using into_deadlock_run by auto
  then show ?thesis using deadlock_mutual_exclusion [OF run_reachable [OF reachable.init s(1)], of 2 2] by simp
qed

text \<open>
  C15. The three lock orders deadlock: the program reaches a state in which the threads \<open>a\<close> and \<open>b\<close> hold
  a mutex each and wait for each other, \<open>c\<close> waits for \<open>b\<close>, \<open>main\<close> waits for \<open>a\<close>, and no step is possible.
\<close>

theorem deadlock_reachable:
  "\<exists>s. reachable s \<and> waits_for s 1 2 \<and> waits_for s 2 1 \<and> waits_for s 3 2 \<and> waits_for s 0 1 \<and> (\<nexists>s'. step s s')"
proof -
  obtain s where s: "run into_deadlock init = Some s" "pc s 0 = 4" "pc s 1 = 5" "pc s 2 = 5" "pc s 3 = 5"
    "owner s = [1 \<mapsto> 1, 2 \<mapsto> 2, 3 \<mapsto> 3]" using into_deadlock_run by blast
  have ops: "prog 0 ! 4 = Join 1" "prog 1 ! 5 = Acquire 2" "prog 2 ! 5 = Acquire 1" "prog 3 ! 5 = Acquire 2"
    by code_simp+
  have "turn t s = None" for t
  proof (cases "t \<le> 3")
    case True
    then show ?thesis using small [of t] s ops by (auto simp: turn_def prog_lengths prog_lengths [simplified])
  next
    case False
    then show ?thesis using prog_none [of t] by (simp add: turn_def)
  qed
  then have "\<nexists>s'. step s s'" by (auto simp: no_step)
  moreover have "waits_for s 1 2" "waits_for s 2 1" "waits_for s 3 2" "waits_for s 0 1"
    using s ops by (simp_all add: waits_for_def prog_lengths prog_lengths [simplified])
  ultimately show ?thesis using run_reachable [OF reachable.init s(1)] by blast
qed

definition finished :: "sys \<Rightarrow> bool" where
  "finished s \<longleftrightarrow> (\<forall>t. pc s t = length (prog t)) \<and> owner s = Map.empty"

definition deadlocked :: "sys \<Rightarrow> bool" where
  "deadlocked s \<longleftrightarrow> (\<exists>t. pc s t < length (prog t)) \<and>
     (\<forall>t. pc s t < length (prog t) \<longrightarrow> t \<in> started s \<longrightarrow> (\<exists>u. waits_for s t u))"

lemma final_state:
  assumes ok: "locks_ok s" and stuck: "\<nexists>s'. step s s'"
  shows "finished s \<or> deadlocked s"
proof (cases "\<exists>t. pc s t < length (prog t)")
  case True
  then show ?thesis using blocked [OF ok stuck] by (auto simp: deadlocked_def)
next
  case False
  then have eq: "pc s t = length (prog t)" for t using ok by (auto simp: locks_ok_def not_less intro: le_antisym)
  then have "owner s m \<noteq> Some t" for m t using ok held_end [of t] by (simp add: locks_ok_def)
  then show ?thesis using eq by (auto simp: finished_def fun_eq_iff) (metis not_None_eq)
qed

text \<open>
  C16. A run that goes on as long as a step is possible ends after at most 49 steps, and then either
  all threads are at their end and every mutex is free, or every started thread that is not at its
  end waits for another such thread.
\<close>

theorem deadlock_or_finished:
  assumes "f 0 = init" "\<forall>n. (\<exists>s'. step (f n) s') \<longrightarrow> step (f n) (f (Suc n))"
  shows "\<exists>n\<le>49. (\<forall>i<n. step (f i) (f (Suc i))) \<and> (\<nexists>s'. step (f n) s') \<and> (finished (f n) \<or> deadlocked (f n))"
proof -
  have go: "reachable (f n) \<and> work (f n) = n" if "\<forall>i<n. \<exists>s'. step (f i) s'" for n
    using that
  proof (induction n)
    case 0
    then show ?case using assms(1) by (simp add: reachable.init) (simp add: work_def init_def)
  next
    case (Suc n)
    then have "step (f n) (f (Suc n))" "reachable (f n) \<and> work (f n) = n" using assms(2) by auto
    then show ?case using step_work by (auto intro: reachable.step)
  qed
  have "\<exists>n. \<nexists>s'. step (f n) s'"
  proof (rule ccontr)
    assume "\<not> ?thesis"
    then show False using go [of 50] work_bound [of "f 50"] reachable_locks by force
  qed
  then obtain n where n: "\<nexists>s'. step (f n) s'" "\<forall>i<n. \<exists>s'. step (f i) s'"
    using exists_least_iff [of "\<lambda>n. \<nexists>s'. step (f n) s'"] by auto
  then have "reachable (f n)" "work (f n) = n" using go by auto
  then show ?thesis
    using n assms(2) final_state [OF reachable_locks n(1)] work_bound [OF reachable_locks, of "f n"]
    by (intro exI [of _ n]) auto
qed

text \<open>A run in which the first thread that can move does.\<close>

definition advance :: "sys \<Rightarrow> sys" where
  "advance s = (case turn 0 s of Some s' \<Rightarrow> s' | None \<Rightarrow> case turn 1 s of Some s' \<Rightarrow> s' | None \<Rightarrow>
     case turn 2 s of Some s' \<Rightarrow> s' | None \<Rightarrow> case turn 3 s of Some s' \<Rightarrow> s' | None \<Rightarrow> s)"

theorem deadlock_or_finished_witness:
  "\<exists>n\<le>49. (\<nexists>s'. step ((advance ^^ n) init) s') \<and>
     (finished ((advance ^^ n) init) \<or> deadlocked ((advance ^^ n) init))"
proof -
  have "step s (advance s)" if s: "step s s'" for s s'
  proof -
    obtain t where t: "turn t s = Some s'" using s by blast
    then have "t \<le> 3" using prog_none [of t] by (cases "3 < t") (auto simp: turn_def)
    then show ?thesis using t small [of t]
      by (auto simp: advance_def intro: step.turn split: option.splits)
  qed
  then have "\<forall>n. (\<exists>s'. step ((advance ^^ n) init) s') \<longrightarrow> step ((advance ^^ n) init) ((advance ^^ Suc n) init)"
    by auto
  from deadlock_or_finished [of "\<lambda>n. (advance ^^ n) init", OF _ this] show ?thesis by auto
qed

end
