(* ===== verification/Reactor.thy ===== *)
theory Reactor
  imports Prelude
begin

text \<open>
  The event loop of \<open>src/reactor_single.c\<close>: an echo server on epoll. The events of the reactor are a
  list indexed by descriptor; a use outside of it, or a write past a buffer, is \<open>None\<close>. The epoll
  instance keeps, as documented for \<open>epoll_ctl\<close> and \<open>close\<close>, a mask and the event for each descriptor.
  The results of the socket calls are parameters.
\<close>

section \<open>The data\<close>

definition BUFFER_LENGTH :: nat where "BUFFER_LENGTH = 4096"
definition MAX_EPOLL_EVENTS :: nat where "MAX_EPOLL_EVENTS = 1024"
definition EPOLLIN :: u32 where "EPOLLIN = 1"
definition EPOLLOUT :: u32 where "EPOLLOUT = 4"

datatype callback = No_cb | Recv_cb | Send_cb | Accept_cb

record ntyevent =
  ev_fd :: int
  events :: u32
  callback :: callback
  status :: int
  buffer :: "u8 list"
  len :: int
  last_active :: int

record ntyreactor =
  evs :: "ntyevent list"
  watch :: "int \<rightharpoonup> u32 \<times> nat"
  now :: int
  sent :: "(int \<times> u8 list) list"
  closed :: "int list"

definition get_ev :: "ntyreactor \<Rightarrow> nat \<Rightarrow> ntyevent option" where
  "get_ev r i = (if i < length (evs r) then Some (evs r ! i) else None)"

definition put_ev :: "nat \<Rightarrow> ntyevent \<Rightarrow> ntyreactor \<Rightarrow> ntyreactor" where
  "put_ev i ev r = r\<lparr>evs := (evs r)[i := ev]\<rparr>"

definition slot_of :: "int \<Rightarrow> nat option" where
  "slot_of fd = (if fd < 0 then None else Some (nat fd))"

section \<open>The system calls\<close>

datatype ctl = EPOLL_CTL_ADD | EPOLL_CTL_MOD | EPOLL_CTL_DEL

definition epoll_ctl :: "ctl \<Rightarrow> int \<Rightarrow> u32 \<times> nat \<Rightarrow> ntyreactor \<Rightarrow> int \<times> ntyreactor" where
  "epoll_ctl op fd e r = (case op of
       EPOLL_CTL_ADD \<Rightarrow> if watch r fd = None then (0, r\<lparr>watch := (watch r)(fd \<mapsto> e)\<rparr>) else (- 1, r)
     | EPOLL_CTL_MOD \<Rightarrow> if watch r fd = None then (- 1, r) else (0, r\<lparr>watch := (watch r)(fd \<mapsto> e)\<rparr>)
     | EPOLL_CTL_DEL \<Rightarrow> if watch r fd = None then (- 1, r) else (0, r\<lparr>watch := (watch r)(fd := None)\<rparr>))"

definition close :: "int \<Rightarrow> ntyreactor \<Rightarrow> ntyreactor" where
  "close fd r = r\<lparr>watch := (watch r)(fd := None), closed := closed r @ [fd]\<rparr>"

section \<open>Events\<close>

definition nty_event_set :: "nat \<Rightarrow> int \<Rightarrow> callback \<Rightarrow> ntyreactor \<Rightarrow> ntyreactor option" where
  "nty_event_set i fd cb r = do {
     ev \<leftarrow> get_ev r i;
     Some (put_ev i (ev\<lparr>ev_fd := fd, callback := cb, events := 0, last_active := now r\<rparr>) r)
   }"

definition nty_event_add :: "u32 \<Rightarrow> nat \<Rightarrow> ntyreactor \<Rightarrow> (int \<times> ntyreactor) option" where
  "nty_event_add ems i r = do {
     ev \<leftarrow> get_ev r i;
     let ev = ev\<lparr>events := ems\<rparr>;
     let (op, ev) = (if status ev = 1 then (EPOLL_CTL_MOD, ev) else (EPOLL_CTL_ADD, ev\<lparr>status := 1\<rparr>));
     let r = put_ev i ev r;
     let (ret, r) = epoll_ctl op (ev_fd ev) (ems, i) r;
     Some (if ret < 0 then (- 1, r) else (0, r))
   }"

definition nty_event_del :: "nat \<Rightarrow> ntyreactor \<Rightarrow> (int \<times> ntyreactor) option" where
  "nty_event_del i r = do {
     ev \<leftarrow> get_ev r i;
     if status ev \<noteq> 1 then Some (- 1, r)
     else do {
       let r = put_ev i (ev\<lparr>status := 0\<rparr>) r;
       let (ret, r) = epoll_ctl EPOLL_CTL_DEL (ev_fd ev) (0, i) r;
       Some (0, r)
     }
   }"

section \<open>The callbacks\<close>

text \<open>\<open>got\<close> is what \<open>recv\<close> gives: an error, or the bytes, none when the peer has closed.\<close>

definition recv_cb :: "u8 list option \<Rightarrow> int \<Rightarrow> ntyreactor \<Rightarrow> (int \<times> ntyreactor) option" where
  "recv_cb got fd r = do {
     i \<leftarrow> slot_of fd;
     ev \<leftarrow> get_ev r i;
     let n = (case got of None \<Rightarrow> - 1 | Some d \<Rightarrow> int (length d));
     let buf = (case got of None \<Rightarrow> buffer ev | Some d \<Rightarrow> d @ drop (length d) (buffer ev));
     let r = put_ev i (ev\<lparr>buffer := buf\<rparr>) r;
     (ret, r) \<leftarrow> nty_event_del i r;
     if n > 0 then do {
       ev \<leftarrow> get_ev r i;
       buf \<leftarrow> (if nat n < length (buffer ev) then Some ((buffer ev)[nat n := 0]) else None);
       let r = put_ev i (ev\<lparr>len := n, buffer := buf\<rparr>) r;
       r \<leftarrow> nty_event_set i fd Send_cb r;
       (ret, r) \<leftarrow> nty_event_add EPOLLOUT i r;
       Some (n, r)
     } else do {
       ev \<leftarrow> get_ev r i;
       Some (n, close (ev_fd ev) r)
     }
   }"

text \<open>\<open>n\<close> is the result of \<open>send\<close>, the number of bytes the system has taken.\<close>

definition send_cb :: "int \<Rightarrow> int \<Rightarrow> ntyreactor \<Rightarrow> (int \<times> ntyreactor) option" where
  "send_cb n fd r = do {
     i \<leftarrow> slot_of fd;
     ev \<leftarrow> get_ev r i;
     if n > 0 then do {
       let r = r\<lparr>sent := sent r @ [(fd, take (nat n) (buffer ev))]\<rparr>;
       (ret, r) \<leftarrow> nty_event_del i r;
       r \<leftarrow> nty_event_set i fd Recv_cb r;
       (ret, r) \<leftarrow> nty_event_add EPOLLIN i r;
       Some (n, r)
     } else do {
       let r = close (ev_fd ev) r;
       (ret, r) \<leftarrow> nty_event_del i r;
       Some (n, r)
     }
   }"

text \<open>The search for a free event, from 3 on; only the position is printed.\<close>

fun free_slot :: "ntyreactor \<Rightarrow> nat \<Rightarrow> nat \<Rightarrow> nat option" where
  "free_slot r i 0 = Some i"
| "free_slot r i (Suc k) = do {
     ev \<leftarrow> get_ev r i;
     if status ev = 0 then Some i else free_slot r (i + 1) k
   }"

text \<open>\<open>clientfd\<close> and \<open>flag\<close> are the results of \<open>accept\<close> and of \<open>fcntl\<close>. The last event read is the one
  at the position printed.\<close>

definition accept_cb :: "int \<Rightarrow> int \<Rightarrow> int \<Rightarrow> ntyreactor \<Rightarrow> (int \<times> ntyreactor) option" where
  "accept_cb clientfd flag fd r =
     (if clientfd = - 1 then Some (- 1, r)
      else do {
        i \<leftarrow> free_slot r 3 (MAX_EPOLL_EVENTS - 3);
        r \<leftarrow> (if i = MAX_EPOLL_EVENTS then Some r
              else if flag < 0 then Some r
              else do {
                j \<leftarrow> slot_of clientfd;
                r \<leftarrow> nty_event_set j clientfd Recv_cb r;
                (ret, r) \<leftarrow> nty_event_add EPOLLIN j r;
                Some r
              });
        ev \<leftarrow> get_ev r i;
        Some (0, r)
      })"

section \<open>The reactor\<close>

text \<open>\<open>epfd\<close> is what \<open>epoll_create\<close> returns, \<open>mem\<close> the uninitialised events, if there is memory.\<close>

definition ntyreactor_init :: "int \<Rightarrow> ntyevent list option \<Rightarrow> int \<Rightarrow> int \<times> ntyreactor option" where
  "ntyreactor_init epfd mem t =
     (if epfd \<le> 0 then (- 2, None)
      else case mem of None \<Rightarrow> (- 3, None)
      | Some es \<Rightarrow> (0, Some \<lparr>evs = es, watch = Map.empty, now = t, sent = [], closed = []\<rparr>))"

definition ntyreactor_addlistener :: "int \<Rightarrow> callback \<Rightarrow> ntyreactor \<Rightarrow> (int \<times> ntyreactor) option" where
  "ntyreactor_addlistener sockfd acceptor r = do {
     i \<leftarrow> slot_of sockfd;
     r \<leftarrow> nty_event_set i sockfd acceptor r;
     (ret, r) \<leftarrow> nty_event_add EPOLLIN i r;
     Some (0, r)
   }"

text \<open>One position of the check for idle descriptors, and \<open>k\<close> of them from \<open>checkpos\<close> on.\<close>

definition check_idle :: "nat \<Rightarrow> ntyreactor \<Rightarrow> ntyreactor option" where
  "check_idle i r = do {
     ev \<leftarrow> get_ev r i;
     if status ev \<noteq> 1 then Some r
     else if now r - last_active ev \<ge> 60 then do {
       (ret, r) \<leftarrow> nty_event_del i (close (ev_fd ev) r);
       Some r
     } else Some r
   }"

fun check_loop :: "nat \<Rightarrow> nat \<Rightarrow> ntyreactor \<Rightarrow> (nat \<times> ntyreactor) option" where
  "check_loop 0 checkpos r = Some (checkpos, r)"
| "check_loop (Suc k) checkpos r = do {
     let checkpos = (if checkpos = MAX_EPOLL_EVENTS then 0 else checkpos);
     r \<leftarrow> check_idle checkpos r;
     check_loop k (checkpos + 1) r
   }"

text \<open>What the system calls of one turn of the loop give.\<close>

record io =
  recv_got :: "int \<Rightarrow> u8 list option"
  send_ret :: "int \<Rightarrow> int"
  accept_fd :: "int \<Rightarrow> int"
  fcntl_flag :: int

definition call :: "io \<Rightarrow> callback \<Rightarrow> int \<Rightarrow> ntyreactor \<Rightarrow> ntyreactor option" where
  "call w cb fd r = (case cb of
       No_cb \<Rightarrow> None
     | Recv_cb \<Rightarrow> map_option snd (recv_cb (recv_got w fd) fd r)
     | Send_cb \<Rightarrow> map_option snd (send_cb (send_ret w fd) fd r)
     | Accept_cb \<Rightarrow> map_option snd (accept_cb (accept_fd w fd) (fcntl_flag w) fd r))"

definition dispatch :: "io \<Rightarrow> nat \<times> u32 \<Rightarrow> ntyreactor \<Rightarrow> ntyreactor option" where
  "dispatch w = (\<lambda>(i, got) r. do {
     ev \<leftarrow> get_ev r i;
     r \<leftarrow> (if got AND EPOLLIN \<noteq> 0 \<and> events ev AND EPOLLIN \<noteq> 0 then call w (callback ev) (ev_fd ev) r else Some r);
     ev \<leftarrow> get_ev r i;
     if got AND EPOLLOUT \<noteq> 0 \<and> events ev AND EPOLLOUT \<noteq> 0 then call w (callback ev) (ev_fd ev) r else Some r
   })"

fun dispatch_all :: "io \<Rightarrow> (nat \<times> u32) list \<Rightarrow> ntyreactor \<Rightarrow> ntyreactor option" where
  "dispatch_all w [] r = Some r"
| "dispatch_all w (e # es) r = dispatch w e r \<bind> dispatch_all w es"

text \<open>One turn: the time, the events that \<open>epoll_wait\<close> reports, or its failure, and the system calls.\<close>

definition turn ::
  "int \<times> (nat \<times> u32) list option \<times> io \<Rightarrow> nat \<times> ntyreactor \<Rightarrow> (nat \<times> ntyreactor) option" where
  "turn = (\<lambda>(t, ready, w) (checkpos, r). do {
     (checkpos, r) \<leftarrow> check_loop 100 checkpos (r\<lparr>now := t\<rparr>);
     case ready of None \<Rightarrow> Some (checkpos, r)
     | Some es \<Rightarrow> do { r \<leftarrow> dispatch_all w es r; Some (checkpos, r) }
   })"

fun ntyreactor_run ::
  "(int \<times> (nat \<times> u32) list option \<times> io) list \<Rightarrow> nat \<times> ntyreactor \<Rightarrow> (nat \<times> ntyreactor) option" where
  "ntyreactor_run [] s = Some s"
| "ntyreactor_run (x # xs) s = turn x s \<bind> ntyreactor_run xs"

end
