(* ===== verification/Reactor_Inv.thy ===== *)
theory Reactor_Inv
  imports Reactor
begin

text \<open>
  The invariant of the reactor: what the callbacks, the check for idle descriptors and the dispatch of a
  batch of events do to it.
\<close>

section \<open>The invariant\<close>

text \<open>
  A registered event belongs to its own descriptor and waits for input with a receiving or accepting
  callback, or for output with the sending one.
\<close>

definition ev_shape :: "nat \<Rightarrow> ntyevent \<Rightarrow> bool" where
  "ev_shape i ev \<longleftrightarrow> (status ev = 0 \<or> status ev = 1) \<and> length (buffer ev) = BUFFER_LENGTH \<and>
     (status ev = 1 \<longrightarrow> ev_fd ev = int i \<and>
       (events ev = EPOLLIN \<and> (callback ev = Recv_cb \<or> callback ev = Accept_cb) \<or>
        events ev = EPOLLOUT \<and> callback ev = Send_cb))"

definition watched_as :: "nat \<Rightarrow> ntyevent \<Rightarrow> (u32 \<times> nat) option" where
  "watched_as i ev = (if status ev = 1 then Some (events ev, i) else None)"

definition nty_ok :: "ntyreactor \<Rightarrow> bool" where
  "nty_ok r \<longleftrightarrow> length (evs r) = MAX_EPOLL_EVENTS \<and>
     (\<forall>i<MAX_EPOLL_EVENTS. ev_shape i (evs r ! i) \<and> watch r (int i) = watched_as i (evs r ! i)) \<and>
     (\<forall>fd. watch r fd \<noteq> None \<longrightarrow> 0 \<le> fd \<and> fd < int MAX_EPOLL_EVENTS)"

lemma nty_ok_ev:
  assumes "nty_ok r" "i < MAX_EPOLL_EVENTS"
  shows "get_ev r i = Some (evs r ! i)" "ev_shape i (evs r ! i)" "watch r (int i) = watched_as i (evs r ! i)"
    "i < length (evs r)"
  using assms by (simp_all add: nty_ok_def get_ev_def)

text \<open>A change of one event and of its registration keeps the invariant.\<close>

lemma nty_ok_upd:
  assumes "nty_ok r" "i < MAX_EPOLL_EVENTS" "evs r' = (evs r)[i := ev]"
    "watch r' = (watch r)(int i := watched_as i ev)" "ev_shape i ev"
  shows "nty_ok r'"
proof -
  have "length (evs r) = MAX_EPOLL_EVENTS" using assms(1) by (simp add: nty_ok_def)
  moreover have "ev_shape j (evs r' ! j) \<and> watch r' (int j) = watched_as j (evs r' ! j)"
    if "j < MAX_EPOLL_EVENTS" for j
    using nty_ok_ev [OF assms(1) that] assms(3-5) by (cases "j = i") simp_all
  moreover have "0 \<le> fd \<and> fd < int MAX_EPOLL_EVENTS" if "watch r' fd \<noteq> None" for fd
    using that assms(1,2,4) by (cases "fd = int i") (auto simp: nty_ok_def)
  ultimately show ?thesis using assms(3) by (simp add: nty_ok_def)
qed

lemma slot_of_int [simp]: "slot_of (int i) = Some i"
  by (simp add: slot_of_def)

lemmas nty_simps = nty_event_set_def nty_event_add_def nty_event_del_def get_ev_def put_ev_def epoll_ctl_def
  close_def Let_def

section \<open>What the callbacks do\<close>

text \<open>The event of a descriptor after it is set up again for \<open>cb\<close>.\<close>

definition armed :: "nat \<Rightarrow> callback \<Rightarrow> u32 \<Rightarrow> int \<Rightarrow> ntyevent \<Rightarrow> ntyevent" where
  "armed i cb m t ev = ev\<lparr>ev_fd := int i, callback := cb, last_active := t, events := m, status := 1\<rparr>"

lemma armed_shape:
  "length (buffer ev) = BUFFER_LENGTH \<Longrightarrow>
   m = EPOLLIN \<and> (cb = Recv_cb \<or> cb = Accept_cb) \<or> m = EPOLLOUT \<and> cb = Send_cb \<Longrightarrow>
   ev_shape i (armed i cb m t ev) \<and> watched_as i (armed i cb m t ev) = Some (m, i)"
  by (auto simp: ev_shape_def watched_as_def armed_def)

lemma recv_data:
  assumes ok: "nty_ok r" "i < MAX_EPOLL_EVENTS" and st: "status (evs r ! i) = 1"
    and d: "d \<noteq> []" "length d < BUFFER_LENGTH"
  shows "\<exists>r'. recv_cb (Some d) (int i) r = Some (int (length d), r') \<and>
    evs r' = (evs r)[i := armed i Send_cb EPOLLOUT (now r) ((evs r ! i)\<lparr>len := int (length d),
      buffer := (d @ drop (length d) (buffer (evs r ! i)))[length d := 0]\<rparr>)] \<and>
    watch r' = (watch r)(int i \<mapsto> (EPOLLOUT, i)) \<and> now r' = now r \<and> sent r' = sent r \<and> closed r' = closed r"
proof -
  have e: "watch r (int i) = Some (events (evs r ! i), i)" "ev_fd (evs r ! i) = int i" "i < length (evs r)"
    "length (buffer (evs r ! i)) = BUFFER_LENGTH"
    using nty_ok_ev [OF ok] st by (auto simp: ev_shape_def watched_as_def)
  then show ?thesis using st d
    by (simp add: recv_cb_def nty_simps armed_def)
qed

lemma recv_end:
  assumes ok: "nty_ok r" "i < MAX_EPOLL_EVENTS" and st: "status (evs r ! i) = 1"
    and d: "got = None \<or> got = Some []"
  shows "\<exists>r' n. recv_cb got (int i) r = Some (n, r') \<and> n \<le> 0 \<and>
    evs r' = (evs r)[i := (evs r ! i)\<lparr>status := 0\<rparr>] \<and>
    watch r' = (watch r)(int i := None) \<and> now r' = now r \<and> sent r' = sent r \<and> closed r' = closed r @ [int i]"
proof -
  have e: "watch r (int i) = Some (events (evs r ! i), i)" "ev_fd (evs r ! i) = int i" "i < length (evs r)"
    using nty_ok_ev [OF ok] st by (auto simp: ev_shape_def watched_as_def)
  then show ?thesis using st d
    by (auto simp: recv_cb_def nty_simps)
qed

lemma send_more:
  assumes ok: "nty_ok r" "i < MAX_EPOLL_EVENTS" and st: "status (evs r ! i) = 1" and n: "0 < n"
  shows "\<exists>r'. send_cb n (int i) r = Some (n, r') \<and>
    evs r' = (evs r)[i := armed i Recv_cb EPOLLIN (now r) (evs r ! i)] \<and>
    watch r' = (watch r)(int i \<mapsto> (EPOLLIN, i)) \<and> now r' = now r \<and>
    sent r' = sent r @ [(int i, take (nat n) (buffer (evs r ! i)))] \<and> closed r' = closed r"
proof -
  have e: "watch r (int i) = Some (events (evs r ! i), i)" "ev_fd (evs r ! i) = int i" "i < length (evs r)"
    using nty_ok_ev [OF ok] st by (auto simp: ev_shape_def watched_as_def)
  then show ?thesis using st n
    by (simp add: send_cb_def nty_simps armed_def)
qed

lemma send_end:
  assumes ok: "nty_ok r" "i < MAX_EPOLL_EVENTS" and st: "status (evs r ! i) = 1" and n: "n \<le> 0"
  shows "\<exists>r'. send_cb n (int i) r = Some (n, r') \<and>
    evs r' = (evs r)[i := (evs r ! i)\<lparr>status := 0\<rparr>] \<and>
    watch r' = (watch r)(int i := None) \<and> now r' = now r \<and> sent r' = sent r \<and> closed r' = closed r @ [int i]"
proof -
  have e: "ev_fd (evs r ! i) = int i" "i < length (evs r)"
    using nty_ok_ev [OF ok] st by (auto simp: ev_shape_def watched_as_def)
  then show ?thesis using st n
    by (simp add: send_cb_def nty_simps)
qed

lemma armed_new:
  assumes ok: "nty_ok r" "i < MAX_EPOLL_EVENTS" and st: "status (evs r ! i) = 0"
  shows "\<exists>r'. (nty_event_set i (int i) cb r \<bind> nty_event_add m i) = Some (0, r') \<and>
    evs r' = (evs r)[i := armed i cb m (now r) (evs r ! i)] \<and>
    watch r' = (watch r)(int i \<mapsto> (m, i)) \<and> now r' = now r \<and> sent r' = sent r \<and> closed r' = closed r"
proof -
  have e: "watch r (int i) = None" "i < length (evs r)"
    using nty_ok_ev [OF ok] st by (auto simp: watched_as_def)
  then show ?thesis using st by (simp add: nty_simps armed_def)
qed

lemma check_idle_effect:
  assumes ok: "nty_ok r" "i < MAX_EPOLL_EVENTS"
  shows "\<exists>r'. check_idle i r = Some r' \<and> now r' = now r \<and> sent r' = sent r \<and>
    (if status (evs r ! i) = 1 \<and> now r - last_active (evs r ! i) \<ge> 60
     then evs r' = (evs r)[i := (evs r ! i)\<lparr>status := 0\<rparr>] \<and> watch r' = (watch r)(int i := None) \<and>
       closed r' = closed r @ [int i]
     else r' = r)"
proof -
  have e: "i < length (evs r)" "status (evs r ! i) = 1 \<Longrightarrow> ev_fd (evs r ! i) = int i"
    using nty_ok_ev [OF ok] by (auto simp: ev_shape_def)
  then show ?thesis by (auto simp: check_idle_def nty_simps)
qed

section \<open>The check for idle descriptors\<close>

lemma check_idle_ok:
  assumes "nty_ok r" "i < MAX_EPOLL_EVENTS"
  shows "\<exists>r'. check_idle i r = Some r' \<and> nty_ok r' \<and> now r' = now r \<and> sent r' = sent r \<and>
    (\<forall>j. j \<noteq> i \<longrightarrow> evs r' ! j = evs r ! j) \<and> (\<forall>fd. watch r fd = None \<longrightarrow> watch r' fd = None) \<and>
    set (closed r) \<subseteq> set (closed r') \<and>
    (status (evs r ! i) = 1 \<longrightarrow> now r - last_active (evs r ! i) \<ge> 60 \<longrightarrow>
       watch r' (int i) = None \<and> int i \<in> set (closed r'))"
proof -
  from check_idle_effect [OF assms] obtain r' where r': "check_idle i r = Some r'" "now r' = now r" "sent r' = sent r"
    "if status (evs r ! i) = 1 \<and> now r - last_active (evs r ! i) \<ge> 60
     then evs r' = (evs r)[i := (evs r ! i)\<lparr>status := 0\<rparr>] \<and> watch r' = (watch r)(int i := None) \<and>
       closed r' = closed r @ [int i]
     else r' = r" by blast
  show ?thesis
  proof (cases "status (evs r ! i) = 1 \<and> now r - last_active (evs r ! i) \<ge> 60")
    case True
    have "ev_shape i ((evs r ! i)\<lparr>status := 0\<rparr>)" "watched_as i ((evs r ! i)\<lparr>status := 0\<rparr>) = None"
      using nty_ok_ev [OF assms] by (auto simp: ev_shape_def watched_as_def)
    then have "nty_ok r'" using r'(4) True by (intro nty_ok_upd [OF assms, of r']) auto
    then show ?thesis using r' True by auto
  next
    case False
    then show ?thesis using r' assms by auto
  qed
qed

text \<open>What a step of the check never does: lose an answer sent, watch a descriptor again, reopen one.\<close>

definition calm :: "ntyreactor \<Rightarrow> ntyreactor \<Rightarrow> bool" where
  "calm r r' \<longleftrightarrow> nty_ok r' \<and> sent r' = sent r \<and> (\<forall>fd. watch r fd = None \<longrightarrow> watch r' fd = None) \<and>
     set (closed r) \<subseteq> set (closed r')"

lemma calm_trans: "calm r r1 \<Longrightarrow> calm r1 r' \<Longrightarrow> calm r r'"
  by (auto simp: calm_def)

text \<open>The positions checked one after the other, with the time read for each.\<close>

fun sweep :: "int list \<Rightarrow> nat \<Rightarrow> ntyreactor \<Rightarrow> (nat \<times> ntyreactor) option" where
  "sweep [] cp r = Some (cp, r)"
| "sweep (t # ts) cp r = do {
     let cp = (if cp = MAX_EPOLL_EVENTS then 0 else cp);
     r \<leftarrow> check_idle cp (r\<lparr>now := t\<rparr>);
     sweep ts (cp + 1) r
   }"

lemma nty_ok_now [simp]: "nty_ok (r\<lparr>now := t\<rparr>) = nty_ok r"
  by (simp add: nty_ok_def)

lemma sweep_step:
  assumes "nty_ok r" "cp \<le> MAX_EPOLL_EVENTS" "p = (if cp = MAX_EPOLL_EVENTS then 0 else cp)"
  shows "\<exists>r1. sweep (t # ts) cp r = sweep ts (p + 1) r1 \<and> check_idle p (r\<lparr>now := t\<rparr>) = Some r1 \<and> calm r r1 \<and>
    p < MAX_EPOLL_EVENTS \<and> now r1 = t \<and> (\<forall>j. j \<noteq> p \<longrightarrow> evs r1 ! j = evs r ! j) \<and>
    (status (evs r ! p) = 1 \<longrightarrow> t - last_active (evs r ! p) \<ge> 60 \<longrightarrow>
       watch r1 (int p) = None \<and> int p \<in> set (closed r1))"
proof -
  have p: "p < MAX_EPOLL_EVENTS" using assms(2,3) by (auto simp: MAX_EPOLL_EVENTS_def)
  have "nty_ok (r\<lparr>now := t\<rparr>)" using assms(1) by simp
  from check_idle_ok [OF this p] show ?thesis using p assms(3) by (auto simp: calm_def)
qed

lemma sweep_calm:
  "nty_ok r \<Longrightarrow> cp \<le> MAX_EPOLL_EVENTS \<Longrightarrow>
   \<exists>cp' r'. sweep ts cp r = Some (cp', r') \<and> cp' \<le> MAX_EPOLL_EVENTS \<and> calm r r'"
proof (induction ts arbitrary: cp r)
  case Nil
  then show ?case by (simp add: calm_def)
next
  case (Cons t ts)
  define p where "p = (if cp = MAX_EPOLL_EVENTS then 0 else cp)"
  from sweep_step [OF Cons.prems p_def] obtain r1 where r1: "sweep (t # ts) cp r = sweep ts (p + 1) r1" "calm r r1"
    "p < MAX_EPOLL_EVENTS" by blast
  have "nty_ok r1" "p + 1 \<le> MAX_EPOLL_EVENTS" using r1 by (auto simp: calm_def)
  from Cons.IH [OF this] show ?case using calm_trans [OF r1(2)] r1(1) by metis
qed

text \<open>A descriptor that has been idle for long when its position comes is closed.\<close>

definition idle_closed :: "nat \<Rightarrow> ntyreactor \<Rightarrow> bool" where
  "idle_closed i r \<longleftrightarrow> watch r (int i) = None \<and> int i \<in> set (closed r)"

lemma idle_closed_calm: "idle_closed i r \<Longrightarrow> calm r r' \<Longrightarrow> idle_closed i r'"
  by (auto simp: idle_closed_def calm_def)

lemma sweep_visits:
  assumes "nty_ok r" "cp \<le> MAX_EPOLL_EVENTS" "i < MAX_EPOLL_EVENTS"
    "if cp \<le> i then i - cp < length ts else MAX_EPOLL_EVENTS - cp + i < length ts"
    "status (evs r ! i) = 1" "\<forall>t\<in>set ts. t - last_active (evs r ! i) \<ge> 60"
    "sweep ts cp r = Some (cp', r')"
  shows "idle_closed i r'"
  using assms
proof (induction ts arbitrary: cp r)
  case Nil
  then show ?case by (simp split: if_splits)
next
  case (Cons t ts)
  define p where "p = (if cp = MAX_EPOLL_EVENTS then 0 else cp)"
  from sweep_step [OF Cons.prems(1,2) p_def] obtain r1 where r1: "sweep (t # ts) cp r = sweep ts (p + 1) r1" "calm r r1"
    "p < MAX_EPOLL_EVENTS" "\<forall>j. j \<noteq> p \<longrightarrow> evs r1 ! j = evs r ! j"
    "status (evs r ! p) = 1 \<longrightarrow> t - last_active (evs r ! p) \<ge> 60 \<longrightarrow> watch r1 (int p) = None \<and> int p \<in> set (closed r1)"
    by blast
  have n1: "nty_ok r1" "p + 1 \<le> MAX_EPOLL_EVENTS" using r1 by (auto simp: calm_def)
  have run: "sweep ts (p + 1) r1 = Some (cp', r')" using Cons.prems(7) r1(1) by simp
  show ?case
  proof (cases "i = p")
    case True
    then have "idle_closed i r1" using r1(5) Cons.prems(5,6) by (simp add: idle_closed_def)
    moreover have "calm r1 r'" using sweep_calm [OF n1, of ts] run by auto
    ultimately show ?thesis by (rule idle_closed_calm)
  next
    case False
    then have "evs r1 ! i = evs r ! i" using r1(4) by simp
    moreover have "if p + 1 \<le> i then i - (p + 1) < length ts else MAX_EPOLL_EVENTS - (p + 1) + i < length ts"
      using Cons.prems(2-4) False r1(3) by (auto simp: p_def split: if_splits)
    ultimately show ?thesis using Cons.IH [OF n1 Cons.prems(3) _ _ _ run] Cons.prems(5,6) by simp
  qed
qed

lemma check_loop_sweep: "check_loop k cp r = sweep (replicate k (now r)) cp r" if "nty_ok r" "cp \<le> MAX_EPOLL_EVENTS"
  using that
proof (induction k arbitrary: cp r)
  case (Suc k)
  define p where "p = (if cp = MAX_EPOLL_EVENTS then 0 else cp)"
  from sweep_step [OF Suc.prems p_def, of "now r" "replicate k (now r)"] obtain r1 where r1:
    "sweep (now r # replicate k (now r)) cp r = sweep (replicate k (now r)) (p + 1) r1"
    "check_idle p (r\<lparr>now := now r\<rparr>) = Some r1" "calm r r1"
    "p < MAX_EPOLL_EVENTS" "now r1 = now r" by blast
  have "nty_ok r1" "p + 1 \<le> MAX_EPOLL_EVENTS" using r1 by (auto simp: calm_def)
  from Suc.IH [OF this] show ?case using r1 by (simp add: p_def Let_def)
qed simp

lemma sweep_append: "sweep (ts @ us) cp r = sweep ts cp r \<bind> (\<lambda>(cp, r). sweep us cp r)"
  by (induction ts arbitrary: cp r) (auto simp: Let_def split: Option.bind_split)

text \<open>Turns in which nothing is ready only check.\<close>

lemma quiet_run:
  assumes "nty_ok r" "cp \<le> MAX_EPOLL_EVENTS" "ts \<noteq> []"
  shows "ntyreactor_run (map (\<lambda>t. (t, Some [], w)) ts) (cp, r) =
    sweep (concat (map (replicate 100) ts)) cp r"
  using assms
proof (induction ts arbitrary: cp r)
  case (Cons t ts)
  have e: "sweep (replicate 100 t) cp (r\<lparr>now := t\<rparr>) = sweep (replicate 100 t) cp r"
    by (simp add: numeral_eq_Suc)
  have "nty_ok (r\<lparr>now := t\<rparr>)" using Cons.prems(1) by simp
  from check_loop_sweep [OF this Cons.prems(2), of 100] have c: "check_loop 100 cp (r\<lparr>now := t\<rparr>) = sweep (replicate 100 t) cp r"
    by (simp add: e)
  from sweep_calm [OF Cons.prems(1,2), of "replicate 100 t"] obtain cp' r' where s:
    "sweep (replicate 100 t) cp r = Some (cp', r')" "cp' \<le> MAX_EPOLL_EVENTS" "calm r r'" by blast
  then have "nty_ok r'" by (simp add: calm_def)
  then show ?case using Cons.IH [OF _ s(2)] s(1) c by (cases ts) (simp_all add: turn_def sweep_append)
qed simp

section \<open>Dispatching\<close>

text \<open>
  What the system calls may give for a descriptor \<open>i\<close>: fewer bytes than the buffer holds, and from
  \<open>accept\<close> an error or a new descriptor from 3 on that is not registered.
\<close>

definition io_ok :: "io \<Rightarrow> ntyreactor \<Rightarrow> nat \<Rightarrow> bool" where
  "io_ok w r i \<longleftrightarrow> (\<forall>d. recv_got w (int i) = Some d \<longrightarrow> length d < BUFFER_LENGTH) \<and>
     (accept_fd w (int i) = - 1 \<or>
      (\<exists>c. accept_fd w (int i) = int c \<and> 3 \<le> c \<and> c < MAX_EPOLL_EVENTS \<and> status (evs r ! c) = 0))"

definition rest_same :: "ntyreactor \<Rightarrow> ntyreactor \<Rightarrow> int set \<Rightarrow> bool" where
  "rest_same r r' X \<longleftrightarrow> (\<forall>j. int j \<notin> X \<longrightarrow> evs r' ! j = evs r ! j)"

lemma mask_consts [simp]: "EPOLLIN AND EPOLLOUT = 0" "EPOLLOUT AND EPOLLIN = 0" "EPOLLIN \<noteq> 0" "EPOLLOUT \<noteq> 0"
  "EPOLLIN \<noteq> EPOLLOUT" "EPOLLOUT \<noteq> EPOLLIN"
  by (simp_all add: EPOLLIN_def EPOLLOUT_def)

lemma free_slot_found:
  assumes "nty_ok r" "i + k \<le> MAX_EPOLL_EVENTS" "i \<le> c" "c < i + k" "status (evs r ! c) = 0"
  shows "\<exists>j. free_slot r i k = Some j \<and> j \<le> c"
  using assms(2-)
proof (induction k arbitrary: i)
  case (Suc k)
  have "get_ev r i = Some (evs r ! i)" using nty_ok_ev [OF assms(1), of i] Suc.prems by simp
  then show ?case using Suc.IH [of "i + 1"] Suc.prems by (cases "i = c") (auto simp: Suc_le_eq)
qed simp

lemma nty_ok_changed:
  assumes "nty_ok r" "i < MAX_EPOLL_EVENTS" "evs r' = (evs r)[i := ev]"
    "watch r' = (watch r)(int i := watched_as i ev)" "ev_shape i ev" "now r' = now r"
  shows "nty_ok r' \<and> rest_same r r' {int i} \<and> evs r' ! i = ev"
  using nty_ok_upd [OF assms(1-5)] assms(3) nty_ok_ev(4) [OF assms(1,2)] by (auto simp: rest_same_def)

lemma call_out:
  assumes ok: "nty_ok r" "i < MAX_EPOLL_EVENTS" and st: "status (evs r ! i) = 1" "events (evs r ! i) = EPOLLOUT"
  shows "\<exists>r'. call w (callback (evs r ! i)) (ev_fd (evs r ! i)) r = Some r' \<and> nty_ok r' \<and> rest_same r r' {int i}"
proof -
  let ?ev = "evs r ! i"
  have e: "ev_fd ?ev = int i" "callback ?ev = Send_cb" "length (buffer ?ev) = BUFFER_LENGTH"
    using nty_ok_ev(2) [OF ok] st by (auto simp: ev_shape_def)
  show ?thesis
  proof (cases "0 < send_ret w (int i)")
    case True
    from send_more [OF ok st(1) True] obtain r' where r': "send_cb (send_ret w (int i)) (int i) r = Some (send_ret w (int i), r')"
      "evs r' = (evs r)[i := armed i Recv_cb EPOLLIN (now r) ?ev]" "watch r' = (watch r)(int i \<mapsto> (EPOLLIN, i))" "now r' = now r"
      by blast
    have "ev_shape i (armed i Recv_cb EPOLLIN (now r) ?ev) \<and>
        watched_as i (armed i Recv_cb EPOLLIN (now r) ?ev) = Some (EPOLLIN, i)"
      using e(3) by (intro armed_shape) auto
    then show ?thesis using nty_ok_changed [OF ok r'(2) _ _ r'(4)] r'(1,3) e by (simp add: call_def)
  next
    case False
    then have "send_ret w (int i) \<le> 0" by simp
    from send_end [OF ok st(1) this] obtain r' where r': "send_cb (send_ret w (int i)) (int i) r = Some (send_ret w (int i), r')"
      "evs r' = (evs r)[i := ?ev\<lparr>status := 0\<rparr>]" "watch r' = (watch r)(int i := None)" "now r' = now r" by blast
    then show ?thesis using nty_ok_changed [OF ok r'(2) _ _ r'(4)] e
      by (simp add: call_def ev_shape_def watched_as_def)
  qed
qed

text \<open>The other registered events stay as they are.\<close>

definition kept :: "nat \<Rightarrow> ntyreactor \<Rightarrow> ntyreactor \<Rightarrow> bool" where
  "kept i r r' \<longleftrightarrow> (\<forall>j<MAX_EPOLL_EVENTS. j \<noteq> i \<longrightarrow> status (evs r ! j) = 1 \<longrightarrow> evs r' ! j = evs r ! j)"

lemma rest_same_kept: "rest_same r r' {int i} \<Longrightarrow> kept i r r'"
  by (auto simp: rest_same_def kept_def)

lemma kept_trans: "kept i r r1 \<Longrightarrow> kept i r1 r' \<Longrightarrow> kept i r r'"
  by (auto simp: kept_def)

lemma recv_cb_ok:
  assumes ok: "nty_ok r" "i < MAX_EPOLL_EVENTS" and st: "status (evs r ! i) = 1" "events (evs r ! i) = EPOLLIN"
    and d: "\<forall>d. got = Some d \<longrightarrow> length d < BUFFER_LENGTH"
  shows "\<exists>n r'. recv_cb got (int i) r = Some (n, r') \<and> nty_ok r' \<and> rest_same r r' {int i} \<and>
    (status (evs r' ! i) = 1 \<or> events (evs r' ! i) = EPOLLIN)"
proof -
  let ?ev = "evs r ! i"
  have b: "length (buffer ?ev) = BUFFER_LENGTH" using nty_ok_ev(2) [OF ok] by (simp add: ev_shape_def)
  show ?thesis
  proof (cases "got = None \<or> got = Some []")
    case True
    from recv_end [OF ok st(1) True] obtain r' n where r': "recv_cb got (int i) r = Some (n, r')"
      "evs r' = (evs r)[i := ?ev\<lparr>status := 0\<rparr>]" "watch r' = (watch r)(int i := None)" "now r' = now r" by blast
    have w: "watch r' = (watch r)(int i := watched_as i (?ev\<lparr>status := 0\<rparr>))" using r'(3) by (simp add: watched_as_def)
    have s: "ev_shape i (?ev\<lparr>status := 0\<rparr>)" using b by (simp add: ev_shape_def)
    show ?thesis using nty_ok_changed [OF ok r'(2) w s r'(4)] r'(1) st(2) by auto
  next
    case False
    then obtain dd where dd: "got = Some dd" "dd \<noteq> []" by auto
    then have l: "length dd < BUFFER_LENGTH" using d by simp
    define ev' where "ev' = armed i Send_cb EPOLLOUT (now r) (?ev\<lparr>len := int (length dd),
      buffer := (dd @ drop (length dd) (buffer ?ev))[length dd := 0]\<rparr>)"
    from recv_data [OF ok st(1) dd(2) l, folded ev'_def] obtain r' where
      r': "recv_cb (Some dd) (int i) r = Some (int (length dd), r')"
      "evs r' = (evs r)[i := ev']" "watch r' = (watch r)(int i \<mapsto> (EPOLLOUT, i))" "now r' = now r" by blast
    have s: "ev_shape i ev' \<and> watched_as i ev' = Some (EPOLLOUT, i)"
      unfolding ev'_def using b l by (intro armed_shape) auto
    then have "watch r' = (watch r)(int i := watched_as i ev')" using r'(3) by simp
    from nty_ok_changed [OF ok r'(2) this conjunct1 [OF s] r'(4)] show ?thesis
      using r'(1) dd(1) by (auto simp: ev'_def armed_def)
  qed
qed

lemma accept_cb_ok:
  assumes ok: "nty_ok r" "i < MAX_EPOLL_EVENTS" and st: "status (evs r ! i) = 1"
    and c: "c = - 1 \<or> (\<exists>k. c = int k \<and> 3 \<le> k \<and> k < MAX_EPOLL_EVENTS \<and> status (evs r ! k) = 0)"
  shows "\<exists>n r'. accept_cb c fl (int i) r = Some (n, r') \<and> nty_ok r' \<and> rest_same r r' {c} \<and> (n = 0 \<or> n = - 1 \<and> r' = r)"
proof (cases "c = - 1")
  case True
  then show ?thesis using ok by (auto simp: accept_cb_def rest_same_def)
next
  case False
  then obtain k where k: "c = int k" "3 \<le> k" "k < MAX_EPOLL_EVENTS" "status (evs r ! k) = 0" using c by blast
  have lim: "3 + (MAX_EPOLL_EVENTS - 3) = MAX_EPOLL_EVENTS" by (simp add: MAX_EPOLL_EVENTS_def)
  from free_slot_found [OF ok(1) _ k(2) _ k(4), of "MAX_EPOLL_EVENTS - 3"] lim k(3) obtain j where
    j: "free_slot r 3 (MAX_EPOLL_EVENTS - 3) = Some j" "j \<le> k" by auto
  then have jl: "j < MAX_EPOLL_EVENTS" using k(3) by simp
  show ?thesis
  proof (cases "fl < 0")
    case True
    then show ?thesis using False j jl ok nty_ok_ev(1) [OF ok(1) jl] by (auto simp: accept_cb_def rest_same_def)
  next
    case fl: False
    from armed_new [OF ok(1) k(3,4), of Recv_cb EPOLLIN] obtain r' where r':
      "(nty_event_set k (int k) Recv_cb r \<bind> nty_event_add EPOLLIN k) = Some (0, r')"
      "evs r' = (evs r)[k := armed k Recv_cb EPOLLIN (now r) (evs r ! k)]"
      "watch r' = (watch r)(int k \<mapsto> (EPOLLIN, k))" "now r' = now r" by blast
    have "length (buffer (evs r ! k)) = BUFFER_LENGTH" using nty_ok_ev(2) [OF ok(1) k(3)] by (simp add: ev_shape_def)
    then have s: "ev_shape k (armed k Recv_cb EPOLLIN (now r) (evs r ! k)) \<and>
        watched_as k (armed k Recv_cb EPOLLIN (now r) (evs r ! k)) = Some (EPOLLIN, k)" by (intro armed_shape) auto
    then have "watch r' = (watch r)(int k := watched_as k (armed k Recv_cb EPOLLIN (now r) (evs r ! k)))" using r'(3) by simp
    from nty_ok_changed [OF ok(1) k(3) r'(2) this conjunct1 [OF s] r'(4)] have n: "nty_ok r'" "rest_same r r' {c}"
      using k(1) by auto
    have "accept_cb c fl (int i) r = Some (0, r')"
      using False fl j jl k(1) r'(1) nty_ok_ev(1) [OF n(1) jl] by (simp add: accept_cb_def bind_eq_Some_conv) auto
    then show ?thesis using n by auto
  qed
qed

lemma call_in:
  assumes ok: "nty_ok r" "i < MAX_EPOLL_EVENTS" and st: "status (evs r ! i) = 1" "events (evs r ! i) = EPOLLIN"
    and w: "io_ok w r i"
  shows "\<exists>r'. call w (callback (evs r ! i)) (ev_fd (evs r ! i)) r = Some r' \<and> nty_ok r' \<and> kept i r r' \<and>
    (status (evs r' ! i) = 1 \<or> events (evs r' ! i) = EPOLLIN)"
proof -
  have e: "ev_fd (evs r ! i) = int i" "callback (evs r ! i) = Recv_cb \<or> callback (evs r ! i) = Accept_cb"
    using nty_ok_ev(2) [OF ok] st by (auto simp: ev_shape_def)
  from e(2) show ?thesis
  proof
    assume cb: "callback (evs r ! i) = Recv_cb"
    have "\<forall>d. recv_got w (int i) = Some d \<longrightarrow> length d < BUFFER_LENGTH" using w by (simp add: io_ok_def)
    from recv_cb_ok [OF ok st this] show ?thesis using cb e(1) rest_same_kept by (fastforce simp: call_def)
  next
    assume cb: "callback (evs r ! i) = Accept_cb"
    have c: "accept_fd w (int i) = - 1 \<or>
      (\<exists>k. accept_fd w (int i) = int k \<and> 3 \<le> k \<and> k < MAX_EPOLL_EVENTS \<and> status (evs r ! k) = 0)"
      using w by (auto simp: io_ok_def)
    from accept_cb_ok [OF ok st(1) c, of "fcntl_flag w"] obtain n r' where r':
      "accept_cb (accept_fd w (int i)) (fcntl_flag w) (int i) r = Some (n, r')" "nty_ok r'"
      "rest_same r r' {accept_fd w (int i)}" by blast
    have k: "evs r' ! j = evs r ! j" if "status (evs r ! j) = 1" for j
    proof -
      have "int j \<noteq> accept_fd w (int i)" using c that by auto
      then show ?thesis using r'(3) by (simp add: rest_same_def)
    qed
    then have "kept i r r'" by (simp add: kept_def)
    then show ?thesis using cb e(1) r'(1,2) k [OF st(1)] st by (simp add: call_def)
  qed
qed

lemma dispatch_ok:
  assumes ok: "nty_ok r" "i < MAX_EPOLL_EVENTS" and st: "status (evs r ! i) = 1" and w: "io_ok w r i"
  shows "\<exists>r'. dispatch w (i, got) r = Some r' \<and> nty_ok r' \<and> kept i r r'"
proof -
  have get: "get_ev r i = Some (evs r ! i)" by (rule nty_ok_ev(1) [OF ok])
  have ev: "events (evs r ! i) = EPOLLIN \<or> events (evs r ! i) = EPOLLOUT"
    using nty_ok_ev(2) [OF ok] st by (auto simp: ev_shape_def)
  have out: "\<exists>r'. (if got AND EPOLLOUT \<noteq> 0 \<and> events (evs r1 ! i) AND EPOLLOUT \<noteq> 0
      then call w (callback (evs r1 ! i)) (ev_fd (evs r1 ! i)) r1 else Some r1) = Some r' \<and> nty_ok r' \<and> kept i r1 r'"
    if "nty_ok r1" "status (evs r1 ! i) = 1 \<or> events (evs r1 ! i) = EPOLLIN" for r1
  proof (cases "got AND EPOLLOUT \<noteq> 0 \<and> events (evs r1 ! i) AND EPOLLOUT \<noteq> 0")
    case True
    then have s1: "status (evs r1 ! i) = 1" using that(2) by auto
    then have "events (evs r1 ! i) = EPOLLOUT"
      using nty_ok_ev(2) [OF that(1) ok(2)] True by (auto simp: ev_shape_def)
    from call_out [OF that(1) ok(2) s1 this, of w] True show ?thesis by (auto dest: rest_same_kept)
  next
    case False
    then show ?thesis using that(1) by (auto simp: kept_def)
  qed
  have "\<exists>r1. (if got AND EPOLLIN \<noteq> 0 \<and> events (evs r ! i) AND EPOLLIN \<noteq> 0
      then call w (callback (evs r ! i)) (ev_fd (evs r ! i)) r else Some r) = Some r1 \<and> nty_ok r1 \<and> kept i r r1 \<and>
      (status (evs r1 ! i) = 1 \<or> events (evs r1 ! i) = EPOLLIN)"
  proof (cases "got AND EPOLLIN \<noteq> 0 \<and> events (evs r ! i) AND EPOLLIN \<noteq> 0")
    case True
    then have "events (evs r ! i) = EPOLLIN" using ev by auto
    from call_in [OF ok st this w] True show ?thesis by simp
  next
    case False
    then show ?thesis using ok(1) st by (auto simp: kept_def)
  qed
  then obtain r1 where r1: "(if got AND EPOLLIN \<noteq> 0 \<and> events (evs r ! i) AND EPOLLIN \<noteq> 0
      then call w (callback (evs r ! i)) (ev_fd (evs r ! i)) r else Some r) = Some r1" "nty_ok r1" "kept i r r1"
      "status (evs r1 ! i) = 1 \<or> events (evs r1 ! i) = EPOLLIN" by blast
  from out [OF r1(2,4)] obtain r' where r': "(if got AND EPOLLOUT \<noteq> 0 \<and> events (evs r1 ! i) AND EPOLLOUT \<noteq> 0
      then call w (callback (evs r1 ! i)) (ev_fd (evs r1 ! i)) r1 else Some r1) = Some r'" "nty_ok r'" "kept i r1 r'" by blast
  have "get_ev r1 i = Some (evs r1 ! i)" by (rule nty_ok_ev(1) [OF r1(2) ok(2)])
  then have "dispatch w (i, got) r = Some r'" using get r1(1) r'(1) by (simp add: dispatch_def)
  then show ?thesis using r'(2) kept_trans [OF r1(3) r'(3)] by blast
qed

text \<open>The system calls made while a batch of events is dispatched give what they may.\<close>

fun io_legal :: "io \<Rightarrow> (nat \<times> u32) list \<Rightarrow> ntyreactor \<Rightarrow> bool" where
  "io_legal w [] r = True"
| "io_legal w (e # es) r = (io_ok w r (fst e) \<and> (case dispatch w e r of None \<Rightarrow> True | Some r' \<Rightarrow> io_legal w es r'))"

text \<open>A batch as \<open>epoll_wait\<close> gives it: registered descriptors, each once.\<close>

definition batch_ok :: "(nat \<times> u32) list \<Rightarrow> ntyreactor \<Rightarrow> bool" where
  "batch_ok es r \<longleftrightarrow> distinct (map fst es) \<and> (\<forall>e\<in>set es. watch r (int (fst e)) \<noteq> None)"

lemma watched_status:
  assumes "nty_ok r" "watch r (int i) \<noteq> None"
  shows "i < MAX_EPOLL_EVENTS" "status (evs r ! i) = 1"
proof -
  have "int i < int MAX_EPOLL_EVENTS" using assms unfolding nty_ok_def by blast
  then show i: "i < MAX_EPOLL_EVENTS" by simp
  from nty_ok_ev(3) [OF assms(1) i] assms(2) show "status (evs r ! i) = 1" by (auto simp: watched_as_def split: if_splits)
qed

lemma dispatch_all_ok:
  "nty_ok r \<Longrightarrow> batch_ok es r \<Longrightarrow> io_legal w es r \<Longrightarrow> \<exists>r'. dispatch_all w es r = Some r' \<and> nty_ok r'"
proof (induction es arbitrary: r)
  case (Cons e es)
  obtain i got where e: "e = (i, got)" by (cases e)
  have wi: "watch r (int i) \<noteq> None" using Cons.prems(2) e by (simp add: batch_ok_def)
  have "io_ok w r i" using Cons.prems(3) e by simp
  from dispatch_ok [OF Cons.prems(1) watched_status [OF Cons.prems(1) wi] this, of got]
  obtain r1 where r1: "dispatch w e r = Some r1" "nty_ok r1" "kept i r r1" using e by blast
  have "watch r1 (int (fst e')) \<noteq> None" if "e' \<in> set es" for e'
  proof -
    have w': "watch r (int (fst e')) \<noteq> None" "fst e' \<noteq> i" using that Cons.prems(2) e by (auto simp: batch_ok_def)
    from watched_status [OF Cons.prems(1) w'(1)] w'(2) r1(3) show ?thesis
      using nty_ok_ev(3) [OF r1(2), of "fst e'"] by (auto simp: kept_def watched_as_def)
  qed
  then have "batch_ok es r1" using Cons.prems(2) by (simp add: batch_ok_def)
  from Cons.IH [OF r1(2) this] show ?case using Cons.prems(3) r1(1) by simp
qed simp

end
