(* ===== verification/Reactor_Correct.thy ===== *)
theory Reactor_Correct
  imports Reactor_Inv
begin

text \<open>
  The properties of the reactor: a run of the loop, the echo, and the check for idle descriptors.
\<close>

section \<open>Running\<close>

text \<open>
  The system gives what it may in every turn of a run: registered descriptors in the batch, and legal
  results of the calls.
\<close>

fun run_legal :: "(int \<times> (nat \<times> u32) list option \<times> io) list \<Rightarrow> nat \<times> ntyreactor \<Rightarrow> bool" where
  "run_legal [] s = True"
| "run_legal ((t, ready, w) # xs) s =
     ((case check_loop 100 (fst s) ((snd s)\<lparr>now := t\<rparr>) of None \<Rightarrow> True
       | Some (cp, r) \<Rightarrow> (case ready of None \<Rightarrow> True | Some es \<Rightarrow> batch_ok es r \<and> io_legal w es r)) \<and>
      (case turn (t, ready, w) s of None \<Rightarrow> True | Some s' \<Rightarrow> run_legal xs s'))"

lemma check_loop_ok:
  assumes "nty_ok r" "cp \<le> MAX_EPOLL_EVENTS"
  shows "\<exists>cp' r'. check_loop k cp r = Some (cp', r') \<and> cp' \<le> MAX_EPOLL_EVENTS \<and> calm r r'"
  using sweep_calm [OF assms] check_loop_sweep [OF assms] by simp

lemma turn_ok:
  assumes "nty_ok r" "cp \<le> MAX_EPOLL_EVENTS" "run_legal ((t, ready, w) # xs) (cp, r)"
  shows "\<exists>cp' r'. turn (t, ready, w) (cp, r) = Some (cp', r') \<and> cp' \<le> MAX_EPOLL_EVENTS \<and> nty_ok r'"
proof -
  have "nty_ok (r\<lparr>now := t\<rparr>)" using assms(1) by simp
  from check_loop_ok [OF this assms(2), of 100] obtain cp1 r1 where r1:
    "check_loop 100 cp (r\<lparr>now := t\<rparr>) = Some (cp1, r1)" "cp1 \<le> MAX_EPOLL_EVENTS" "nty_ok r1" by (auto simp: calm_def)
  show ?thesis
  proof (cases ready)
    case None
    then show ?thesis using r1 by (simp add: turn_def)
  next
    case (Some es)
    then have "batch_ok es r1" "io_legal w es r1" using assms(3) r1(1) by simp_all
    from dispatch_all_ok [OF r1(3) this] show ?thesis using Some r1 by (auto simp: turn_def)
  qed
qed

lemma run_ok:
  "nty_ok r \<Longrightarrow> cp \<le> MAX_EPOLL_EVENTS \<Longrightarrow> run_legal xs (cp, r) \<Longrightarrow>
   \<exists>cp' r'. ntyreactor_run xs (cp, r) = Some (cp', r') \<and> cp' \<le> MAX_EPOLL_EVENTS \<and> nty_ok r'"
proof (induction xs arbitrary: cp r)
  case (Cons x xs)
  obtain t ready w where x: "x = (t, ready, w)" by (cases x)
  from turn_ok [OF Cons.prems(1,2)] Cons.prems(3) x obtain cp1 r1 where r1:
    "turn x (cp, r) = Some (cp1, r1)" "cp1 \<le> MAX_EPOLL_EVENTS" "nty_ok r1" by blast
  then have "run_legal xs (cp1, r1)" using Cons.prems(3) x by simp
  from Cons.IH [OF r1(3,2) this] show ?case using r1(1) by simp
qed simp

text \<open>Memory of zeroed events, as \<open>ntyreactor_init\<close> takes it to be.\<close>

definition zeroed :: "ntyevent list \<Rightarrow> bool" where
  "zeroed es \<longleftrightarrow> length es = MAX_EPOLL_EVENTS \<and> (\<forall>ev\<in>set es. status ev = 0 \<and> length (buffer ev) = BUFFER_LENGTH)"

lemma listening_ok:
  assumes "zeroed mem" "0 < epfd" "s < MAX_EPOLL_EVENTS"
  shows "\<exists>r0 r1. ntyreactor_init epfd (Some mem) t = (0, Some r0) \<and>
    ntyreactor_addlistener (int s) Accept_cb r0 = Some (0, r1) \<and> nty_ok r1 \<and>
    watch r1 = [int s \<mapsto> (EPOLLIN, s)] \<and> evs r1 = mem[s := armed s Accept_cb EPOLLIN t (mem ! s)]"
proof -
  define r0 where "r0 = \<lparr>evs = mem, watch = Map.empty, now = t, sent = [], closed = []\<rparr>"
  have z: "ev_shape i (mem ! i) \<and> watched_as i (mem ! i) = None" if "i < MAX_EPOLL_EVENTS" for i
    using assms(1) that by (auto simp: zeroed_def ev_shape_def watched_as_def)
  have ok: "nty_ok r0" using z assms(1) by (simp add: nty_ok_def r0_def zeroed_def)
  have s0: "status (evs r0 ! s) = 0" "length (buffer (evs r0 ! s)) = BUFFER_LENGTH"
    using assms by (auto simp: r0_def zeroed_def)
  from armed_new [OF ok assms(3) s0(1), of Accept_cb EPOLLIN] obtain r1 where
    r1: "(nty_event_set s (int s) Accept_cb r0 \<bind> nty_event_add EPOLLIN s) = Some (0, r1)"
    "evs r1 = (evs r0)[s := armed s Accept_cb EPOLLIN (now r0) (evs r0 ! s)]"
    "watch r1 = (watch r0)(int s \<mapsto> (EPOLLIN, s))" "now r1 = now r0" by blast
  have a: "ev_shape s (armed s Accept_cb EPOLLIN (now r0) (evs r0 ! s)) \<and>
      watched_as s (armed s Accept_cb EPOLLIN (now r0) (evs r0 ! s)) = Some (EPOLLIN, s)"
    using s0(2) by (intro armed_shape) auto
  then have "watch r1 = (watch r0)(int s := watched_as s (armed s Accept_cb EPOLLIN (now r0) (evs r0 ! s)))" using r1(3) by simp
  from nty_ok_changed [OF ok assms(3) r1(2) this conjunct1 [OF a] r1(4)] have "nty_ok r1" by simp
  moreover have "ntyreactor_addlistener (int s) Accept_cb r0 = Some (0, r1)"
    using r1(1) by (auto simp: ntyreactor_addlistener_def bind_eq_Some_conv)
  moreover have "ntyreactor_init epfd (Some mem) t = (0, Some r0)" using assms(2) by (simp add: ntyreactor_init_def r0_def)
  ultimately show ?thesis using r1 by (auto simp: r0_def)
qed

section \<open>The properties\<close>

text \<open>
  From a reactor that is set up on zeroed memory with a listening socket, a run of the event loop never
  uses an event outside of the table nor writes past a buffer, and leaves every registered event with its
  own descriptor, in the epoll instance under the mask that fits its callback, and every other one out of it.
\<close>

theorem reactor_run_safe:
  assumes "zeroed mem" "0 < epfd" "s < MAX_EPOLL_EVENTS"
    "ntyreactor_init epfd (Some mem) t = (0, Some r0)" "ntyreactor_addlistener (int s) Accept_cb r0 = Some (0, r1)"
    "run_legal xs (0, r1)"
  shows "\<exists>cp r'. ntyreactor_run xs (0, r1) = Some (cp, r') \<and> nty_ok r'"
  using run_ok [of r1 0 xs] listening_ok [OF assms(1-3), of t] assms(4-6) by auto


text \<open>
  C18. Whatever the cursor of the check, eleven turns in which nothing is ready close each descriptor that
  has been idle for a minute: a turn looks at a hundred of the 1024 positions.
\<close>

theorem reactor_idle_closed:
  assumes "nty_ok r" "cp \<le> MAX_EPOLL_EVENTS" "i < MAX_EPOLL_EVENTS" "status (evs r ! i) = 1"
    "11 \<le> length ts" "\<forall>t\<in>set ts. t - last_active (evs r ! i) \<ge> 60"
  shows "\<exists>cp' r'. ntyreactor_run (map (\<lambda>t. (t, Some [], w)) ts) (cp, r) = Some (cp', r') \<and> idle_closed i r' \<and> nty_ok r'"
proof -
  let ?ts = "concat (map (replicate 100) ts)"
  have l: "length ?ts = 100 * length ts" by (induction ts) simp_all
  from sweep_calm [OF assms(1,2), of ?ts] obtain cp' r' where s: "sweep ?ts cp r = Some (cp', r')" "calm r r'" by blast
  have "if cp \<le> i then i - cp < length ?ts else MAX_EPOLL_EVENTS - cp + i < length ?ts"
    using assms(2,3,5) unfolding l by (auto simp: MAX_EPOLL_EVENTS_def)
  moreover have "\<forall>t\<in>set ?ts. t - last_active (evs r ! i) \<ge> 60" using assms(6) by auto
  ultimately have "idle_closed i r'" using sweep_visits [OF assms(1-3) _ assms(4) _ s(1)] by blast
  moreover have "ts \<noteq> []" using assms(5) by auto
  ultimately show ?thesis using quiet_run [OF assms(1,2), of ts w] s by (auto simp: calm_def)
qed

text \<open>
  Accepting a connection does not count as activity of the listening socket: whatever it accepts, it is
  closed, and taken out of the epoll instance, at the first check a minute after it was registered.
\<close>

theorem listener_times_out:
  assumes "nty_ok r" "i < MAX_EPOLL_EVENTS" "status (evs r ! i) = 1" "callback (evs r ! i) = Accept_cb" "io_ok w r i"
    "t - last_active (evs r ! i) \<ge> 60" "cp \<le> i" "i < cp + 100"
  shows "\<exists>r1 cp' r'. dispatch w (i, EPOLLIN) r = Some r1 \<and> turn (t, None, w') (cp, r1) = Some (cp', r') \<and> idle_closed i r'"
proof -
  have e: "ev_fd (evs r ! i) = int i" "events (evs r ! i) = EPOLLIN"
    using nty_ok_ev(2) [OF assms(1,2)] assms(3,4) by (auto simp: ev_shape_def)
  have c: "accept_fd w (int i) = - 1 \<or>
      (\<exists>k. accept_fd w (int i) = int k \<and> 3 \<le> k \<and> k < MAX_EPOLL_EVENTS \<and> status (evs r ! k) = 0)"
    using assms(5) by (auto simp: io_ok_def)
  from accept_cb_ok [OF assms(1-3) c, of "fcntl_flag w"] obtain n r1 where r1:
    "accept_cb (accept_fd w (int i)) (fcntl_flag w) (int i) r = Some (n, r1)" "nty_ok r1"
    "rest_same r r1 {accept_fd w (int i)}" by blast
  have "int i \<noteq> accept_fd w (int i)" using c assms(3) by auto
  then have i1: "evs r1 ! i = evs r ! i" using r1(3) by (simp add: rest_same_def)
  have d: "dispatch w (i, EPOLLIN) r = Some r1"
    using nty_ok_ev(1) [OF assms(1,2)] nty_ok_ev(1) [OF r1(2) assms(2)] e assms(4) r1(1) by (simp add: dispatch_def call_def)
  have ok: "nty_ok (r1\<lparr>now := t\<rparr>)" "cp \<le> MAX_EPOLL_EVENTS" using r1(2) assms(2,7) by simp_all
  from check_loop_ok [OF ok, of 100] obtain cp' r' where r': "check_loop 100 cp (r1\<lparr>now := t\<rparr>) = Some (cp', r')" by blast
  then have "sweep (replicate 100 t) cp (r1\<lparr>now := t\<rparr>) = Some (cp', r')" using check_loop_sweep [OF ok, of 100] by simp
  from sweep_visits [OF ok assms(2) _ _ _ this] have "idle_closed i r'"
    using assms(3,6-8) i1 by simp
  then show ?thesis using d r' by (auto simp: turn_def)
qed

text \<open>
  A full buffer is received unchecked: the terminating zero is written one past its end.
\<close>

theorem recv_full_buffer_overflows:
  assumes "nty_ok r" "i < MAX_EPOLL_EVENTS" "length d = BUFFER_LENGTH"
  shows "recv_cb (Some d) (int i) r = None"
proof -
  have "length (buffer (evs r ! i)) = BUFFER_LENGTH" "i < length (evs r)"
    using nty_ok_ev(2,4) [OF assms(1,2)] by (auto simp: ev_shape_def)
  then show ?thesis using assms(3) by (simp add: recv_cb_def nty_simps BUFFER_LENGTH_def)
qed

text \<open>
  The events are not zeroed after \<open>malloc\<close>: if the memory of the listener's event happens to say that
  it is registered, \<open>ntyreactor_addlistener\<close> modifies instead of adding, ignores the failure, and returns 0
  with the socket in no epoll instance.
\<close>

theorem uninitialised_listener_lost:
  assumes "0 < epfd" "s < length mem" "status (mem ! s) = 1"
  shows "\<exists>r0 r1. ntyreactor_init epfd (Some mem) t = (0, Some r0) \<and>
    ntyreactor_addlistener (int s) Accept_cb r0 = Some (0, r1) \<and> watch r1 (int s) = None"
  using assms by (simp add: ntyreactor_init_def ntyreactor_addlistener_def nty_simps)

section \<open>Instances\<close>

lemma check_loop_fresh:
  assumes "nty_ok r" "cp + k \<le> MAX_EPOLL_EVENTS" "\<forall>ev\<in>set (evs r). now r - last_active ev < 60"
  shows "check_loop k cp r = Some (cp + k, r)"
  using assms(2)
proof (induction k arbitrary: cp)
  case (Suc k)
  have i: "cp < MAX_EPOLL_EVENTS" using Suc.prems by simp
  then have "now r - last_active (evs r ! cp) < 60"
    using nty_ok_ev(4) [OF assms(1) i] assms(3) by simp
  then have "check_idle cp r = Some r" using nty_ok_ev(1) [OF assms(1) i] by (simp add: check_idle_def)
  then show ?case using Suc.IH [of "cp + 1"] Suc.prems i by (simp add: Let_def)
qed simp

definition e0 :: ntyevent where
  "e0 = \<lparr>ev_fd = 0, events = 0, callback = No_cb, status = 0, buffer = replicate BUFFER_LENGTH 0, len = 0, last_active = 0\<rparr>"

definition r_init :: ntyreactor where
  "r_init = \<lparr>evs = replicate MAX_EPOLL_EVENTS e0, watch = Map.empty, now = 0, sent = [], closed = []\<rparr>"

definition r_listen :: ntyreactor where
  "r_listen = r_init\<lparr>evs := (evs r_init)[3 := armed 3 Accept_cb EPOLLIN 0 e0], watch := [3 \<mapsto> (EPOLLIN, 3)]\<rparr>"

definition r_conn :: ntyreactor where
  "r_conn = r_listen\<lparr>evs := (evs r_listen)[5 := armed 5 Recv_cb EPOLLIN 0 e0],
     watch := (watch r_listen)(5 \<mapsto> (EPOLLIN, 5))\<rparr>"

lemma r_init_zeroed: "zeroed (replicate MAX_EPOLL_EVENTS e0)"
  by (simp add: zeroed_def e0_def)

lemma r_listen_up:
  "ntyreactor_init 1 (Some (replicate MAX_EPOLL_EVENTS e0)) 0 = (0, Some r_init)"
  "ntyreactor_addlistener 3 Accept_cb r_init = Some (0, r_listen)"
  by (simp_all add: ntyreactor_init_def r_init_def r_listen_def ntyreactor_addlistener_def nty_simps slot_of_def
      MAX_EPOLL_EVENTS_def e0_def armed_def)

lemma r_listen_ok: "nty_ok r_listen"
proof -
  have "(3::nat) < MAX_EPOLL_EVENTS" "(0::int) < 1" by (simp_all add: MAX_EPOLL_EVENTS_def)
  from listening_ok [OF r_init_zeroed this(2,1), of 0] show ?thesis using r_listen_up by simp
qed

lemma r_conn_ok: "nty_ok r_conn" and r_listen_3: "status (evs r_listen ! 3) = 1"
  "callback (evs r_listen ! 3) = Accept_cb" "last_active (evs r_listen ! 3) = 0"
  and r_conn_5: "status (evs r_conn ! 5) = 1" "callback (evs r_conn ! 5) = Recv_cb" "last_active (evs r_conn ! 5) = 0"
proof -
  have i: "(5::nat) < MAX_EPOLL_EVENTS" by (simp add: MAX_EPOLL_EVENTS_def)
  have a: "ev_shape 5 (armed 5 Recv_cb EPOLLIN 0 e0) \<and> watched_as 5 (armed 5 Recv_cb EPOLLIN 0 e0) = Some (EPOLLIN, 5)"
    by (intro armed_shape) (auto simp: e0_def)
  show "nty_ok r_conn"
    by (rule nty_ok_upd [OF r_listen_ok i _ _ conjunct1 [OF a]]) (simp_all add: r_conn_def conjunct2 [OF a])
qed (simp_all add: r_listen_def r_conn_def r_init_def MAX_EPOLL_EVENTS_def armed_def)

definition w_echo :: io where
  "w_echo = \<lparr>recv_got = (\<lambda>_. Some [104, 105]), send_ret = (\<lambda>_. 1), accept_fd = (\<lambda>_. 5), fcntl_flag = 0\<rparr>"

lemma w_echo_ok: "io_ok w_echo r_listen 3"
  by (auto simp: io_ok_def w_echo_def BUFFER_LENGTH_def r_listen_def r_init_def MAX_EPOLL_EVENTS_def e0_def intro!: exI [of _ 5])


lemma reactor_idle_closed_witness:
  "\<exists>cp' r'. ntyreactor_run (map (\<lambda>t. (t, Some [], w_echo)) (replicate 11 60)) (1000, r_conn) = Some (cp', r') \<and>
    idle_closed 5 r' \<and> nty_ok r'"
  by (rule reactor_idle_closed [OF r_conn_ok]) (simp_all add: MAX_EPOLL_EVENTS_def r_conn_5)

lemma listener_times_out_witness:
  "\<exists>r1 cp' r'. dispatch w_echo (3, EPOLLIN) r_listen = Some r1 \<and> turn (60, None, w_echo) (0, r1) = Some (cp', r') \<and>
    idle_closed 3 r'"
  by (rule listener_times_out [OF r_listen_ok _ _ _ w_echo_ok]) (simp_all add: MAX_EPOLL_EVENTS_def r_listen_3)

lemma recv_full_buffer_overflows_witness:
  "recv_cb (Some (replicate BUFFER_LENGTH 1)) (int 5) r_conn = None"
  by (rule recv_full_buffer_overflows [OF r_conn_ok]) (simp_all add: MAX_EPOLL_EVENTS_def)

lemma uninitialised_listener_lost_witness:
  "\<exists>r0 r1. ntyreactor_init 1 (Some (replicate 1024 (e0\<lparr>status := 1\<rparr>))) 0 = (0, Some r0) \<and>
    ntyreactor_addlistener (int 3) Accept_cb r0 = Some (0, r1) \<and> watch r1 (int 3) = None"
  by (rule uninitialised_listener_lost) simp_all

lemma r_listen_fresh: "check_loop 100 0 (r_listen\<lparr>now := 1\<rparr>) = Some (100, r_listen\<lparr>now := 1\<rparr>)"
proof -
  have "\<forall>ev\<in>set (evs r_listen). last_active ev = 0"
  proof
    fix ev assume "ev \<in> set (evs r_listen)"
    then have "ev \<in> insert (armed 3 Accept_cb EPOLLIN 0 e0) {e0}"
      using set_update_subset_insert [of "replicate MAX_EPOLL_EVENTS e0" 3 "armed 3 Accept_cb EPOLLIN 0 e0"]
      by (auto simp: r_listen_def r_init_def)
    then show "last_active ev = 0" by (auto simp: armed_def e0_def)
  qed
  then show ?thesis using check_loop_fresh [of "r_listen\<lparr>now := 1\<rparr>" 0 100] r_listen_ok
    by (simp add: MAX_EPOLL_EVENTS_def)
qed

lemma reactor_run_safe_witness:
  "\<exists>cp r'. ntyreactor_run [(1, Some [(3, EPOLLIN)], w_echo)] (0, r_listen) = Some (cp, r') \<and> nty_ok r'"
proof -
  have "batch_ok [(3, EPOLLIN)] (r_listen\<lparr>now := 1\<rparr>)" by (simp add: batch_ok_def r_listen_def)
  moreover have "io_ok w_echo (r_listen\<lparr>now := 1\<rparr>) 3" using w_echo_ok by (simp add: io_ok_def)
  ultimately have "run_legal [(1, Some [(3, EPOLLIN)], w_echo)] (0, r_listen)"
    using r_listen_fresh by (auto split: option.splits)
  from reactor_run_safe [OF r_init_zeroed _ _ _ _ this, of 1 3 0 r_init] show ?thesis
    using r_listen_up by (simp add: MAX_EPOLL_EVENTS_def del: ntyreactor_run.simps)
qed

end
