(* ===== verification/Lockfree.thy ===== *)
theory Lockfree
  imports Prelude
begin

text \<open>
  The queue of \<open>util/ArrayLockFreeQueue.cpp\<close> and \<open>util/ArrayLockFreeQueue.h\<close>. Several threads call
  \<open>push\<close> and \<open>pop\<close> at the same time: a call is a position in its code, and each access to a member of the
  queue is one step, in the order of the source. The compare-and-swap and the atomic additions are
  single steps, as documented for the built-in functions of the compiler; plain accesses are taken to be
  sequentially consistent. \<open>Q_SIZE\<close> is the parameter \<open>Q\<close>.
\<close>

section \<open>The data\<close>

type_synonym QUEUE_INT = u64

record 'a lfq =
  dataList :: "'a list"
  m_count :: QUEUE_INT
  m_readIndex :: QUEUE_INT
  m_writeIndex :: QUEUE_INT

text \<open>The constructor; \<open>z\<close> is the value-initialised element of the array.\<close>

definition ArrayLockFreeQueue :: "QUEUE_INT \<Rightarrow> 'a \<Rightarrow> 'a lfq" where
  "ArrayLockFreeQueue Q z = \<lparr>dataList = replicate (unat Q) z, m_count = 0, m_readIndex = 0, m_writeIndex = 0\<rparr>"

definition calIndex :: "QUEUE_INT \<Rightarrow> QUEUE_INT \<Rightarrow> QUEUE_INT" where
  "calIndex Q index = (index + Q) mod Q"

definition queue_size :: "'a lfq \<Rightarrow> QUEUE_INT" where
  "queue_size q = m_count q"

section \<open>The operations\<close>

text \<open>Where a thread is: outside, or before the step named, with the local variables that are still used.\<close>

datatype 'a pc =
    Out
  | PushRead 'a
  | PushWrite 'a QUEUE_INT
  | PushTest 'a QUEUE_INT QUEUE_INT
  | PushCas 'a QUEUE_INT
  | PushStore 'a QUEUE_INT
  | PushAdd
  | PopRead
  | PopWrite QUEUE_INT
  | PopTest QUEUE_INT QUEUE_INT
  | PopCas QUEUE_INT
  | PopLoad QUEUE_INT
  | PopSub 'a

datatype 'a call = Push 'a | Pop

datatype 'a result = Pushed bool | Popped "'a option"

fun enter :: "'a call \<Rightarrow> 'a pc" where
  "enter (Push x) = PushRead x"
| "enter Pop = PopRead"

text \<open>One step of a call: its result when it returns, the next position, and the queue.\<close>

fun advance :: "QUEUE_INT \<Rightarrow> 'a pc \<Rightarrow> 'a lfq \<Rightarrow> 'a result option \<times> 'a pc \<times> 'a lfq" where
  "advance Q Out q = (None, Out, q)"
| "advance Q (PushRead x) q = (None, PushWrite x (m_readIndex q), q)"
| "advance Q (PushWrite x cr) q = (None, PushTest x cr (m_writeIndex q), q)"
| "advance Q (PushTest x cr cw) q =
     (if calIndex Q cr = calIndex Q (cw + 1) then (Some (Pushed False), Out, q) else (None, PushCas x cw, q))"
| "advance Q (PushCas x cw) q =
     (if m_writeIndex q = cw then (None, PushStore x cw, q\<lparr>m_writeIndex := cw + 1\<rparr>) else (None, PushRead x, q))"
| "advance Q (PushStore x cw) q = (None, PushAdd, q\<lparr>dataList := (dataList q)[unat (calIndex Q cw) := x]\<rparr>)"
| "advance Q PushAdd q = (Some (Pushed True), Out, q\<lparr>m_count := m_count q + 1\<rparr>)"
| "advance Q PopRead q = (None, PopWrite (m_readIndex q), q)"
| "advance Q (PopWrite cr) q = (None, PopTest cr (m_writeIndex q), q)"
| "advance Q (PopTest cr cw) q =
     (if calIndex Q cr = calIndex Q cw then (Some (Popped None), Out, q) else (None, PopCas cr, q))"
| "advance Q (PopCas cr) q =
     (if m_readIndex q = cr then (None, PopLoad cr, q\<lparr>m_readIndex := cr + 1\<rparr>) else (None, PopRead, q))"
| "advance Q (PopLoad cr) q = (None, PopSub (dataList q ! unat (calIndex Q cr)), q)"
| "advance Q (PopSub x) q = (Some (Popped (Some x)), Out, q\<lparr>m_count := m_count q - 1\<rparr>)"

text \<open>A call that no other thread interferes with; it takes at most six steps.\<close>

fun alone :: "nat \<Rightarrow> QUEUE_INT \<Rightarrow> 'a pc \<Rightarrow> 'a lfq \<Rightarrow> ('a result \<times> 'a lfq) option" where
  "alone 0 Q p q = None"
| "alone (Suc n) Q p q = (case advance Q p q of
       (Some res, p', q') \<Rightarrow> Some (res, q')
     | (None, p', q') \<Rightarrow> alone n Q p' q')"

definition lone_call :: "QUEUE_INT \<Rightarrow> 'a call \<Rightarrow> 'a lfq \<Rightarrow> ('a result \<times> 'a lfq) option" where
  "lone_call Q c q = alone 6 Q (enter c) q"

section \<open>Threads\<close>

record 'a sys =
  shared :: "'a lfq"
  at :: "nat \<Rightarrow> 'a pc"
  log :: "(nat \<times> 'a result) list"

definition init :: "QUEUE_INT \<Rightarrow> 'a \<Rightarrow> 'a sys" where
  "init Q z = \<lparr>shared = ArrayLockFreeQueue Q z, at = (\<lambda>t. Out), log = []\<rparr>"

text \<open>A thread that is outside calls an operation, or one that is inside takes its next step.\<close>

datatype 'a act = Begin nat "'a call" | Step nat

fun perform :: "QUEUE_INT \<Rightarrow> 'a act \<Rightarrow> 'a sys \<Rightarrow> 'a sys option" where
  "perform Q (Begin t c) s = (case at s t of Out \<Rightarrow> Some (s\<lparr>at := (at s)(t := enter c)\<rparr>) | _ \<Rightarrow> None)"
| "perform Q (Step t) s = (case at s t of Out \<Rightarrow> None
     | p \<Rightarrow> (case advance Q p (shared s) of (res, p', q') \<Rightarrow>
         Some (s\<lparr>shared := q', at := (at s)(t := p'),
           log := log s @ (case res of None \<Rightarrow> [] | Some x \<Rightarrow> [(t, x)])\<rparr>)))"

fun run :: "QUEUE_INT \<Rightarrow> 'a act list \<Rightarrow> 'a sys \<Rightarrow> 'a sys option" where
  "run Q [] s = Some s"
| "run Q (a # as) s = perform Q a s \<bind> run Q as"

section \<open>The test program\<close>

text \<open>\<open>thread_routine\<close>: as many pushes as \<open>CYCLE_MAX\<close> says, then as many pops.\<close>

definition CYCLE_MAX :: nat where "CYCLE_MAX = 10000"
definition THREAD_NUM :: nat where "THREAD_NUM = 5"

definition thread_routine :: "int call list" where
  "thread_routine = map (\<lambda>i. Push (int i)) [0..<CYCLE_MAX] @ replicate CYCLE_MAX Pop"

end
