(* ===== verification/Lockfree_Seq.thy ===== *)
theory Lockfree_Seq
  imports Lockfree Interfaces
begin

text \<open>
  The lock-free queue used by one thread: a bounded queue.
\<close>

section \<open>Indices\<close>

text \<open>A size that the wrap-around of the indices respects.\<close>

definition size_ok :: "QUEUE_INT \<Rightarrow> bool" where
  "size_ok Q \<longleftrightarrow> 2 \<le> unat Q \<and> unat Q dvd 2 ^ 64"

lemma mod_off_inj:
  fixes a k j n :: nat
  assumes "(a + k) mod n = (a + j) mod n" "k < n" "j < n"
  shows "k = j"
proof -
  have le: "x = y" if "x \<le> y" "(a + x) mod n = (a + y) mod n" "y < n" for x y
  proof -
    have "n dvd y - x" using that(1,2) mod_eq_dvd_iff_nat [of "a + x" "a + y" n] by simp
    then show ?thesis using that(1,3) by (cases "x = y") (auto dest: dvd_imp_le)
  qed
  show ?thesis using le [of k j] le [of j k] assms by (cases "k \<le> j") auto
qed

lemma unat_add_mod:
  fixes a b Q :: QUEUE_INT
  assumes "size_ok Q"
  shows "unat (a + b) mod unat Q = (unat a + unat b) mod unat Q"
proof -
  have "unat (a + b) = (unat a + unat b) mod 2 ^ 64" by (simp add: unat_word_ariths)
  moreover have "unat Q dvd 2 ^ 64" using assms by (simp add: size_ok_def)
  ultimately show ?thesis using mod_mod_cancel [of "unat Q" "2 ^ 64" "unat a + unat b"] by metis
qed

lemma calIndex_unat: "size_ok Q \<Longrightarrow> unat (calIndex Q i) = unat i mod unat Q"
  using unat_add_mod [of Q i Q] by (simp add: calIndex_def unat_mod)

lemma calIndex_less: "size_ok Q \<Longrightarrow> unat (calIndex Q i) < unat Q"
  by (simp add: calIndex_unat) (simp add: size_ok_def)

lemma calIndex_eq_iff: "size_ok Q \<Longrightarrow> calIndex Q i = calIndex Q j \<longleftrightarrow> unat i mod unat Q = unat j mod unat Q"
  by (metis calIndex_unat unsigned_word_eqI)

lemma unat_off_mod: "size_ok Q \<Longrightarrow> unat (i + of_nat k) mod unat Q = (unat i + k) mod unat Q" for i :: QUEUE_INT
proof -
  assume s: "size_ok Q"
  have "unat (of_nat k :: u64) mod unat Q = k mod unat Q"
    using s mod_mod_cancel [of "unat Q" "2 ^ 64" k] by (simp add: unsigned_of_nat take_bit_eq_mod size_ok_def)
  then have "(unat i + unat (of_nat k :: u64)) mod unat Q = (unat i + k) mod unat Q"
    using mod_add_right_eq [of "unat i" "unat (of_nat k :: u64)" "unat Q"] mod_add_right_eq [of "unat i" k "unat Q"] by simp
  then show ?thesis using unat_add_mod [OF s, of i "of_nat k"] by simp
qed

text \<open>Two offsets less than the size apart give different positions of the array.\<close>

lemma off_eq_iff:
  assumes "size_ok Q" "k < unat Q" "j < unat Q"
  shows "calIndex Q (i + of_nat k) = calIndex Q (i + of_nat j) \<longleftrightarrow> k = j"
proof -
  have "(unat i + k) mod unat Q = (unat i + j) mod unat Q \<longleftrightarrow> k = j"
    using mod_off_inj [OF _ assms(2,3)] by blast
  then show ?thesis using assms(1) by (simp add: calIndex_eq_iff unat_off_mod)
qed

section \<open>One thread\<close>

text \<open>The queue between two calls of the only thread: \<open>xs\<close> lies from the read index on.\<close>

definition holds :: "QUEUE_INT \<Rightarrow> 'a lfq \<Rightarrow> 'a list \<Rightarrow> bool" where
  "holds Q q xs \<longleftrightarrow> length (dataList q) = unat Q \<and> length xs < unat Q \<and>
     m_writeIndex q = m_readIndex q + of_nat (length xs) \<and> m_count q = of_nat (length xs) \<and>
     (\<forall>i<length xs. dataList q ! unat (calIndex Q (m_readIndex q + of_nat i)) = xs ! i)"

definition push_alone :: "QUEUE_INT \<Rightarrow> 'a \<Rightarrow> 'a lfq \<Rightarrow> (bool \<times> 'a lfq) option" where
  "push_alone Q x q = (case lone_call Q (Push x) q of Some (Pushed b, q') \<Rightarrow> Some (b, q') | _ \<Rightarrow> None)"

definition pop_alone :: "QUEUE_INT \<Rightarrow> 'a lfq \<Rightarrow> ('a option \<times> 'a lfq) option" where
  "pop_alone Q q = (case lone_call Q Pop q of Some (Popped x, q') \<Rightarrow> Some (x, q') | _ \<Rightarrow> None)"

lemma push_alone_eq: "push_alone Q x q =
  (if calIndex Q (m_readIndex q) = calIndex Q (m_writeIndex q + 1) then Some (False, q)
   else Some (True, q\<lparr>m_writeIndex := m_writeIndex q + 1, m_count := m_count q + 1,
     dataList := (dataList q)[unat (calIndex Q (m_writeIndex q)) := x]\<rparr>))"
  by (simp add: push_alone_def lone_call_def numeral_eq_Suc)

lemma pop_alone_eq: "pop_alone Q q =
  (if calIndex Q (m_readIndex q) = calIndex Q (m_writeIndex q) then Some (None, q)
   else Some (Some (dataList q ! unat (calIndex Q (m_readIndex q))),
     q\<lparr>m_readIndex := m_readIndex q + 1, m_count := m_count q - 1\<rparr>))"
  by (simp add: pop_alone_def lone_call_def numeral_eq_Suc)

lemma full_iff:
  assumes "size_ok Q" "holds Q q xs"
  shows "calIndex Q (m_readIndex q) = calIndex Q (m_writeIndex q + 1) \<longleftrightarrow> length xs = unat Q - 1"
proof -
  have l: "length xs < unat Q" "m_writeIndex q = m_readIndex q + of_nat (length xs)" using assms(2) by (simp_all add: holds_def)
  have w: "m_writeIndex q + 1 = m_readIndex q + of_nat (length xs + 1)" using l(2) by (simp add: add.assoc)
  show ?thesis
  proof (cases "length xs + 1 = unat Q")
    case True
    then have "unat (m_readIndex q) mod unat Q = (unat (m_readIndex q) + (length xs + 1)) mod unat Q" by simp
    then show ?thesis using True unfolding w calIndex_eq_iff [OF assms(1)] unat_off_mod [OF assms(1)] by simp
  next
    case False
    then have "length xs + 1 < unat Q" "0 < unat Q" using l(1) by auto
    then show ?thesis using off_eq_iff [OF assms(1), of 0 "length xs + 1" "m_readIndex q"] False unfolding w by simp
  qed
qed

lemma empty_iff:
  assumes "size_ok Q" "holds Q q xs"
  shows "calIndex Q (m_readIndex q) = calIndex Q (m_writeIndex q) \<longleftrightarrow> xs = []"
proof -
  have l: "length xs < unat Q" "m_writeIndex q = m_readIndex q + of_nat (length xs)" using assms(2) by (simp_all add: holds_def)
  then have "0 < unat Q" by simp
  then show ?thesis using off_eq_iff [OF assms(1) _ l(1), of 0 "m_readIndex q"] l(2) by simp
qed

lemma push_room:
  assumes "size_ok Q" "holds Q q xs" "length xs < unat Q - 1"
  shows "\<exists>q'. push_alone Q x q = Some (True, q') \<and> holds Q q' (xs @ [x])"
proof -
  have h: "length (dataList q) = unat Q" "length xs < unat Q" "m_writeIndex q = m_readIndex q + of_nat (length xs)"
    "m_count q = of_nat (length xs)" "\<forall>i<length xs. dataList q ! unat (calIndex Q (m_readIndex q + of_nat i)) = xs ! i"
    using assms(2) by (simp_all add: holds_def)
  define q' where "q' = q\<lparr>m_writeIndex := m_writeIndex q + 1, m_count := m_count q + 1,
     dataList := (dataList q)[unat (calIndex Q (m_writeIndex q)) := x]\<rparr>"
  have "push_alone Q x q = Some (True, q')" using full_iff [OF assms(1,2)] assms(3) by (simp add: push_alone_eq q'_def)
  moreover have "dataList q' ! unat (calIndex Q (m_readIndex q' + of_nat i)) = (xs @ [x]) ! i" if "i < length xs + 1" for i
  proof (cases "i = length xs")
    case True
    then show ?thesis using calIndex_less [OF assms(1)] h(1,3) by (simp add: q'_def)
  next
    case False
    then have i: "i < length xs" using that by simp
    then have "calIndex Q (m_readIndex q + of_nat i) \<noteq> calIndex Q (m_writeIndex q)"
      using off_eq_iff [OF assms(1) _ h(2), of i "m_readIndex q"] h(2,3) by simp
    then have "unat (calIndex Q (m_writeIndex q)) \<noteq> unat (calIndex Q (m_readIndex q + of_nat i))"
      by (metis unsigned_word_eqI)
    then show ?thesis using h(5) i by (simp add: q'_def nth_append)
  qed
  ultimately show ?thesis using h assms(3) by (auto simp: holds_def q'_def)
qed

lemma pop_next:
  assumes "size_ok Q" "holds Q q (x # xs)"
  shows "\<exists>q'. pop_alone Q q = Some (Some x, q') \<and> holds Q q' xs"
proof -
  have h: "length (dataList q) = unat Q" "length xs + 1 < unat Q" "m_writeIndex q = m_readIndex q + of_nat (length xs + 1)"
    "m_count q = of_nat (length xs + 1)"
    "\<And>i. i < length xs + 1 \<Longrightarrow> dataList q ! unat (calIndex Q (m_readIndex q + of_nat i)) = (x # xs) ! i"
    using assms(2) by (auto simp: holds_def)
  define q' where "q' = q\<lparr>m_readIndex := m_readIndex q + 1, m_count := m_count q - 1\<rparr>"
  have "pop_alone Q q = Some (Some x, q')" using empty_iff [OF assms] h(5) [of 0] by (simp add: pop_alone_eq q'_def)
  moreover have "holds Q q' xs"
    using h(1-4) h(5) [of "Suc i" for i] by (auto simp: holds_def q'_def add_ac)
  ultimately show ?thesis by blast
qed

lemma new_holds: "size_ok Q \<Longrightarrow> holds Q (ArrayLockFreeQueue Q z) []"
  by (simp add: holds_def ArrayLockFreeQueue_def size_ok_def)

text \<open>The size is fixed for the interpretation: the default one of the template.\<close>

definition Q_SIZE :: QUEUE_INT where "Q_SIZE = push_bit 16 1"

lemma Q_SIZE_ok: "size_ok Q_SIZE"
  by (simp add: size_ok_def Q_SIZE_def dvd_def)

lemma bounded_queue_laws:
  assumes "size_ok Q"
  shows "bounded_queue (holds Q) (push_alone Q) (pop_alone Q) (unat Q - 1)"
proof unfold_locales
  fix q :: "'a lfq" and xs x
  show "holds Q q xs \<Longrightarrow> length xs < unat Q - 1 \<Longrightarrow> \<exists>q'. push_alone Q x q = Some (True, q') \<and> holds Q q' (xs @ [x])"
    by (rule push_room [OF assms])
  show "holds Q q xs \<Longrightarrow> length xs = unat Q - 1 \<Longrightarrow> push_alone Q x q = Some (False, q)"
    by (simp add: push_alone_eq full_iff [OF assms])
  show "holds Q q (x # xs) \<Longrightarrow> \<exists>q'. pop_alone Q q = Some (Some x, q') \<and> holds Q q' xs"
    by (rule pop_next [OF assms])
  show "holds Q q [] \<Longrightarrow> pop_alone Q q = Some (None, q)"
    by (simp add: pop_alone_eq empty_iff [OF assms])
  show "holds Q q xs \<Longrightarrow> length xs \<le> unat Q - 1"
    by (auto simp: holds_def)
qed

interpretation lf: bounded_queue "holds Q_SIZE" "push_alone Q_SIZE" "pop_alone Q_SIZE" "unat Q_SIZE - 1"
  by (rule bounded_queue_laws [OF Q_SIZE_ok])

end
