(* ===== verification/Lockfree_Inv.thy ===== *)
theory Lockfree_Inv
  imports Lockfree_Seq
begin

text \<open>
  The lock-free queue used by several threads: what holds at each position of the code, the bound for one
  producer, and the count.
\<close>

section \<open>Several threads\<close>

text \<open>
  What a thread at each position knows, as long as no index has wrapped around. The index that a thread
  has claimed with its compare-and-swap is \<open>claimed_push\<close>, respectively \<open>claimed_pop\<close>.
\<close>

definition local_ok :: "'a lfq \<Rightarrow> 'a pc \<Rightarrow> bool" where
  "local_ok q p \<longleftrightarrow> (case p of
       PushStore x cw \<Rightarrow> unat cw < unat (m_writeIndex q)
     | PopWrite cr \<Rightarrow> unat cr \<le> unat (m_readIndex q)
     | PopTest cr cw \<Rightarrow> unat cr \<le> unat (m_readIndex q) \<and> unat cr \<le> unat cw \<and> unat cw \<le> unat (m_writeIndex q)
     | PopCas cr \<Rightarrow> unat cr < unat (m_writeIndex q)
     | PopLoad cr \<Rightarrow> unat cr < unat (m_readIndex q)
     | _ \<Rightarrow> True)"

fun claimed_push :: "'a pc \<Rightarrow> QUEUE_INT option" where
  "claimed_push (PushStore x cw) = Some cw"
| "claimed_push _ = None"

fun claimed_pop :: "'a pc \<Rightarrow> QUEUE_INT option" where
  "claimed_pop (PopLoad cr) = Some cr"
| "claimed_pop _ = None"

definition tickets :: "nat \<Rightarrow> 'a sys \<Rightarrow> bool" where
  "tickets n s \<longleftrightarrow> unat (m_readIndex (shared s)) \<le> unat (m_writeIndex (shared s)) \<and>
     unat (m_writeIndex (shared s)) \<le> n \<and> (\<forall>t. local_ok (shared s) (at s t)) \<and>
     (\<forall>t u i. t \<noteq> u \<longrightarrow> claimed_push (at s t) = Some i \<longrightarrow> claimed_push (at s u) \<noteq> Some i) \<and>
     (\<forall>t u i. t \<noteq> u \<longrightarrow> claimed_pop (at s t) = Some i \<longrightarrow> claimed_pop (at s u) \<noteq> Some i)"

text \<open>A step moves the indices up by at most one, and never claims an index that was claimed before.\<close>

lemma advance_indices:
  assumes "advance Q p q = (res, p', q')" "local_ok q p" "unat (m_readIndex q) \<le> unat (m_writeIndex q)"
    "unat (m_writeIndex q) + 1 < 2 ^ 64"
  shows "unat (m_readIndex q) \<le> unat (m_readIndex q') \<and> unat (m_writeIndex q) \<le> unat (m_writeIndex q') \<and>
    unat (m_writeIndex q') \<le> unat (m_writeIndex q) + 1 \<and>
    unat (m_readIndex q') \<le> unat (m_writeIndex q') \<and> local_ok q' p' \<and>
    (\<forall>i. claimed_push p' = Some i \<longrightarrow> i = m_writeIndex q) \<and>
    (\<forall>i. claimed_pop p' = Some i \<longrightarrow> i = m_readIndex q)"
proof -
  have inc: "unat (i + 1) = unat i + 1" if "unat i < unat (m_writeIndex q) + 1" for i :: QUEUE_INT
    using that assms(4) unat_add64 [of i 1] by simp
  show ?thesis
  proof (cases p)
    case (PopTest cr cw)
    have "unat cr \<noteq> unat cw" if "calIndex Q cr \<noteq> calIndex Q cw" using that by (metis unsigned_word_eqI)
    then show ?thesis using assms PopTest by (auto simp: local_ok_def split: if_splits)
  qed (use assms inc in \<open>auto simp: local_ok_def split: if_splits\<close>)
qed

lemma local_ok_mono:
  "local_ok q p \<Longrightarrow> unat (m_readIndex q) \<le> unat (m_readIndex q') \<Longrightarrow> unat (m_writeIndex q) \<le> unat (m_writeIndex q') \<Longrightarrow>
   local_ok q' p"
  by (auto simp: local_ok_def split: pc.splits)

lemma claimed_old: "local_ok q p \<Longrightarrow> claimed_push p \<noteq> Some (m_writeIndex q) \<and> claimed_pop p \<noteq> Some (m_readIndex q)"
  by (cases p) (auto simp: local_ok_def)

lemma tickets_step:
  assumes inv: "tickets n s" and n: "n + 1 < 2 ^ 64" and st: "perform Q a s = Some s'"
  shows "tickets (n + 1) s'"
proof (cases a)
  case (Begin t c)
  then have s': "s' = s\<lparr>at := (at s)(t := enter c)\<rparr>" "at s t = Out" using st by (auto split: pc.splits)
  have "local_ok (shared s) (enter c)" "claimed_push (enter c) = None" "claimed_pop (enter c) = None"
    by (cases c; simp add: local_ok_def)+
  then show ?thesis using inv s' by (auto simp: tickets_def)
next
  case (Step t)
  obtain res p' q' where adv: "advance Q (at s t) (shared s) = (res, p', q')" by (metis prod_cases3)
  have s': "shared s' = q'" "at s' = (at s)(t := p')" using st adv Step by (auto split: pc.splits)
  have i: "local_ok (shared s) (at s u)" for u using inv by (simp add: tickets_def)
  have le: "unat (m_readIndex (shared s)) \<le> unat (m_writeIndex (shared s))" "unat (m_writeIndex (shared s)) \<le> n"
    using inv by (simp_all add: tickets_def)
  from advance_indices [OF adv i le(1)] le(2) n have
    m: "unat (m_readIndex (shared s)) \<le> unat (m_readIndex q')" "unat (m_writeIndex (shared s)) \<le> unat (m_writeIndex q')"
    "unat (m_writeIndex q') \<le> n + 1" "unat (m_readIndex q') \<le> unat (m_writeIndex q')" "local_ok q' p'"
    and c: "\<And>i. claimed_push p' = Some i \<Longrightarrow> i = m_writeIndex (shared s)"
    "\<And>i. claimed_pop p' = Some i \<Longrightarrow> i = m_readIndex (shared s)" by auto
  have "local_ok q' (at s' u)" for u using local_ok_mono [OF i m(1,2)] m(5) s'(2) by simp
  moreover have "claimed_push (at s' v) \<noteq> Some i" if "u \<noteq> v" "claimed_push (at s' u) = Some i" for u v i
    using that inv c(1) claimed_old [OF i] s'(2) unfolding tickets_def by (cases "u = t"; cases "v = t") auto
  moreover have "claimed_pop (at s' v) \<noteq> Some i" if "u \<noteq> v" "claimed_pop (at s' u) = Some i" for u v i
    using that inv c(2) claimed_old [OF i] s'(2) unfolding tickets_def by (cases "u = t"; cases "v = t") auto
  ultimately show ?thesis using m(3,4) s'(1) unfolding tickets_def by blast
qed

text \<open>Invariants of runs that are shorter than the range of the indices.\<close>

lemma run_invariant:
  assumes "\<And>n s a s'. P n s \<Longrightarrow> n + 1 < 2 ^ 64 \<Longrightarrow> a \<in> set as \<Longrightarrow> perform Q a s = Some s' \<Longrightarrow> P (n + 1) s'"
    and "P n s" "run Q as s = Some s'" "n + length as < 2 ^ 64"
  shows "P (n + length as) s'"
  using assms
proof (induction as arbitrary: n s)
  case (Cons a as)
  then obtain s1 where s1: "perform Q a s = Some s1" "run Q as s1 = Some s'" by (auto simp: bind_simps)
  have "P (n + 1) s1" using Cons.prems(1) [OF Cons.prems(2) _ _ s1(1)] Cons.prems(4) by simp
  moreover have "P (m + 1) u'" if "P m u" "m + 1 < 2 ^ 64" "b \<in> set as" "perform Q b u = Some u'" for m u b u'
    by (rule Cons.prems(1) [OF that(1,2) _ that(4)]) (simp add: that(3))
  moreover have "n + 1 + length as < 2 ^ 64" using Cons.prems(4) by simp
  ultimately have "P (n + 1 + length as) s'" using Cons.IH [OF _ _ s1(2)] by blast
  then show ?case by simp
qed simp

lemma tickets_run:
  assumes "run Q as (init Q z) = Some s" "length as < 2 ^ 64"
  shows "tickets (length as) s"
proof -
  have "tickets 0 (init Q z)" by (simp add: tickets_def init_def ArrayLockFreeQueue_def local_ok_def)
  from run_invariant [where P = tickets, OF tickets_step this assms(1)] assms(2) show ?thesis by simp
qed

section \<open>One producer\<close>

fun pushing :: "'a pc \<Rightarrow> bool" where
  "pushing (PushRead x) = True"
| "pushing (PushWrite x cr) = True"
| "pushing (PushTest x cr cw) = True"
| "pushing (PushCas x cw) = True"
| "pushing (PushStore x cw) = True"
| "pushing PushAdd = True"
| "pushing _ = False"

definition sole_producer :: "nat \<Rightarrow> 'a act list \<Rightarrow> bool" where
  "sole_producer p as \<longleftrightarrow> (\<forall>a\<in>set as. case a of Begin t (Push x) \<Rightarrow> t = p | _ \<Rightarrow> True)"

text \<open>What the only producer knows: the read index it has seen may be old, but it errs on the safe side.\<close>

definition producer_ok :: "QUEUE_INT \<Rightarrow> 'a lfq \<Rightarrow> 'a pc \<Rightarrow> bool" where
  "producer_ok Q q p \<longleftrightarrow> (case p of
       PushWrite x cr \<Rightarrow> unat cr \<le> unat (m_readIndex q) \<and> unat (m_writeIndex q) < unat cr + unat Q
     | PushTest x cr cw \<Rightarrow> cw = m_writeIndex q \<and> unat cr \<le> unat (m_readIndex q) \<and> unat cw < unat cr + unat Q
     | PushCas x cw \<Rightarrow> cw = m_writeIndex q \<and> unat cw + 1 < unat (m_readIndex q) + unat Q
     | _ \<Rightarrow> True)"

definition bounded_by :: "QUEUE_INT \<Rightarrow> nat \<Rightarrow> nat \<Rightarrow> 'a sys \<Rightarrow> bool" where
  "bounded_by Q p n s \<longleftrightarrow> tickets n s \<and> (\<forall>t. t \<noteq> p \<longrightarrow> \<not> pushing (at s t)) \<and> producer_ok Q (shared s) (at s p) \<and>
     unat (m_writeIndex (shared s)) < unat (m_readIndex (shared s)) + unat Q"

lemma advance_pop:
  "advance Q p q = (res, p', q') \<Longrightarrow> \<not> pushing p \<Longrightarrow> m_writeIndex q' = m_writeIndex q \<and> \<not> pushing p'"
  by (cases p) (auto split: if_splits)

lemma advance_push:
  assumes Q: "size_ok Q" and adv: "advance Q p q = (res, p', q')" and p: "pushing p" "producer_ok Q q p"
    and b: "unat (m_writeIndex q) < unat (m_readIndex q) + unat Q" "unat (m_writeIndex q) + 1 < 2 ^ 64"
  shows "m_readIndex q' = m_readIndex q \<and> producer_ok Q q' p' \<and> unat (m_writeIndex q') < unat (m_readIndex q) + unat Q"
proof (cases p)
  case (PushTest x cr cw)
  have cw: "cw = m_writeIndex q" "unat cr \<le> unat (m_readIndex q)" "unat cw < unat cr + unat Q"
    using p(2) PushTest unfolding producer_ok_def by auto
  have "unat cw + 1 < unat cr + unat Q" if "calIndex Q cr \<noteq> calIndex Q (cw + 1)"
  proof (rule ccontr)
    assume "\<not> ?thesis"
    then have "unat cw + 1 = unat cr + unat Q" using cw(3) by simp
    moreover have "unat (cw + 1) = unat cw + 1" using b(2) cw(1) unat_add64 [of cw 1] by simp
    ultimately have "unat (cw + 1) mod unat Q = unat cr mod unat Q" by simp
    then show False using that calIndex_eq_iff [OF Q, of cr "cw + 1"] by simp
  qed
  then show ?thesis using adv b PushTest cw by (auto simp: producer_ok_def split: if_splits)
next
  case (PushCas x cw)
  then have "producer_ok Q q (PushCas x cw)" using p(2) by simp
  then have cw: "cw = m_writeIndex q" "unat cw + 1 < unat (m_readIndex q) + unat Q"
    by (auto simp: producer_ok_def)
  then have "unat (cw + 1) = unat cw + 1" using b(2) unat_add64 [of cw 1] by simp
  then show ?thesis using adv b(1) PushCas cw by (auto simp: producer_ok_def)
qed (use adv b p in \<open>auto simp: producer_ok_def\<close>)

lemma producer_ok_mono:
  "producer_ok Q q p \<Longrightarrow> unat (m_readIndex q) \<le> unat (m_readIndex q') \<Longrightarrow> m_writeIndex q' = m_writeIndex q \<Longrightarrow>
   producer_ok Q q' p"
  by (auto simp: producer_ok_def split: pc.splits)

lemma not_pushing_ok: "\<not> pushing p \<Longrightarrow> producer_ok Q q p"
  by (cases p) (auto simp: producer_ok_def)

lemma bounded_step:
  assumes Q: "size_ok Q" and inv: "bounded_by Q p n s" and n: "n + 1 < 2 ^ 64" and st: "perform Q a s = Some s'"
    and a: "\<forall>t x. a = Begin t (Push x) \<longrightarrow> t = p"
  shows "bounded_by Q p (n + 1) s'"
proof -
  have tk: "tickets n s" using inv by (simp add: bounded_by_def)
  from tickets_step [OF tk n st] have tk': "tickets (n + 1) s'" .
  show ?thesis
  proof (cases a)
    case (Begin t c)
    then have s': "s' = s\<lparr>at := (at s)(t := enter c)\<rparr>" "at s t = Out" using st by (auto split: pc.splits)
    have "producer_ok Q (shared s) (enter c)" "t = p \<or> \<not> pushing (enter c)"
      using a Begin by (cases c; auto simp: producer_ok_def)+
    then show ?thesis using inv tk' s' unfolding bounded_by_def by auto
  next
    case (Step t)
    obtain res p' q' where adv: "advance Q (at s t) (shared s) = (res, p', q')" by (metis prod_cases3)
    have s': "shared s' = q'" "at s' = (at s)(t := p')" using st adv Step by (auto split: pc.splits)
    have w: "local_ok (shared s) (at s t)" "unat (m_readIndex (shared s)) \<le> unat (m_writeIndex (shared s))"
      "unat (m_writeIndex (shared s)) + 1 < 2 ^ 64" using tk n by (auto simp: tickets_def)
    have b: "unat (m_writeIndex (shared s)) < unat (m_readIndex (shared s)) + unat Q" "producer_ok Q (shared s) (at s p)"
      "\<And>u. u \<noteq> p \<Longrightarrow> \<not> pushing (at s u)" using inv by (auto simp: bounded_by_def)
    from advance_indices [OF adv w] have r: "unat (m_readIndex (shared s)) \<le> unat (m_readIndex q')" by blast
    show ?thesis
    proof (cases "pushing (at s t)")
      case True
      then have t: "t = p" using b(3) by blast
      from advance_push [OF Q adv True _ b(1) w(3)] b(2) t have "m_readIndex q' = m_readIndex (shared s)"
        "producer_ok Q q' p'" "unat (m_writeIndex q') < unat (m_readIndex (shared s)) + unat Q" by auto
      then show ?thesis using tk' s' b(3) t unfolding bounded_by_def by auto
    next
      case False
      from advance_pop [OF adv False] have q': "m_writeIndex q' = m_writeIndex (shared s)" "\<not> pushing p'" by blast+
      have "producer_ok Q q' (at s' p)" using producer_ok_mono [OF b(2) r q'(1)] not_pushing_ok [OF q'(2)] s'(2) by simp
      then show ?thesis using tk' s' b q' r unfolding bounded_by_def by auto
    qed
  qed
qed

lemma bounded_run:
  assumes "size_ok Q" "sole_producer p as" "run Q as (init Q z) = Some s" "length as < 2 ^ 64"
  shows "bounded_by Q p (length as) s"
proof -
  have "bounded_by Q p 0 (init Q z)"
    using assms(1) by (simp add: bounded_by_def tickets_def init_def ArrayLockFreeQueue_def local_ok_def producer_ok_def size_ok_def)
  moreover have "bounded_by Q p (n + 1) u'" if "bounded_by Q p n u" "n + 1 < 2 ^ 64" "a \<in> set as" "perform Q a u = Some u'"
    for n u a u'
    using assms(2) that(3) by (intro bounded_step [OF assms(1) that(1,2,4)]) (auto simp: sole_producer_def)
  ultimately show ?thesis using run_invariant [where P = "bounded_by Q p" and n = 0, OF _ _ assms(3)] assms(4) by simp
qed

section \<open>The count\<close>

definition pushes :: "(nat \<times> 'a result) list \<Rightarrow> nat" where
  "pushes xs = length (filter (\<lambda>r. case snd r of Pushed b \<Rightarrow> b | Popped x \<Rightarrow> False) xs)"

definition pops :: "(nat \<times> 'a result) list \<Rightarrow> nat" where
  "pops xs = length (filter (\<lambda>r. case snd r of Pushed b \<Rightarrow> False | Popped x \<Rightarrow> x \<noteq> None) xs)"

fun stores :: "'a pc \<Rightarrow> bool" where
  "stores (PushStore x cw) = True"
| "stores PushAdd = True"
| "stores _ = False"

fun loads :: "'a pc \<Rightarrow> bool" where
  "loads (PopLoad cr) = True"
| "loads (PopSub x) = True"
| "loads _ = False"

definition counted :: "'a sys \<Rightarrow> bool" where
  "counted s \<longleftrightarrow> finite {t. at s t \<noteq> Out} \<and>
     m_writeIndex (shared s) = of_nat (pushes (log s)) + of_nat (card {t. stores (at s t)}) \<and>
     m_readIndex (shared s) = of_nat (pops (log s)) + of_nat (card {t. loads (at s t)}) \<and>
     m_count (shared s) = of_nat (pushes (log s)) - of_nat (pops (log s))"

lemma card_update:
  assumes "finite {u. f u \<noteq> z}" "\<not> P z"
  shows "card {u. P ((f(t := v)) u)} + (if P (f t) then 1 else 0) = card {u. P (f u)} + (if P v then 1 else (0::nat))"
proof -
  have fin: "finite {u. P (f u) \<and> u \<noteq> t}"
    by (rule finite_subset [OF _ assms(1)]) (use assms(2) in auto)
  have "card {u. P (g u)} = card {u. P (f u) \<and> u \<noteq> t} + (if P (g t) then 1 else 0)"
    if "\<And>u. u \<noteq> t \<Longrightarrow> g u = f u" for g
  proof (cases "P (g t)")
    case True
    then have "{u. P (g u)} = insert t {u. P (f u) \<and> u \<noteq> t}" using that by auto
    then show ?thesis using True fin by simp
  next
    case False
    then have "P (g u) \<longleftrightarrow> P (f u) \<and> u \<noteq> t" for u using that [of u] by (cases "u = t") auto
    then have "{u. P (g u)} = {u. P (f u) \<and> u \<noteq> t}" by simp
    then show ?thesis using False by simp
  qed
  from this [of "f(t := v)"] this [of f] show ?thesis by simp
qed

definition pushed :: "'a result option \<Rightarrow> QUEUE_INT" where
  "pushed res = (if res = Some (Pushed True) then 1 else 0)"

definition popped :: "'a result option \<Rightarrow> QUEUE_INT" where
  "popped res = (case res of Some (Popped (Some x)) \<Rightarrow> 1 | _ \<Rightarrow> 0)"

lemma advance_counts:
  assumes "advance Q p q = (res, p', q')"
  shows "m_writeIndex q' + (if stores p then 1 else 0) = m_writeIndex q + pushed res + (if stores p' then 1 else 0)"
    "m_readIndex q' + (if loads p then 1 else 0) = m_readIndex q + popped res + (if loads p' then 1 else 0)"
    "m_count q' = m_count q + pushed res - popped res"
  using assms by (cases p; auto simp: pushed_def popped_def split: if_splits)+

lemma log_counts:
  "of_nat (pushes (xs @ (case res of None \<Rightarrow> [] | Some x \<Rightarrow> [(t, x)]))) = of_nat (pushes xs) + pushed res"
  "of_nat (pops (xs @ (case res of None \<Rightarrow> [] | Some x \<Rightarrow> [(t, x)]))) = of_nat (pops xs) + popped res"
  by (auto simp: pushes_def pops_def pushed_def popped_def split: option.splits result.splits)

lemma balance:
  fixes a :: "'a::ab_group_add"
  assumes "a' + x = a + p + y" "a = l + c" "c' + x = c + y"
  shows "a' = l + p + c'"
proof -
  have "a' + x = l + p + (c + y)" using assms(1,2) by (simp add: ac_simps)
  also have "\<dots> = l + p + c' + x" using assms(3) by (simp add: ac_simps)
  finally show ?thesis by simp
qed

lemma counted_step:
  assumes inv: "counted s" and st: "perform Q a s = Some s'"
  shows "counted s'"
proof -
  have fin: "finite {u. at s u \<noteq> Out}" using inv by (simp add: counted_def)
  have upd: "card {u. stores (((at s)(t := v)) u)} + (if stores (at s t) then 1 else 0) =
      card {u. stores (at s u)} + (if stores v then 1 else 0)"
    "card {u. loads (((at s)(t := v)) u)} + (if loads (at s t) then 1 else 0) =
      card {u. loads (at s u)} + (if loads v then 1 else 0)" for t v
    by (rule card_update [OF fin]; simp)+
  have fin': "finite {u. ((at s)(t := v)) u \<noteq> Out}" for t v
    by (rule finite_subset [OF _ finite.insertI [OF fin, of t]]) auto
  show ?thesis
  proof (cases a)
    case (Begin t c)
    then have s': "s' = s\<lparr>at := (at s)(t := enter c)\<rparr>" "at s t = Out" using st by (auto split: pc.splits)
    have "\<not> stores (enter c) \<and> \<not> loads (enter c)" by (cases c) auto
    then show ?thesis using inv s' upd [of t "enter c"] fin' [of t "enter c"] by (simp add: counted_def)
  next
    case (Step t)
    obtain res p' q' where adv: "advance Q (at s t) (shared s) = (res, p', q')" by (metis prod_cases3)
    have s': "shared s' = q'" "at s' = (at s)(t := p')" "at s t \<noteq> Out"
      "log s' = log s @ (case res of None \<Rightarrow> [] | Some x \<Rightarrow> [(t, x)])" using st adv Step by (auto split: pc.splits)
    have w: "of_nat (card {u. stores (at s' u)}) + (if stores (at s t) then 1 else 0) =
        of_nat (card {u. stores (at s u)}) + (if stores p' then 1 else (0 :: u64))"
      using arg_cong [OF upd(1) [of t p'], of "of_nat :: nat \<Rightarrow> u64"] by (simp only: s'(2) of_nat_add semiring_1_class.of_nat_0 of_nat_1 if_distrib [of "of_nat :: nat \<Rightarrow> u64"])
    have r: "of_nat (card {u. loads (at s' u)}) + (if loads (at s t) then 1 else 0) =
        of_nat (card {u. loads (at s u)}) + (if loads p' then 1 else (0 :: u64))"
      using arg_cong [OF upd(2) [of t p'], of "of_nat :: nat \<Rightarrow> u64"] by (simp only: s'(2) of_nat_add semiring_1_class.of_nat_0 of_nat_1 if_distrib [of "of_nat :: nat \<Rightarrow> u64"])
    have "m_writeIndex q' = of_nat (pushes (log s')) + of_nat (card {u. stores (at s' u)}) \<and>
      m_readIndex q' = of_nat (pops (log s')) + of_nat (card {u. loads (at s' u)}) \<and>
      m_count q' = of_nat (pushes (log s')) - of_nat (pops (log s'))"
      using balance [OF advance_counts(1) [OF adv] _ w] balance [OF advance_counts(2) [OF adv] _ r] advance_counts(3) [OF adv] inv
      unfolding counted_def s'(4) log_counts by simp
    then show ?thesis using fin' [of t p'] s'(1,2) unfolding counted_def by simp
  qed
qed

lemma counted_run: "counted s \<Longrightarrow> run Q as s = Some s' \<Longrightarrow> counted s'"
  by (induction as arbitrary: s) (auto simp: bind_simps dest: counted_step)

end
