(* ===== verification/Lockfree_Correct.thy ===== *)
theory Lockfree_Correct
  imports Lockfree_Inv
begin

text \<open>
  The properties of the lock-free queue, and interleavings that lose elements.
\<close>

section \<open>The properties\<close>

text \<open>
  C19. With one thread the queue is a bounded first-in-first-out queue: any sequence of pushes and pops
  on a queue that is new returns, with the answers of a list of at most \<open>Q_SIZE - 1\<close> elements.
\<close>

theorem lockfree_sequential:
  assumes "size_ok Q"
  shows "\<exists>q. do_ops (push_alone Q) (pop_alone Q) ops (ArrayLockFreeQueue Q z) = Some (fst (spec_ops (unat Q - 1) ops []), q) \<and>
    holds Q q (snd (spec_ops (unat Q - 1) ops []))"
  by (rule bounded_queue.do_ops_spec [OF bounded_queue_laws [OF assms] new_holds [OF assms]])

lemma lockfree_sequential_witness:
  "\<exists>q. do_ops (push_alone Q_SIZE) (pop_alone Q_SIZE) [Enq 7, Deq, Deq] (ArrayLockFreeQueue Q_SIZE (0::int)) =
    Some ([Accepted True, Got (Some 7), Got None], q)"
  using lockfree_sequential [OF Q_SIZE_ok, of "[Enq 7, Deq, Deq]" 0] by (auto simp: Q_SIZE_def)

text \<open>
  C20. Whatever the threads do, in fewer steps than an index has values: the read index does not pass
  the write index, no two pushes store to the same index and no two pops load from the same index; a
  claimed index stays below the index of the queue that it was taken from.
\<close>

theorem lockfree_tickets:
  assumes "run Q as (init Q z) = Some s" "length as < 2 ^ 64"
  shows "unat (m_readIndex (shared s)) \<le> unat (m_writeIndex (shared s)) \<and>
    (\<forall>t x i. at s t = PushStore x i \<longrightarrow>
      unat i < unat (m_writeIndex (shared s)) \<and> (\<forall>u y. at s u = PushStore y i \<longrightarrow> u = t)) \<and>
    (\<forall>t i. at s t = PopLoad i \<longrightarrow>
      unat i < unat (m_readIndex (shared s)) \<and> (\<forall>u. at s u = PopLoad i \<longrightarrow> u = t))"
proof -
  have tk: "tickets (length as) s" by (rule tickets_run [OF assms])
  then have r: "unat (m_readIndex (shared s)) \<le> unat (m_writeIndex (shared s))" by (simp add: tickets_def)
  have l: "local_ok (shared s) (at s t)" for t using tk by (simp add: tickets_def)
  have push: "u = t" if "at s t = PushStore x i" "at s u = PushStore y i" for t u x y i
    using tk that unfolding tickets_def by (metis claimed_push.simps(1))
  have pop: "u = t" if "at s t = PopLoad i" "at s u = PopLoad i" for t u i
    using tk that unfolding tickets_def by (metis claimed_pop.simps(1))
  have "unat i < unat (m_writeIndex (shared s))" if "at s t = PushStore x i" for t x i
    using l [of t] that by (simp add: local_ok_def)
  moreover have "unat i < unat (m_readIndex (shared s))" if "at s t = PopLoad i" for t i
    using l [of t] that by (simp add: local_ok_def)
  ultimately show ?thesis using r push pop by blast
qed

text \<open>
  Whenever no call is in progress, the count is the difference of the indices, and of the numbers of
  pushes and of pops that have succeeded; no update of it is lost, whatever the interleaving.
\<close>

theorem lockfree_count:
  assumes "run Q as (init Q z) = Some s" "\<forall>t. at s t = Out"
  shows "queue_size (shared s) = m_writeIndex (shared s) - m_readIndex (shared s) \<and>
    queue_size (shared s) = of_nat (pushes (log s)) - of_nat (pops (log s))"
proof -
  have "counted (init Q z)" by (simp add: counted_def init_def ArrayLockFreeQueue_def pushes_def pops_def)
  from counted_run [OF this assms(1)] assms(2) show ?thesis by (simp add: counted_def queue_size_def)
qed

text \<open>
  As long as only one thread pushes, the queue never holds more than \<open>Q_SIZE - 1\<close> elements, however
  many threads pop.
\<close>

theorem lockfree_one_producer_bounded:
  assumes "size_ok Q" "sole_producer p as" "run Q as (init Q z) = Some s" "length as < 2 ^ 64"
  shows "unat (m_writeIndex (shared s)) < unat (m_readIndex (shared s)) + unat Q"
  using bounded_run [OF assms] by (simp add: bounded_by_def)

section \<open>Interleavings that lose elements\<close>

text \<open>\<open>push_by t x\<close> and \<open>pop_by t\<close>: a call of thread \<open>t\<close> from its beginning to its end, without interruption.\<close>

definition push_by :: "nat \<Rightarrow> 'a \<Rightarrow> 'a act list" where
  "push_by t x = Begin t (Push x) # replicate 6 (Step t)"

definition pop_by :: "nat \<Rightarrow> 'a act list" where
  "pop_by t = Begin t Pop # replicate 6 (Step t)"

text \<open>
  Thread 1 reads the read index, then others push and pop until the queue is full with the read index
  moved on; thread 1 does not see that it is full.
\<close>

definition stale_schedule :: "int act list" where
  "stale_schedule = push_by 2 1 @ [Begin 1 (Push 9), Step 1] @ pop_by 2 @ push_by 2 2 @ push_by 2 3 @ push_by 2 4 @
     replicate 5 (Step 1) @ [Begin 2 Pop, Step 2, Step 2, Step 2]"

text \<open>
  With two producers a push can miss that the queue is full, because it compares a read index read
  long before: in a queue of size 4 four elements are pushed and none of them is popped, and the next
  pop finds the queue empty.
\<close>

theorem lockfree_stale_read_index:
  "map_option (\<lambda>s. (log s, queue_size (shared s))) (run 4 stale_schedule (init 4 0)) =
    Some ([(2, Pushed True), (2, Popped (Some 1)), (2, Pushed True), (2, Pushed True), (2, Pushed True), (1, Pushed True),
      (2, Popped None)], 4)"
  by code_simp

text \<open>
  A pop can take an element that is not there yet: a push claims its index before it stores, and a pop
  in between returns what the array held before.
\<close>

theorem lockfree_pop_before_store:
  "map_option log (run 4 ([Begin 1 (Push 7)] @ replicate 5 (Step 1) @ pop_by 2 @ [Step 1]) (init 4 (0::int))) =
    Some [(2, Popped (Some 7)), (1, Pushed True)] \<and>
   map_option log (run 4 ([Begin 1 (Push 7)] @ replicate 4 (Step 1) @ pop_by 2 @ replicate 2 (Step 1)) (init 4 (0::int))) =
    Some [(2, Popped (Some 0)), (1, Pushed True)]"
  by (intro conjI; code_simp)

section \<open>Instances\<close>

text \<open>Thread 1 has claimed an index, thread 2 has pushed and popped.\<close>

definition two_threads :: "int act list" where
  "two_threads = [Begin 1 (Push 5)] @ replicate 4 (Step 1) @ push_by 2 7 @ Begin 2 Pop # replicate 4 (Step 2)"

lemma two_threads_run: "\<exists>s. run 4 two_threads (init 4 0) = Some s"
proof -
  have "\<not> Option.is_none (run 4 two_threads (init 4 0))" by code_simp
  then show ?thesis by (auto simp: Option.is_none_def)
qed

lemma size_ok_4: "size_ok 4"
  by (simp add: size_ok_def dvd_def)

lemma two_threads_short: "length two_threads < 2 ^ 64"
  by (simp add: two_threads_def push_by_def)

lemma lockfree_tickets_witness:
  "\<exists>s. run 4 two_threads (init 4 0) = Some s \<and> unat (m_readIndex (shared s)) \<le> unat (m_writeIndex (shared s)) \<and>
    (\<forall>u y. at s u = PushStore y 0 \<longrightarrow> at s 1 = PushStore 5 0 \<longrightarrow> u = 1)"
proof -
  obtain s where s: "run 4 two_threads (init 4 0) = Some s" using two_threads_run by blast
  from lockfree_tickets [OF s two_threads_short] s show ?thesis by blast
qed

lemma lockfree_count_witness:
  "\<exists>s. run 4 (push_by 1 7 @ push_by 2 8 @ pop_by 1) (init 4 (0::int)) = Some s \<and>
    queue_size (shared s) = m_writeIndex (shared s) - m_readIndex (shared s)"
proof -
  let ?as = "push_by 1 7 @ push_by 2 8 @ pop_by 1 :: int act list"
  have "\<not> Option.is_none (run 4 ?as (init 4 0))" by code_simp
  then obtain s where s: "run 4 ?as (init 4 0) = Some s" by (auto simp: Option.is_none_def)
  have away: "at s t = at u t" if "run Q as u = Some s" "\<forall>a\<in>set as. a \<noteq> Step t \<and> (\<forall>c. a \<noteq> Begin t c)"
    for as Q t and u s :: "int sys"
    using that
  proof (induction as arbitrary: u)
    case (Cons a as)
    then obtain v where v: "perform Q a u = Some v" "run Q as v = Some s" by (auto simp: bind_simps)
    moreover have "at v t = at u t" using v(1) Cons.prems(2) by (cases a) (auto split: pc.splits prod.splits)
    ultimately show ?case using Cons.IH [OF v(2)] Cons.prems(2) by simp
  qed simp
  have "at s t = Out" for t
  proof (cases "t = 1 \<or> t = 2")
    case True
    have "map_option (\<lambda>s. (at s 1, at s 2)) (run 4 ?as (init 4 0)) = Some (Out, Out)" by code_simp
    then show ?thesis using True s by auto
  next
    case False
    then show ?thesis using away [OF s, of t] by (auto simp: push_by_def pop_by_def init_def)
  qed
  then show ?thesis using lockfree_count [OF s] s by blast
qed

lemma lockfree_one_producer_bounded_witness:
  "\<exists>s. run 4 (push_by 1 7 @ pop_by 2 @ push_by 1 8) (init 4 (0::int)) = Some s \<and>
    unat (m_writeIndex (shared s)) < unat (m_readIndex (shared s)) + unat (4 :: QUEUE_INT)"
proof -
  let ?as = "push_by 1 7 @ pop_by 2 @ push_by 1 8 :: int act list"
  have "\<not> Option.is_none (run 4 ?as (init 4 0))" by code_simp
  then obtain s where s: "run 4 ?as (init 4 0) = Some s" by (auto simp: Option.is_none_def)
  have "sole_producer 1 ?as" "length ?as < 2 ^ 64" by (auto simp: sole_producer_def push_by_def pop_by_def)
  from lockfree_one_producer_bounded [OF size_ok_4 this(1) s this(2)] s show ?thesis by blast
qed

end
