(* ===== verification/Webserver.thy ===== *)
theory Webserver
  imports Prelude
begin

text \<open>
  The web server of \<open>src/webserver.c\<close>: the reactor with a growing table of events, and the request and the
  response of HTTP. Buffers are lists of bytes, an access outside of one is \<open>None\<close>. The epoll instance keeps,
  as documented, the event of each registered descriptor; the results of the socket calls, of \<open>malloc\<close> and of
  the file system are parameters.
\<close>

section \<open>Strings\<close>

definition chars :: "string \<Rightarrow> u8 list" where
  "chars s = map of_char s"

definition CR :: u8 where "CR = 13"
definition LF :: u8 where "LF = 10"
definition blank :: u8 where "blank = 32"

text \<open>The C string in a buffer; there is none without a terminating zero.\<close>

definition c_string :: "u8 list \<Rightarrow> u8 list option" where
  "c_string m = (if 0 \<in> set m then Some (takeWhile (\<lambda>c. c \<noteq> 0) m) else None)"

definition strstr :: "u8 list \<Rightarrow> u8 list \<Rightarrow> bool" where
  "strstr s pat = (\<exists>i\<in>set [0..<length s + 1]. take (length pat) (drop i s) = pat)"

text \<open>\<open>sprintf\<close> of a text into a buffer, with the zero behind it; the result is the length of the text.\<close>

definition sprintf :: "u8 list \<Rightarrow> u8 list \<Rightarrow> (int \<times> u8 list) option" where
  "sprintf m s = (if length s < length m then Some (int (length s), s @ 0 # drop (length s + 1) m) else None)"

text \<open>\<open>%ld\<close> of a number that is not negative.\<close>

fun decimal :: "nat \<Rightarrow> u8 list" where
  "decimal n = (if n < 10 then [] else decimal (n div 10)) @ [of_nat (48 + n mod 10)]"

declare decimal.simps [simp del]

section \<open>The data\<close>

definition BUFFER_LENGTH :: nat where "BUFFER_LENGTH = 4096"
definition MAX_EPOLL_EVENTS :: nat where "MAX_EPOLL_EVENTS = 1024"
definition HTTP_METHOD_GET :: int where "HTTP_METHOD_GET = 0"
definition EPOLLIN :: u32 where "EPOLLIN = 1"
definition EPOLLOUT :: u32 where "EPOLLOUT = 4"

datatype callback = No_cb | Recv_cb | Send_cb | Accept_cb

record ntyevent =
  ev_fd :: int
  events :: u32
  callback :: callback
  status :: int
  buffer :: "u8 list"
  len :: int
  http_method :: int
  resource :: "u8 list"
  ret_code :: int

text \<open>\<open>resource\<close> is the C string in the field. The blocks stand in the order of their list.\<close>

record ntyreactor =
  blkcnt :: int
  evblk :: "ntyevent list list"
  watch :: "int \<rightharpoonup> u32 \<times> nat \<times> nat"
  sent :: "(int \<times> u8 list) list"
  closed :: "int list"

definition zero_event :: ntyevent where
  "zero_event = \<lparr>ev_fd = 0, events = 0, callback = No_cb, status = 0, buffer = replicate BUFFER_LENGTH 0, len = 0,
     http_method = 0, resource = [], ret_code = 0\<rparr>"

section \<open>The table of events\<close>

text \<open>\<open>mem\<close> tells whether the two calls of \<open>malloc\<close> succeed.\<close>

definition ntyreactor_alloc :: "bool \<times> bool \<Rightarrow> ntyreactor \<Rightarrow> int \<times> ntyreactor" where
  "ntyreactor_alloc mem r =
     (if evblk r = [] then (- 1, r)
      else if \<not> fst mem then (- 2, r)
      else if \<not> snd mem then (- 2, r)
      else (0, r\<lparr>evblk := evblk r @ [replicate MAX_EPOLL_EVENTS zero_event], blkcnt := blkcnt r + 1\<rparr>))"

text \<open>\<open>mem k\<close> is what \<open>malloc\<close> does in the \<open>k\<close>-th round; the return value is not looked at.\<close>

partial_function (option) grow :: "(nat \<Rightarrow> bool \<times> bool) \<Rightarrow> nat \<Rightarrow> int \<Rightarrow> ntyreactor \<Rightarrow> ntyreactor option" where
  "grow mem k blkidx r =
     (if blkidx \<ge> blkcnt r then grow mem (k + 1) blkidx (snd (ntyreactor_alloc (mem k) r)) else Some r)"

text \<open>The place of the event of a descriptor: its block and its index there. The walk to a block that the
  list does not have ends at the null pointer, which is dereferenced.\<close>

definition ntyreactor_idx ::
  "(nat \<Rightarrow> bool \<times> bool) \<Rightarrow> int \<Rightarrow> ntyreactor \<Rightarrow> ((nat \<times> nat) \<times> ntyreactor) option" where
  "ntyreactor_idx mem sockfd r =
     (if sockfd < 0 then None
      else do {
        let blkidx = sockfd div int MAX_EPOLL_EVENTS;
        r \<leftarrow> grow mem 0 blkidx r;
        if nat blkidx < length (evblk r) then Some ((nat blkidx, nat (sockfd mod int MAX_EPOLL_EVENTS)), r) else None
      })"

definition get_ev :: "ntyreactor \<Rightarrow> nat \<times> nat \<Rightarrow> ntyevent option" where
  "get_ev r l = (case l of (b, j) \<Rightarrow>
     if b < length (evblk r) \<and> j < length (evblk r ! b) then Some (evblk r ! b ! j) else None)"

definition put_ev :: "nat \<times> nat \<Rightarrow> ntyevent \<Rightarrow> ntyreactor \<Rightarrow> ntyreactor" where
  "put_ev l ev r = (case l of (b, j) \<Rightarrow> r\<lparr>evblk := (evblk r)[b := (evblk r ! b)[j := ev]]\<rparr>)"

definition ntyreactor_init :: "int \<Rightarrow> bool \<times> bool \<Rightarrow> int \<times> ntyreactor" where
  "ntyreactor_init epfd mem = (
     let r = \<lparr>blkcnt = 0, evblk = [], watch = Map.empty, sent = [], closed = []\<rparr> in
     if epfd \<le> 0 then (- 2, r)
     else if \<not> fst mem then (- 2, r)
     else if \<not> snd mem then (- 2, r)
     else (0, r\<lparr>evblk := [replicate MAX_EPOLL_EVENTS zero_event], blkcnt := 1\<rparr>))"

section \<open>Registration\<close>

datatype ctl = EPOLL_CTL_ADD | EPOLL_CTL_MOD | EPOLL_CTL_DEL

definition epoll_ctl :: "ctl \<Rightarrow> int \<Rightarrow> u32 \<times> nat \<times> nat \<Rightarrow> ntyreactor \<Rightarrow> int \<times> ntyreactor" where
  "epoll_ctl op fd e r = (case op of
       EPOLL_CTL_ADD \<Rightarrow> if watch r fd = None then (0, r\<lparr>watch := (watch r)(fd \<mapsto> e)\<rparr>) else (- 1, r)
     | EPOLL_CTL_MOD \<Rightarrow> if watch r fd = None then (- 1, r) else (0, r\<lparr>watch := (watch r)(fd \<mapsto> e)\<rparr>)
     | EPOLL_CTL_DEL \<Rightarrow> if watch r fd = None then (- 1, r) else (0, r\<lparr>watch := (watch r)(fd := None)\<rparr>))"

definition close :: "int \<Rightarrow> ntyreactor \<Rightarrow> ntyreactor" where
  "close fd r = r\<lparr>watch := (watch r)(fd := None), closed := closed r @ [fd]\<rparr>"

definition nty_event_set :: "nat \<times> nat \<Rightarrow> int \<Rightarrow> callback \<Rightarrow> ntyreactor \<Rightarrow> ntyreactor option" where
  "nty_event_set l fd cb r = do {
     ev \<leftarrow> get_ev r l;
     Some (put_ev l (ev\<lparr>ev_fd := fd, callback := cb, events := 0\<rparr>) r)
   }"

definition nty_event_add :: "u32 \<Rightarrow> nat \<times> nat \<Rightarrow> ntyreactor \<Rightarrow> (int \<times> ntyreactor) option" where
  "nty_event_add ems l r = do {
     ev \<leftarrow> get_ev r l;
     let ev = ev\<lparr>events := ems\<rparr>;
     let (op, ev) = (if status ev = 1 then (EPOLL_CTL_MOD, ev) else (EPOLL_CTL_ADD, ev\<lparr>status := 1\<rparr>));
     let r = put_ev l ev r;
     let (ret, r) = epoll_ctl op (ev_fd ev) (ems, l) r;
     Some (if ret < 0 then (- 1, r) else (0, r))
   }"

definition nty_event_del :: "nat \<times> nat \<Rightarrow> ntyreactor \<Rightarrow> (int \<times> ntyreactor) option" where
  "nty_event_del l r = do {
     ev \<leftarrow> get_ev r l;
     if status ev \<noteq> 1 then Some (- 1, r)
     else do {
       let r = put_ev l (ev\<lparr>status := 0\<rparr>) r;
       let (ret, r) = epoll_ctl EPOLL_CTL_DEL (ev_fd ev) (0, l) r;
       Some (0, r)
     }
   }"

section \<open>The request\<close>

text \<open>\<open>readline_loop allbuf idx linebuf j k\<close>: the iterations from \<open>idx\<close> on, \<open>k\<close> of them left; \<open>linebuf\<close> is
  filled from \<open>j\<close> on.\<close>

fun readline_loop :: "u8 list \<Rightarrow> nat \<Rightarrow> u8 list \<Rightarrow> nat \<Rightarrow> nat \<Rightarrow> (int \<times> u8 list) option" where
  "readline_loop allbuf idx linebuf j 0 = Some (- 1, linebuf)"
| "readline_loop allbuf idx linebuf j (Suc k) =
     (if allbuf ! idx = CR \<and> allbuf ! (idx + 1) = LF then Some (int idx + 2, linebuf)
      else if j < length linebuf then readline_loop allbuf (idx + 1) (linebuf[j := allbuf ! idx]) (j + 1) k
      else None)"

definition readline :: "u8 list \<Rightarrow> nat \<Rightarrow> u8 list \<Rightarrow> (int \<times> u8 list) option" where
  "readline allbuf idx linebuf = do {
     s \<leftarrow> c_string allbuf;
     readline_loop allbuf idx linebuf 0 (length s - idx)
   }"

text \<open>The search for the blank behind the path; \<open>k\<close> bytes of the line are left.\<close>

fun find_blank :: "u8 list \<Rightarrow> nat \<Rightarrow> nat \<Rightarrow> nat option" where
  "find_blank linebuf i 0 = None"
| "find_blank linebuf i (Suc k) = (if linebuf ! i \<noteq> blank then find_blank linebuf (i + 1) k else Some i)"

text \<open>\<open>sizeof("GET ")\<close> is 5.\<close>

definition sizeof_GET :: nat where "sizeof_GET = 5"

definition http_request :: "ntyevent \<Rightarrow> ntyevent option" where
  "http_request ev = do {
     (idx, linebuf) \<leftarrow> readline (buffer ev) 0 (replicate 1024 0);
     line \<leftarrow> c_string linebuf;
     if strstr line (chars ''GET'') then do {
       let ev = ev\<lparr>http_method := HTTP_METHOD_GET\<rparr>;
       i \<leftarrow> find_blank linebuf sizeof_GET (length linebuf - sizeof_GET);
       let linebuf = linebuf[i := 0];
       uri \<leftarrow> c_string (drop sizeof_GET linebuf);
       Some (ev\<lparr>resource := chars ''./'' @ chars ''html'' @ chars ''/'' @ uri\<rparr>)
     } else Some ev
   }"

section \<open>The response\<close>

datatype fnode = Directory | Regular "u8 list" | Special

type_synonym files = "u8 list \<rightharpoonup> fnode"

definition crlf :: "u8 list" where "crlf = [CR, LF]"

definition not_found_head :: "u8 list" where
  "not_found_head = chars ''HTTP/1.1 404 Not Found'' @ crlf @
     chars ''Date: Thu, 11 Nov 2021 12:28:52 GMT'' @ crlf @
     chars ''Content-Type: text/html;charset=ISO-8859-1'' @ crlf @
     chars ''Content-Length: 85'' @ crlf @ crlf"

definition not_found_body :: "u8 list" where
  "not_found_body =
     chars ''<html><head><title>404 Not Found</title></head><body><H1>404</H1></body></html>'' @ crlf @ crlf"

definition ok_head :: "nat \<Rightarrow> u8 list" where
  "ok_head sz = chars ''HTTP/1.1 200 OK'' @ crlf @
     chars ''Date: Thu, 11 Nov 2021 12:28:52 GMT'' @ crlf @
     chars ''Content-Type: text/html;charset=ISO-8859-1'' @ crlf @
     chars ''Content-Length: '' @ decimal sz @ crlf @ crlf"

definition not_found :: "ntyevent \<Rightarrow> ntyevent option" where
  "not_found ev = do {
     (n, buf) \<leftarrow> sprintf (buffer ev) (not_found_head @ not_found_body);
     Some (ev\<lparr>ret_code := 404, buffer := buf, len := n\<rparr>)
   }"

definition http_response :: "files \<Rightarrow> ntyevent \<Rightarrow> (int \<times> ntyevent) option" where
  "http_response fs ev = do {
     let ev = ev\<lparr>buffer := replicate BUFFER_LENGTH 0\<rparr>;
     ev \<leftarrow> (case fs (resource ev) of
          None \<Rightarrow> not_found ev
        | Some Directory \<Rightarrow> not_found ev
        | Some (Regular content) \<Rightarrow> do {
            (n, buf) \<leftarrow> sprintf (buffer ev) (ok_head (length content));
            Some (ev\<lparr>ret_code := 200, buffer := buf, len := n\<rparr>)
          }
        | Some Special \<Rightarrow> Some ev);
     Some (len ev, ev)
   }"

section \<open>The callbacks\<close>

definition recv_cb :: "(nat \<Rightarrow> bool \<times> bool) \<Rightarrow> u8 list option \<Rightarrow> int \<Rightarrow> ntyreactor \<Rightarrow> (int \<times> ntyreactor) option" where
  "recv_cb mem got fd r = do {
     (l, r) \<leftarrow> ntyreactor_idx mem fd r;
     ev \<leftarrow> get_ev r l;
     let n = (case got of None \<Rightarrow> - 1 | Some d \<Rightarrow> int (length d));
     let buf = (case got of None \<Rightarrow> buffer ev | Some d \<Rightarrow> d @ drop (length d) (buffer ev));
     if n > 0 then do {
       buf \<leftarrow> (if nat n < length buf then Some (buf[nat n := 0]) else None);
       ev \<leftarrow> http_request (ev\<lparr>buffer := buf, len := n\<rparr>);
       let r = put_ev l ev r;
       (ret, r) \<leftarrow> nty_event_del l r;
       r \<leftarrow> nty_event_set l fd Send_cb r;
       (ret, r) \<leftarrow> nty_event_add EPOLLOUT l r;
       Some (n, r)
     } else do {
       let r = put_ev l (ev\<lparr>buffer := buf\<rparr>) r;
       (ret, r) \<leftarrow> nty_event_del l r;
       ev \<leftarrow> get_ev r l;
       Some (n, close (ev_fd ev) r)
     }
   }"

text \<open>\<open>n\<close> is the result of \<open>send\<close>, \<open>m\<close> the number of bytes that \<open>sendfile\<close> sends of the file.\<close>

definition send_cb ::
  "(nat \<Rightarrow> bool \<times> bool) \<Rightarrow> files \<Rightarrow> int \<Rightarrow> nat \<Rightarrow> int \<Rightarrow> ntyreactor \<Rightarrow> (int \<times> ntyreactor) option" where
  "send_cb mem fs n m fd r = do {
     (l, r) \<leftarrow> ntyreactor_idx mem fd r;
     ev \<leftarrow> get_ev r l;
     (ret, ev) \<leftarrow> http_response fs ev;
     let r = put_ev l ev r;
     if n > 0 then do {
       let r = r\<lparr>sent := sent r @ [(fd, take (nat n) (buffer ev))]\<rparr>;
       let r = (if ret_code ev = 200 then
                  (case fs (resource ev) of Some (Regular content) \<Rightarrow> r\<lparr>sent := sent r @ [(fd, take m content)]\<rparr> | _ \<Rightarrow> r)
                else r);
       (ret, r) \<leftarrow> nty_event_del l r;
       r \<leftarrow> nty_event_set l fd Recv_cb r;
       (ret, r) \<leftarrow> nty_event_add EPOLLIN l r;
       Some (n, r)
     } else do {
       let r = close (ev_fd ev) r;
       (ret, r) \<leftarrow> nty_event_del l r;
       Some (n, r)
     }
   }"

text \<open>\<open>clientfd\<close> and \<open>flag\<close> are the results of \<open>accept\<close> and of \<open>fcntl\<close>.\<close>

definition accept_cb :: "(nat \<Rightarrow> bool \<times> bool) \<Rightarrow> int \<Rightarrow> int \<Rightarrow> int \<Rightarrow> ntyreactor \<Rightarrow> (int \<times> ntyreactor) option" where
  "accept_cb mem clientfd flag fd r =
     (if clientfd = - 1 then Some (- 1, r)
      else if flag < 0 then Some (- 1, r)
      else do {
        (l, r) \<leftarrow> ntyreactor_idx mem clientfd r;
        r \<leftarrow> nty_event_set l clientfd Recv_cb r;
        (ret, r) \<leftarrow> nty_event_add EPOLLIN l r;
        Some (0, r)
      })"

definition ntyreactor_addlistener ::
  "(nat \<Rightarrow> bool \<times> bool) \<Rightarrow> int \<Rightarrow> callback \<Rightarrow> ntyreactor \<Rightarrow> (int \<times> ntyreactor) option" where
  "ntyreactor_addlistener mem sockfd acceptor r =
     (if evblk r = [] then Some (- 1, r)
      else do {
        (l, r) \<leftarrow> ntyreactor_idx mem sockfd r;
        r \<leftarrow> nty_event_set l sockfd acceptor r;
        (ret, r) \<leftarrow> nty_event_add EPOLLIN l r;
        Some (0, r)
      })"

section \<open>The loop\<close>

record io =
  memory :: "nat \<Rightarrow> bool \<times> bool"
  filesystem :: files
  recv_got :: "int \<Rightarrow> u8 list option"
  send_ret :: "int \<Rightarrow> int"
  sendfile_ret :: "int \<Rightarrow> nat"
  accept_fd :: "int \<Rightarrow> int"
  fcntl_flag :: int

definition call :: "io \<Rightarrow> callback \<Rightarrow> int \<Rightarrow> ntyreactor \<Rightarrow> ntyreactor option" where
  "call w cb fd r = (case cb of
       No_cb \<Rightarrow> None
     | Recv_cb \<Rightarrow> map_option snd (recv_cb (memory w) (recv_got w fd) fd r)
     | Send_cb \<Rightarrow> map_option snd (send_cb (memory w) (filesystem w) (send_ret w fd) (sendfile_ret w fd) fd r)
     | Accept_cb \<Rightarrow> map_option snd (accept_cb (memory w) (accept_fd w fd) (fcntl_flag w) fd r))"

definition dispatch :: "io \<Rightarrow> (nat \<times> nat) \<times> u32 \<Rightarrow> ntyreactor \<Rightarrow> ntyreactor option" where
  "dispatch w = (\<lambda>(l, got) r. do {
     ev \<leftarrow> get_ev r l;
     r \<leftarrow> (if got AND EPOLLIN \<noteq> 0 \<and> events ev AND EPOLLIN \<noteq> 0 then call w (callback ev) (ev_fd ev) r else Some r);
     ev \<leftarrow> get_ev r l;
     if got AND EPOLLOUT \<noteq> 0 \<and> events ev AND EPOLLOUT \<noteq> 0 then call w (callback ev) (ev_fd ev) r else Some r
   })"

fun dispatch_all :: "io \<Rightarrow> ((nat \<times> nat) \<times> u32) list \<Rightarrow> ntyreactor \<Rightarrow> ntyreactor option" where
  "dispatch_all w [] r = Some r"
| "dispatch_all w (e # es) r = dispatch w e r \<bind> dispatch_all w es"

text \<open>The rounds of the loop: what \<open>epoll_wait\<close> reports, or that it fails, and the calls of the round.\<close>

fun ntyreactor_run :: "(((nat \<times> nat) \<times> u32) list option \<times> io) list \<Rightarrow> ntyreactor \<Rightarrow> ntyreactor option" where
  "ntyreactor_run [] r = Some r"
| "ntyreactor_run ((None, w) # xs) r = ntyreactor_run xs r"
| "ntyreactor_run ((Some es, w) # xs) r = dispatch_all w es r \<bind> ntyreactor_run xs"

lemmas web_loops [code] = grow.simps

end
