(* ===== verification/Webserver_Table.thy ===== *)
theory Webserver_Table
  imports Webserver
begin

text \<open>
  The table of events of the web server: how it grows, and where the event of a descriptor is.
\<close>

section \<open>The table of events\<close>

definition table_ok :: "ntyreactor \<Rightarrow> bool" where
  "table_ok r \<longleftrightarrow> evblk r \<noteq> [] \<and> blkcnt r = int (length (evblk r)) \<and>
     (\<forall>b\<in>set (evblk r). length b = MAX_EPOLL_EVENTS \<and> (\<forall>ev\<in>set b. length (buffer ev) = BUFFER_LENGTH))"

definition got_memory :: "(nat \<Rightarrow> bool \<times> bool) \<Rightarrow> nat \<Rightarrow> bool" where
  "got_memory mem k \<longleftrightarrow> mem k = (True, True)"

definition empty_block :: "ntyevent list" where
  "empty_block = replicate MAX_EPOLL_EVENTS zero_event"

text \<open>The table with so many more blocks.\<close>

definition more_blocks :: "nat \<Rightarrow> ntyreactor \<Rightarrow> ntyreactor" where
  "more_blocks n r = r\<lparr>evblk := evblk r @ replicate n empty_block, blkcnt := blkcnt r + int n\<rparr>"

lemma more_blocks_0 [simp]: "more_blocks 0 r = r"
  by (simp add: more_blocks_def)

lemma more_blocks_Suc: "more_blocks (Suc n) r = more_blocks n (more_blocks 1 r)"
  by (simp add: more_blocks_def)

lemma alloc_ok:
  assumes "table_ok r"
  shows "snd (ntyreactor_alloc (mem k) r) = (if got_memory mem k then more_blocks 1 r else r)"
  using assms by (cases "mem k") (auto simp: ntyreactor_alloc_def more_blocks_def empty_block_def got_memory_def table_ok_def)

lemma table_ok_more: "table_ok r \<Longrightarrow> table_ok (more_blocks n r)"
  by (auto simp: table_ok_def more_blocks_def empty_block_def zero_event_def)

lemma grow_done: "blkidx < blkcnt r \<Longrightarrow> grow mem k blkidx r = Some r"
  by (subst grow.simps) simp

lemma grow_retry:
  assumes "table_ok r" "blkidx \<ge> blkcnt r" "\<forall>i. k \<le> i \<longrightarrow> i < k + n \<longrightarrow> \<not> got_memory mem i"
  shows "grow mem k blkidx r = grow mem (k + n) blkidx r"
  using assms(3)
proof (induction n arbitrary: k)
  case (Suc n)
  have "grow mem k blkidx r = grow mem (k + 1) blkidx r"
    using assms(1,2) Suc.prems by (subst grow.simps) (simp add: alloc_ok)
  also have "\<dots> = grow mem (k + 1 + n) blkidx r" by (rule Suc.IH) (use Suc.prems in auto)
  finally show ?case by simp
qed simp

lemma grow_ok:
  assumes "table_ok r" "blkidx < blkcnt r + int n" "n = 0 \<or> blkidx = blkcnt r + int n - 1" "\<forall>k. \<exists>j\<ge>k. got_memory mem j"
  shows "grow mem k blkidx r = Some (more_blocks n r)"
  using assms(1-3)
proof (induction n arbitrary: r k)
  case 0
  then show ?case by (simp add: grow_done)
next
  case (Suc n)
  then have ge: "blkidx \<ge> blkcnt r" by simp
  have ex: "\<exists>j. k \<le> j \<and> got_memory mem j" using assms(4) by blast
  define j where "j = (LEAST j. k \<le> j \<and> got_memory mem j)"
  have j: "k \<le> j" "got_memory mem j" using LeastI_ex [OF ex] by (simp_all add: j_def)
  have "\<not> got_memory mem i" if "k \<le> i" "i < j" for i
    using not_less_Least [of i "\<lambda>j. k \<le> j \<and> got_memory mem j"] that by (simp add: j_def)
  then have "\<forall>i. k \<le> i \<longrightarrow> i < k + (j - k) \<longrightarrow> \<not> got_memory mem i" using j(1) by simp
  from grow_retry [OF Suc.prems(1) ge this] have "grow mem k blkidx r = grow mem j blkidx r" using j(1) by simp
  also have "\<dots> = grow mem (j + 1) blkidx (snd (ntyreactor_alloc (mem j) r))"
    using ge by (subst grow.simps) simp
  also have "\<dots> = grow mem (j + 1) blkidx (more_blocks 1 r)" by (simp only: alloc_ok [OF Suc.prems(1)] j(2) if_True)
  also have "\<dots> = Some (more_blocks n (more_blocks 1 r))"
  proof (rule Suc.IH)
    show "table_ok (more_blocks 1 r)" by (rule table_ok_more [OF Suc.prems(1)])
    show "blkidx < blkcnt (more_blocks 1 r) + int n" "n = 0 \<or> blkidx = blkcnt (more_blocks 1 r) + int n - 1"
      using Suc.prems(2,3) by (auto simp: more_blocks_def)
  qed
  finally show ?case unfolding more_blocks_Suc [of n r] .
qed

lemma grow_diverges:
  assumes "table_ok r" "blkidx \<ge> blkcnt r" "\<forall>j. \<not> got_memory mem j"
  shows "grow mem k blkidx r = None"
proof (cases "grow mem k blkidx r")
  case (Some r')
  have "\<not> (table_ok r \<and> blkidx \<ge> blkcnt r)"
    by (rule grow.raw_induct [OF _ Some, where P = "\<lambda>m k b r r'. m = mem \<longrightarrow> \<not> (table_ok r \<and> b \<ge> blkcnt r)", rule_format])
      (use assms(3) in \<open>auto simp: alloc_ok split: if_splits\<close>)
  then show ?thesis using assms(1,2) by simp
qed simp

definition place :: "int \<Rightarrow> nat \<times> nat" where
  "place fd = (nat fd div MAX_EPOLL_EVENTS, nat fd mod MAX_EPOLL_EVENTS)"

text \<open>The number of blocks that are missing for a descriptor.\<close>

definition missing :: "int \<Rightarrow> ntyreactor \<Rightarrow> nat" where
  "missing fd r = nat fd div MAX_EPOLL_EVENTS + 1 - length (evblk r)"

lemma idx_ok:
  assumes "table_ok r" "0 \<le> fd" "\<forall>k. \<exists>j\<ge>k. got_memory mem j"
  shows "ntyreactor_idx mem fd r = Some (place fd, more_blocks (missing fd r) r)"
proof -
  define b where "b = nat fd div MAX_EPOLL_EVENTS"
  have b: "fd div int MAX_EPOLL_EVENTS = int b" "nat (fd mod int MAX_EPOLL_EVENTS) = nat fd mod MAX_EPOLL_EVENTS"
    using assms(2) by (simp_all add: b_def zdiv_int nat_mod_distrib)
  have c: "blkcnt r = int (length (evblk r))" using assms(1) by (simp add: table_ok_def)
  have "grow mem 0 (int b) r = Some (more_blocks (missing fd r) r)"
    by (rule grow_ok [OF assms(1) _ _ assms(3)]) (use c in \<open>auto simp: missing_def b_def\<close>)
  moreover have "b < length (evblk (more_blocks (missing fd r) r))" by (simp add: more_blocks_def missing_def b_def)
  ultimately show ?thesis using assms(2) b by (simp add: ntyreactor_idx_def place_def b_def)
qed

lemma place_inj: "0 \<le> fd \<Longrightarrow> 0 \<le> fd' \<Longrightarrow> place fd = place fd' \<Longrightarrow> fd = fd'"
  by (metis place_def prod.inject div_mult_mod_eq nat_0_le)

lemma get_more: "get_ev r l = Some ev \<Longrightarrow> get_ev (more_blocks n r) l = Some ev"
  by (auto simp: get_ev_def more_blocks_def nth_append split: prod.splits if_splits)

lemma get_ok: "table_ok r \<Longrightarrow> get_ev r l = Some ev \<Longrightarrow> length (buffer ev) = BUFFER_LENGTH"
  by (cases l) (auto simp: table_ok_def get_ev_def split: if_splits dest!: nth_mem)

lemma get_place:
  assumes "table_ok r" "0 \<le> fd"
  shows "get_ev (more_blocks (missing fd r) r) (place fd) =
    Some (if missing fd r = 0 then evblk r ! fst (place fd) ! snd (place fd) else zero_event)"
proof -
  have l: "b \<in> set (evblk r) \<Longrightarrow> length b = MAX_EPOLL_EVENTS" for b using assms(1) by (simp add: table_ok_def)
  have m: "nat fd mod MAX_EPOLL_EVENTS < MAX_EPOLL_EVENTS" by (simp add: MAX_EPOLL_EVENTS_def)
  show ?thesis
  proof (cases "missing fd r = 0")
    case True
    then have "nat fd div MAX_EPOLL_EVENTS < length (evblk r)" by (simp add: missing_def)
    then show ?thesis using True m l by (simp add: get_ev_def place_def)
  next
    case False
    then have "length (evblk r) \<le> nat fd div MAX_EPOLL_EVENTS" by (simp add: missing_def)
    then show ?thesis using False m
      by (simp add: get_ev_def place_def more_blocks_def nth_append missing_def empty_block_def)
  qed
qed

lemma put_ok:
  assumes "table_ok r" "get_ev r l = Some ev'" "length (buffer ev) = BUFFER_LENGTH"
  shows "table_ok (put_ev l ev r) \<and> get_ev (put_ev l ev r) l = Some ev \<and>
    (\<forall>l'. l' \<noteq> l \<longrightarrow> get_ev (put_ev l ev r) l' = get_ev r l')"
proof -
  obtain b j where l: "l = (b, j)" by (cases l)
  have b: "b < length (evblk r)" "j < length (evblk r ! b)" using assms(2) l by (auto simp: get_ev_def split: if_splits)
  have old: "length c = MAX_EPOLL_EVENTS" "ev \<in> set c \<Longrightarrow> length (buffer ev) = BUFFER_LENGTH" if "c \<in> set (evblk r)" for c ev
    using assms(1) that by (auto simp: table_ok_def)
  have "length c = MAX_EPOLL_EVENTS \<and> (\<forall>e\<in>set c. length (buffer e) = BUFFER_LENGTH)"
    if "c \<in> set ((evblk r)[b := (evblk r ! b)[j := ev]])" for c
  proof -
    have "c = (evblk r ! b)[j := ev] \<or> c \<in> set (evblk r)" using that set_update_subset_insert by fastforce
    then show ?thesis
    proof
      assume c: "c = (evblk r ! b)[j := ev]"
      then have "e = ev \<or> e \<in> set (evblk r ! b)" if "e \<in> set c" for e using that set_update_subset_insert by fastforce
      then show ?thesis using c old [of "evblk r ! b"] b(1) assms(3) by auto
    qed (use old in auto)
  qed
  then have "table_ok (put_ev l ev r)" using assms(1) l by (simp add: table_ok_def put_ev_def)
  moreover have "get_ev (put_ev l ev r) l = Some ev" using l b by (simp add: put_ev_def get_ev_def)
  moreover have "get_ev (put_ev l ev r) l' = get_ev r l'" if "l' \<noteq> l" for l'
    using that l b by (cases l') (auto simp: put_ev_def get_ev_def nth_list_update)
  ultimately show ?thesis by blast
qed

end
