(* ===== verification/Webserver_Http.thy ===== *)
theory Webserver_Http
  imports Webserver_Table
begin

text \<open>
  The request line, the response, and the registration of an event of the web server.
\<close>

section \<open>Reading the request line\<close>

definition plain :: "u8 list \<Rightarrow> bool" where
  "plain s \<longleftrightarrow> 0 \<notin> set s \<and> CR \<notin> set s"

lemma chars_append [simp]: "chars (a @ b) = chars a @ chars b"
  by (simp add: chars_def)

lemma c_string_append: "0 \<notin> set s \<Longrightarrow> c_string (s @ 0 # rest) = Some s"
  by (simp add: c_string_def takeWhile_append)

lemma readline_loop_line:
  assumes "drop idx buf = s @ CR # LF # rest" "CR \<notin> set s" "length s < k" "j + length s \<le> length linebuf"
  shows "readline_loop buf idx linebuf j k =
    Some (int (idx + length s) + 2, take j linebuf @ s @ drop (j + length s) linebuf)"
  using assms
proof (induction s arbitrary: idx linebuf j k)
  case Nil
  then obtain k' where k: "k = Suc k'" by (cases k) auto
  have "buf ! idx = CR" "buf ! (idx + 1) = LF"
    using Nil.prems(1) nth_via_drop [of idx buf CR] nth_via_drop [of "idx + 1" buf LF rest]
    by (auto simp: drop_Suc [of idx] simp flip: drop_drop tl_drop)
  then show ?case using k by simp
next
  case (Cons c s)
  then obtain k' where k: "k = Suc k'" by (cases k) auto
  have d: "drop (idx + 1) buf = s @ CR # LF # rest" "buf ! idx = c"
    using Cons.prems(1) nth_via_drop [of idx buf c "s @ CR # LF # rest"] by (auto simp: drop_Suc simp flip: tl_drop)
  have "readline_loop buf idx linebuf j k = readline_loop buf (idx + 1) (linebuf[j := c]) (j + 1) k'"
    using Cons.prems(2,4) k d(2) by (simp add: eq_commute [of c])
  also have "\<dots> = Some (int (idx + 1 + length s) + 2,
      take (j + 1) (linebuf[j := c]) @ s @ drop (j + 1 + length s) (linebuf[j := c]))"
    by (rule Cons.IH [OF d(1)]) (use Cons.prems k in auto)
  also have "take (j + 1) (linebuf[j := c]) = take j linebuf @ [c]"
    using Cons.prems(4) by (simp add: take_Suc_conv_app_nth)
  finally show ?case by (simp add: drop_update_cancel)
qed

text \<open>A buffer with a request: the line, its end, and whatever follows.\<close>

lemma readline_request:
  assumes "buf = s @ CR # LF # rest" "plain s" "0 \<in> set rest" "length s < 1024"
  shows "readline buf 0 (replicate 1024 0) = Some (int (length s) + 2, s @ replicate (1024 - length s) 0)"
proof -
  have "c_string buf = Some (s @ CR # LF # takeWhile (\<lambda>c. c \<noteq> 0) rest)"
    using assms(1-3) by (auto simp: c_string_def plain_def takeWhile_append CR_def LF_def)
  then show ?thesis using assms readline_loop_line [of 0 buf s rest _ 0 "replicate 1024 0"]
    by (simp add: readline_def plain_def del: readline_loop.simps)
qed

lemma find_blank_found:
  assumes "blank \<notin> set s" "drop i buf = s @ blank # rest" "length s < k"
  shows "find_blank buf i k = Some (i + length s)"
  using assms
proof (induction s arbitrary: i k)
  case Nil
  then show ?case using nth_via_drop [of i buf blank rest] by (cases k) auto
next
  case (Cons c s)
  then have "drop (i + 1) buf = s @ blank # rest" "buf ! i = c"
    using nth_via_drop [of i buf c "s @ blank # rest"] by (auto simp: drop_Suc simp flip: tl_drop)
  then show ?case using Cons.IH [of "i + 1" "k - 1"] Cons.prems by (cases k) auto
qed

lemma find_blank_none: "\<forall>j. i \<le> j \<longrightarrow> j < i + k \<longrightarrow> buf ! j \<noteq> blank \<Longrightarrow> find_blank buf i k = None"
  by (induction k arbitrary: i) auto

lemma strstr_prefix: "strstr (pat @ s) pat"
  by (auto simp: strstr_def intro!: bexI [of _ 0])

section \<open>The request\<close>

definition GET :: "u8 list" where "GET = chars ''GET /''"

lemma GET_props: "length GET = sizeof_GET" "plain GET" "GET = chars ''GET'' @ chars '' /''"
  by (simp_all add: GET_def chars_def sizeof_GET_def plain_def CR_def)

definition web_root :: "u8 list" where "web_root = chars ''./html/''"

lemma web_root_eq: "chars ''./'' @ chars ''html'' @ chars ''/'' @ s = web_root @ s"
  by (simp add: web_root_def chars_def)

text \<open>A request line: \<open>GET /path version\<close>.\<close>

definition get_line :: "u8 list \<Rightarrow> u8 list \<Rightarrow> u8 list" where
  "get_line path version = GET @ path @ blank # version"

lemma http_request_get:
  assumes buf: "buffer ev = get_line path version @ CR # LF # rest" "0 \<in> set rest"
    and p: "plain path" "blank \<notin> set path" "plain version" "length (get_line path version) < 1024"
  shows "http_request ev = Some (ev\<lparr>http_method := HTTP_METHOD_GET, resource := web_root @ path\<rparr>)"
proof -
  let ?s = "get_line path version"
  have plain: "plain ?s" using p GET_props(2) by (auto simp: get_line_def plain_def blank_def CR_def)
  define linebuf where "linebuf = ?s @ replicate (1024 - length ?s) 0"
  have r: "readline (buffer ev) 0 (replicate 1024 0) = Some (int (length ?s) + 2, linebuf)"
    using readline_request [OF buf(1) plain buf(2) p(4)] by (simp add: linebuf_def)
  have "replicate (1024 - length ?s) (0::u8) = 0 # replicate (1023 - length ?s) 0"
    using p(4) by (simp add: Suc_diff_Suc flip: replicate_Suc)
  then have c: "c_string linebuf = Some ?s" using plain c_string_append [of ?s] by (simp add: linebuf_def plain_def)
  have g: "strstr ?s (chars ''GET'')"
    using strstr_prefix [of "chars ''GET''" "chars '' /'' @ path @ blank # version"] by (simp add: get_line_def GET_props(3))
  have d: "drop sizeof_GET linebuf = path @ blank # (version @ replicate (1024 - length ?s) 0)"
    by (simp add: linebuf_def get_line_def flip: GET_props(1))
  have len: "length linebuf = 1024" using p(4) by (simp add: linebuf_def)
  have "length path < length linebuf - sizeof_GET" using p(4) GET_props(1) unfolding len by (simp add: get_line_def)
  from find_blank_found [OF p(2) d this] have f: "find_blank linebuf sizeof_GET (length linebuf - sizeof_GET) =
    Some (sizeof_GET + length path)" .
  have "drop sizeof_GET (linebuf[sizeof_GET + length path := 0]) = path @ 0 # (version @ replicate (1024 - length ?s) 0)"
    using d by (simp add: drop_update_swap list_update_append)
  then have u: "c_string (drop sizeof_GET (linebuf[sizeof_GET + length path := 0])) = Some path"
    using c_string_append p(1) by (simp add: plain_def)
  show ?thesis using r c g f u by (simp add: http_request_def web_root_eq)
qed

text \<open>Without a second blank the search leaves the line.\<close>

lemma http_request_unterminated:
  assumes buf: "buffer ev = s @ CR # LF # rest" "0 \<in> set rest"
    and p: "plain s" "length s < 1024" "strstr s (chars ''GET'')" "blank \<notin> set (drop sizeof_GET s)"
  shows "http_request ev = None"
proof -
  define linebuf where "linebuf = s @ replicate (1024 - length s) 0"
  have r: "readline (buffer ev) 0 (replicate 1024 0) = Some (int (length s) + 2, linebuf)"
    using readline_request [OF buf(1) p(1) buf(2) p(2)] by (simp add: linebuf_def)
  have "replicate (1024 - length s) (0::u8) = 0 # replicate (1023 - length s) 0"
    using p(2) by (simp add: Suc_diff_Suc flip: replicate_Suc)
  then have c: "c_string linebuf = Some s" using p(1) c_string_append [of s] by (simp add: linebuf_def plain_def)
  have "linebuf ! j \<noteq> blank" if "sizeof_GET \<le> j" "j < 1024" for j
  proof (cases "j < length s")
    case True
    then have "s ! j = drop sizeof_GET s ! (j - sizeof_GET)" "j - sizeof_GET < length (drop sizeof_GET s)" using that by auto
    then have "s ! j \<in> set (drop sizeof_GET s)" by (metis nth_mem)
    then show ?thesis using True p(4) by (auto simp: linebuf_def nth_append)
  qed (use that p(2) in \<open>simp add: linebuf_def nth_append blank_def\<close>)
  moreover have "length linebuf = 1024" using p(2) by (simp add: linebuf_def)
  ultimately have "find_blank linebuf sizeof_GET (length linebuf - sizeof_GET) = None"
    by (intro find_blank_none) (auto simp: sizeof_GET_def)
  then show ?thesis using r c p(3) by (simp add: http_request_def)
qed

section \<open>The response\<close>

fun number :: "u8 list \<Rightarrow> nat" where
  "number s = fold (\<lambda>c n. 10 * n + (unat c - 48)) s 0"

declare number.simps [simp del]

lemma number_snoc: "number (s @ [c]) = 10 * number s + (unat c - 48)"
  by (simp add: number.simps)

lemma digit: "d < 10 \<Longrightarrow> unat (of_nat (48 + d) :: u8) = 48 + d"
  by (simp add: unsigned_of_nat take_bit_nat_eq_self_iff del: of_nat_add)

lemma number_decimal: "number (decimal n) = n"
proof (induction n rule: decimal.induct)
  case (1 n)
  have d: "unat (of_nat (48 + n mod 10) :: u8) - 48 = n mod 10" using digit [of "n mod 10"] by simp
  have "number (decimal n) = 10 * number (if n < 10 then [] else decimal (n div 10)) + n mod 10"
    by (subst decimal.simps) (simp only: number_snoc d)
  also have "\<dots> = n" using 1 by (cases "n < 10") (simp_all add: number.simps)
  finally show ?case .
qed

lemma length_decimal: "n < 10 ^ k \<Longrightarrow> 0 < k \<Longrightarrow> length (decimal n) \<le> k"
proof (induction k arbitrary: n)
  case (Suc k)
  show ?case
  proof (cases "n < 10")
    case True
    then show ?thesis by (subst decimal.simps) simp
  next
    case False
    then have "n div 10 < 10 ^ k" "0 < k" using Suc.prems by (auto intro: Nat.gr0I)
    then have "length (decimal (n div 10)) \<le> k" using Suc.IH by blast
    then show ?thesis using False by (subst decimal.simps) simp
  qed
qed simp

lemma length_ok_head: "n < 2 ^ 63 \<Longrightarrow> length (ok_head n) < BUFFER_LENGTH"
proof -
  assume "n < 2 ^ 63"
  then have "n < 10 ^ 19" by simp
  then have "length (decimal n) \<le> 19" by (rule length_decimal) simp
  then show ?thesis by (simp add: ok_head_def chars_def crlf_def BUFFER_LENGTH_def)
qed

lemma response_regular:
  assumes "fs (resource ev) = Some (Regular content)" "length content < 2 ^ 63"
  shows "\<exists>ev'. http_response fs ev = Some (int (length (ok_head (length content))), ev') \<and> ret_code ev' = 200 \<and>
    take (length (ok_head (length content))) (buffer ev') = ok_head (length content) \<and>
    length (buffer ev') = BUFFER_LENGTH \<and> resource ev' = resource ev \<and> ev_fd ev' = ev_fd ev \<and> status ev' = status ev \<and>
    len ev' = int (length (ok_head (length content)))"
  using assms length_ok_head [OF assms(2)] by (simp add: http_response_def sprintf_def)

lemma not_found_lengths: "length not_found_head = 127" "length not_found_body = 83"
  by (simp_all add: not_found_head_def not_found_body_def chars_def crlf_def)

lemma response_missing:
  assumes "fs (resource ev) = None \<or> fs (resource ev) = Some Directory"
  shows "\<exists>ev'. http_response fs ev = Some (210, ev') \<and> ret_code ev' = 404 \<and> len ev' = 210 \<and>
    take 210 (buffer ev') = not_found_head @ not_found_body"
  using assms by (auto simp: http_response_def not_found_def sprintf_def not_found_lengths BUFFER_LENGTH_def)

section \<open>Events\<close>

text \<open>An event of the table, and a change of it.\<close>

definition here :: "int \<Rightarrow> ntyreactor \<Rightarrow> ntyevent \<Rightarrow> bool" where
  "here fd r ev \<longleftrightarrow> table_ok r \<and> missing fd r = 0 \<and> 0 \<le> fd \<and> get_ev r (place fd) = Some ev"

lemma here_idx: "here fd r ev \<Longrightarrow> ntyreactor_idx mem fd r = Some (place fd, r)"
proof -
  assume h: "here fd r ev"
  have c: "blkcnt r = int (length (evblk r))" using h by (simp add: here_def table_ok_def)
  have b: "fd div int MAX_EPOLL_EVENTS = int (nat fd div MAX_EPOLL_EVENTS)"
    "nat (fd mod int MAX_EPOLL_EVENTS) = nat fd mod MAX_EPOLL_EVENTS" "nat fd div MAX_EPOLL_EVENTS < length (evblk r)"
    using h by (auto simp: here_def missing_def zdiv_int nat_mod_distrib)
  then have "grow mem 0 (int (nat fd div MAX_EPOLL_EVENTS)) r = Some r" using c by (intro grow_done) simp
  then show ?thesis using h b by (simp add: ntyreactor_idx_def here_def place_def)
qed

lemma here_put:
  assumes "here fd r ev" "length (buffer ev') = BUFFER_LENGTH"
  shows "here fd (put_ev (place fd) ev' r) ev' \<and> watch (put_ev (place fd) ev' r) = watch r \<and>
    sent (put_ev (place fd) ev' r) = sent r \<and> closed (put_ev (place fd) ev' r) = closed r \<and>
    (\<forall>l. l \<noteq> place fd \<longrightarrow> get_ev (put_ev (place fd) ev' r) l = get_ev r l)"
proof -
  have "table_ok r" "get_ev r (place fd) = Some ev" using assms(1) by (simp_all add: here_def)
  from put_ok [OF this assms(2)] have p: "table_ok (put_ev (place fd) ev' r)"
    "get_ev (put_ev (place fd) ev' r) (place fd) = Some ev'"
    "\<forall>l. l \<noteq> place fd \<longrightarrow> get_ev (put_ev (place fd) ev' r) l = get_ev r l" by blast+
  have "missing fd (put_ev (place fd) ev' r) = 0" using assms(1) by (simp add: here_def missing_def put_ev_def split: prod.splits)
  then show ?thesis using p assms(1) by (auto simp: here_def put_ev_def split: prod.splits)
qed

lemma get_cong: "evblk r' = evblk r \<Longrightarrow> get_ev r' = get_ev r"
  by (simp add: get_ev_def fun_eq_iff)

lemma here_cong: "here fd r ev \<Longrightarrow> evblk r' = evblk r \<Longrightarrow> blkcnt r' = blkcnt r \<Longrightarrow> here fd r' ev"
  using get_cong [of r' r] by (simp add: here_def table_ok_def missing_def)

text \<open>What a callback leaves of the other events and of the record of what was sent.\<close>

definition only :: "int \<Rightarrow> ntyreactor \<Rightarrow> ntyreactor \<Rightarrow> bool" where
  "only fd r r' \<longleftrightarrow> sent r' = sent r \<and> closed r' = closed r \<and> (\<forall>l. l \<noteq> place fd \<longrightarrow> get_ev r' l = get_ev r l) \<and>
     (\<forall>d. d \<noteq> fd \<longrightarrow> watch r' d = watch r d)"

lemma only_trans: "only fd r r1 \<Longrightarrow> only fd r1 r' \<Longrightarrow> only fd r r'"
  by (simp add: only_def)

text \<open>An event that is registered: it is in the epoll instance with its mask.\<close>

definition up :: "int \<Rightarrow> ntyreactor \<Rightarrow> ntyevent \<Rightarrow> bool" where
  "up fd r ev \<longleftrightarrow> here fd r ev \<and> status ev = 1 \<and> ev_fd ev = fd \<and> watch r fd = Some (events ev, place fd)"

lemma put_up:
  assumes "up fd r ev" "length (buffer ev') = BUFFER_LENGTH" "status ev' = 1" "ev_fd ev' = fd" "events ev' = events ev"
  shows "up fd (put_ev (place fd) ev' r) ev' \<and> only fd r (put_ev (place fd) ev' r)"
  using here_put [of fd r ev ev'] assms by (simp add: up_def only_def)

text \<open>Taken out, set up for \<open>cb\<close> and registered again.\<close>

lemma rearm:
  assumes "up fd r ev"
  shows "\<exists>r1 r2 r'. nty_event_del (place fd) r = Some (0, r1) \<and> nty_event_set (place fd) fd cb r1 = Some r2 \<and>
    nty_event_add m (place fd) r2 = Some (0, r') \<and> up fd r' (ev\<lparr>callback := cb, events := m\<rparr>) \<and> only fd r r'"
proof -
  have h: "here fd r ev" "status ev = 1" "ev_fd ev = fd" "watch r fd = Some (events ev, place fd)"
    using assms by (simp_all add: up_def)
  have b: "length (buffer ev) = BUFFER_LENGTH" using h(1) get_ok [of r "place fd" ev] by (simp add: here_def)
  define r1 where "r1 = put_ev (place fd) (ev\<lparr>status := 0\<rparr>) r"
  have r1: "here fd r1 (ev\<lparr>status := 0\<rparr>)" "watch r1 = watch r" "sent r1 = sent r" "closed r1 = closed r"
    "\<forall>l. l \<noteq> place fd \<longrightarrow> get_ev r1 l = get_ev r l"
    using here_put [OF h(1), of "ev\<lparr>status := 0\<rparr>"] b by (auto simp: r1_def)
  define r2 where "r2 = r1\<lparr>watch := (watch r1)(fd := None)\<rparr>"
  have del: "nty_event_del (place fd) r = Some (0, r2)"
    using h r1(2) by (simp add: nty_event_del_def here_def epoll_ctl_def r2_def flip: r1_def)
  have r2: "here fd r2 (ev\<lparr>status := 0\<rparr>)" by (rule here_cong [OF r1(1)]) (simp_all add: r2_def)
  define ev3 where "ev3 = ev\<lparr>status := 0, ev_fd := fd, callback := cb, events := 0\<rparr>"
  define r3 where "r3 = put_ev (place fd) ev3 r2"
  have r3: "here fd r3 ev3" "watch r3 = watch r2" "sent r3 = sent r2" "closed r3 = closed r2"
    "\<forall>l. l \<noteq> place fd \<longrightarrow> get_ev r3 l = get_ev r2 l"
    using here_put [OF r2, of ev3] b by (auto simp: r3_def ev3_def)
  have set: "nty_event_set (place fd) fd cb r2 = Some r3" using r2 by (simp add: nty_event_set_def here_def r3_def ev3_def)
  define ev4 where "ev4 = ev\<lparr>callback := cb, events := m\<rparr>"
  have e4: "ev3\<lparr>events := m, status := 1\<rparr> = ev4" using h(2,3) by (cases ev) (simp add: ev3_def ev4_def)
  define r4 where "r4 = put_ev (place fd) ev4 r3"
  have r4: "here fd r4 ev4" "watch r4 = watch r3" "sent r4 = sent r3" "closed r4 = closed r3"
    "\<forall>l. l \<noteq> place fd \<longrightarrow> get_ev r4 l = get_ev r3 l"
    using here_put [OF r3(1), of ev4] b by (auto simp: r4_def ev4_def)
  define r5 where "r5 = r4\<lparr>watch := (watch r4)(fd \<mapsto> (m, place fd))\<rparr>"
  have w4: "watch r4 fd = None" by (simp add: r4(2) r3(2) r2_def)
  have "status ev3 = 0" "ev_fd ev4 = fd" using h(3) by (simp_all add: ev3_def ev4_def)
  then have add: "nty_event_add m (place fd) r3 = Some (0, r5)"
    using r3(1) w4 e4 by (simp add: nty_event_add_def here_def epoll_ctl_def r5_def Let_def flip: r4_def)
  have "up fd r5 ev4"
    using here_cong [OF r4(1), of r5] h(2,3) by (simp add: up_def r5_def ev4_def)
  moreover have "only fd r r5"
  proof -
    have g: "get_ev r2 = get_ev r1" "get_ev r5 = get_ev r4" by (simp_all add: r2_def r5_def get_ev_def fun_eq_iff)
    show ?thesis unfolding only_def
      using r1 r3 r4 g by (simp add: r2_def r5_def)
  qed
  ultimately show ?thesis using del set add unfolding ev4_def by blast
qed

end
