(* ===== verification/Webserver_Correct.thy ===== *)
theory Webserver_Correct
  imports Webserver_Http
begin

text \<open>
  The properties of the web server: a file is served, and how requests and a lack of memory break it.
\<close>

section \<open>The callbacks\<close>

lemma recv_request:
  assumes "up fd r ev" "d \<noteq> []" "length d < BUFFER_LENGTH"
    "http_request (ev\<lparr>buffer := (d @ drop (length d) (buffer ev))[length d := 0], len := int (length d)\<rparr>) = Some ev'"
    "length (buffer ev') = BUFFER_LENGTH" "status ev' = 1" "ev_fd ev' = fd" "events ev' = events ev"
  shows "\<exists>r'. recv_cb mem (Some d) fd r = Some (int (length d), r') \<and>
    up fd r' (ev'\<lparr>callback := Send_cb, events := EPOLLOUT\<rparr>) \<and> only fd r r'"
proof -
  have h: "here fd r ev" "get_ev r (place fd) = Some ev" using assms(1) by (simp_all add: up_def here_def)
  have b: "length (buffer ev) = BUFFER_LENGTH" using h get_ok [of r "place fd" ev] by (simp add: here_def)
  define r0 where "r0 = put_ev (place fd) ev' r"
  have p: "up fd r0 ev'" "only fd r r0" using put_up [OF assms(1,5-8)] by (auto simp: r0_def)
  from rearm [OF p(1), of Send_cb EPOLLOUT] obtain r1 r2 r' where
    s: "nty_event_del (place fd) r0 = Some (0, r1)" "nty_event_set (place fd) fd Send_cb r1 = Some r2"
    "nty_event_add EPOLLOUT (place fd) r2 = Some (0, r')" "up fd r' (ev'\<lparr>callback := Send_cb, events := EPOLLOUT\<rparr>)"
    "only fd r0 r'" by blast
  have "recv_cb mem (Some d) fd r = Some (int (length d), r')"
    using here_idx [OF h(1), of mem] h(2) b assms(2-4) s(1-3) by (simp add: recv_cb_def Let_def flip: r0_def)
  then show ?thesis using s(4) only_trans [OF p(2) s(5)] by blast
qed

lemma recv_unterminated:
  assumes "up fd r ev" "d \<noteq> []" "length d < BUFFER_LENGTH"
    "http_request (ev\<lparr>buffer := (d @ drop (length d) (buffer ev))[length d := 0], len := int (length d)\<rparr>) = None"
  shows "recv_cb mem (Some d) fd r = None"
proof -
  have h: "here fd r ev" "get_ev r (place fd) = Some ev" using assms(1) by (simp_all add: up_def here_def)
  have b: "length (buffer ev) = BUFFER_LENGTH" using h get_ok [of r "place fd" ev] by (simp add: here_def)
  show ?thesis using here_idx [OF h(1), of mem] h(2) b assms(2-4) by (simp add: recv_cb_def Let_def)
qed

text \<open>What was received, with the terminating zero behind it.\<close>

lemma received:
  assumes "length d < length m"
  shows "(d @ drop (length d) m)[length d := 0] = d @ 0 # drop (length d + 1) m"
proof -
  have "drop (length d) m = m ! length d # drop (length d + 1) m" using assms by (simp add: Cons_nth_drop_Suc)
  then show ?thesis by simp
qed

text \<open>The state with what was sent in addition.\<close>

lemma up_sent: "up fd r ev \<Longrightarrow> up fd (r\<lparr>sent := x\<rparr>) ev"
  using here_cong [of fd r ev "r\<lparr>sent := x\<rparr>"] by (simp add: up_def)

lemma send_ok:
  assumes "up fd r ev" "0 < n" "http_response fs ev = Some (k, ev')" "length (buffer ev') = BUFFER_LENGTH"
    "status ev' = 1" "ev_fd ev' = fd" "events ev' = events ev"
    "out = (if ret_code ev' = 200 then
       (case fs (resource ev') of Some (Regular content) \<Rightarrow> [(fd, take m content)] | _ \<Rightarrow> []) else [])"
  shows "\<exists>r'. send_cb mem fs n m fd r = Some (n, r') \<and> up fd r' (ev'\<lparr>callback := Recv_cb, events := EPOLLIN\<rparr>) \<and>
    sent r' = sent r @ (fd, take (nat n) (buffer ev')) # out \<and> closed r' = closed r \<and>
    (\<forall>l. l \<noteq> place fd \<longrightarrow> get_ev r' l = get_ev r l) \<and> (\<forall>d. d \<noteq> fd \<longrightarrow> watch r' d = watch r d)"
proof -
  have h: "here fd r ev" "get_ev r (place fd) = Some ev" using assms(1) by (simp_all add: up_def here_def)
  define r0 where "r0 = put_ev (place fd) ev' r"
  have p: "up fd r0 ev'" "only fd r r0" using put_up [OF assms(1,4-7)] by (auto simp: r0_def)
  define rs where "rs = r0\<lparr>sent := sent r0 @ (fd, take (nat n) (buffer ev')) # out\<rparr>"
  have q: "up fd rs ev'" using up_sent [OF p(1)] by (simp add: rs_def)
  from rearm [OF q, of Recv_cb EPOLLIN] obtain r1 r2 r' where
    s: "nty_event_del (place fd) rs = Some (0, r1)" "nty_event_set (place fd) fd Recv_cb r1 = Some r2"
    "nty_event_add EPOLLIN (place fd) r2 = Some (0, r')" "up fd r' (ev'\<lparr>callback := Recv_cb, events := EPOLLIN\<rparr>)"
    "only fd rs r'" by blast
  have send: "send_cb mem fs n m fd r = Some (n, r')"
    if "(if ret_code ev' = 200 then
          (case fs (resource ev') of
             Some (Regular content) \<Rightarrow> r0\<lparr>sent := sent r0 @ [(fd, take (nat n) (buffer ev')), (fd, take m content)]\<rparr>
           | _ \<Rightarrow> r0\<lparr>sent := sent r0 @ [(fd, take (nat n) (buffer ev'))]\<rparr>)
        else r0\<lparr>sent := sent r0 @ [(fd, take (nat n) (buffer ev'))]\<rparr>) = rs"
    using here_idx [OF h(1), of mem] h(2) assms(2,3) s(1-3) that
    by (cases "ret_code ev' = 200"; cases "fs (resource ev')"; cases "the (fs (resource ev'))")
      (simp_all add: send_cb_def Let_def flip: r0_def)
  have "send_cb mem fs n m fd r = Some (n, r')"
    by (rule send) (use assms(8) in \<open>auto simp: rs_def split: option.splits fnode.splits\<close>)
  moreover have "get_ev rs = get_ev r0" by (rule get_cong) (simp add: rs_def)
  ultimately show ?thesis using s(4,5) p(2) by (auto simp: only_def rs_def)
qed

lemma get_more_cases:
  assumes "get_ev (more_blocks n r) l = Some e"
  shows "get_ev r l = Some e \<or> e = zero_event"
  using assms
  by (auto simp: get_ev_def more_blocks_def empty_block_def nth_append split: prod.splits if_splits)

text \<open>A new descriptor, registered for input.\<close>

definition register :: "(nat \<Rightarrow> bool \<times> bool) \<Rightarrow> int \<Rightarrow> callback \<Rightarrow> ntyreactor \<Rightarrow> (int \<times> ntyreactor) option" where
  "register mem fd cb r = do {
     (l, r) \<leftarrow> ntyreactor_idx mem fd r;
     r \<leftarrow> nty_event_set l fd cb r;
     (ret, r) \<leftarrow> nty_event_add EPOLLIN l r;
     Some (0, r)
   }"

lemma register_up:
  assumes "table_ok r" "0 \<le> fd" "\<forall>k. \<exists>j\<ge>k. got_memory mem j" "watch r fd = None"
    "\<forall>ev. get_ev r (place fd) = Some ev \<longrightarrow> status ev = 0"
  shows "\<exists>r' ev. register mem fd cb r = Some (0, r') \<and> up fd r' ev \<and> sent r' = sent r \<and> closed r' = closed r \<and>
    callback ev = cb \<and> events ev = EPOLLIN \<and> watch r' = (watch r)(fd \<mapsto> (EPOLLIN, place fd)) \<and>
    (\<forall>l e. l \<noteq> place fd \<and> get_ev r' l = Some e \<longrightarrow> get_ev r l = Some e \<or> e = zero_event) \<and>
    (\<forall>l e. l \<noteq> place fd \<and> get_ev r l = Some e \<longrightarrow> get_ev r' l = Some e)"
proof -
  define r1 where "r1 = more_blocks (missing fd r) r"
  have idx: "ntyreactor_idx mem fd r = Some (place fd, r1)" using idx_ok [OF assms(1-3)] by (simp add: r1_def)
  obtain ev where ev: "get_ev r1 (place fd) = Some ev" using get_place [OF assms(1,2)] by (auto simp: r1_def)
  have st: "status ev = 0"
  proof (cases "missing fd r = 0")
    case True
    then show ?thesis using ev assms(5) by (simp add: r1_def)
  next
    case False
    then have "ev = zero_event" using ev get_place [OF assms(1,2)] by (simp add: r1_def)
    then show ?thesis by (simp add: zero_event_def)
  qed
  have ok: "table_ok r1" using table_ok_more [OF assms(1)] by (simp add: r1_def)
  have w1: "watch r1 fd = None" "sent r1 = sent r" "closed r1 = closed r" using assms(4) by (simp_all add: r1_def more_blocks_def)
  have h: "here fd r1 ev" using ok ev assms(2) by (simp add: here_def r1_def missing_def more_blocks_def)
  have b: "length (buffer ev) = BUFFER_LENGTH" using get_ok [OF ok ev] .
  define ev2 where "ev2 = ev\<lparr>ev_fd := fd, callback := cb, events := 0\<rparr>"
  define r2 where "r2 = put_ev (place fd) ev2 r1"
  have r2: "here fd r2 ev2" "watch r2 = watch r1" "sent r2 = sent r1" "closed r2 = closed r1"
    "\<forall>l. l \<noteq> place fd \<longrightarrow> get_ev r2 l = get_ev r1 l"
    using here_put [OF h, of ev2] b by (auto simp: r2_def ev2_def)
  define ev3 where "ev3 = ev2\<lparr>events := EPOLLIN, status := 1\<rparr>"
  define r3 where "r3 = put_ev (place fd) ev3 r2"
  have r3: "here fd r3 ev3" "watch r3 = watch r2" "sent r3 = sent r2" "closed r3 = closed r2"
    "\<forall>l. l \<noteq> place fd \<longrightarrow> get_ev r3 l = get_ev r2 l"
    using here_put [OF r2(1), of ev3] b by (auto simp: r3_def ev3_def ev2_def)
  define r4 where "r4 = r3\<lparr>watch := (watch r3)(fd \<mapsto> (EPOLLIN, place fd))\<rparr>"
  have set: "nty_event_set (place fd) fd cb r1 = Some r2" using ev by (simp add: nty_event_set_def r2_def ev2_def)
  have "status ev2 = 0" "ev_fd ev3 = fd" "watch r3 fd = None" using st w1(1) r2(2) r3(2) by (simp_all add: ev2_def ev3_def)
  moreover have "get_ev r2 (place fd) = Some ev2" using r2(1) by (simp add: here_def)
  ultimately have add: "nty_event_add EPOLLIN (place fd) r2 = Some (0, r4)"
    by (simp add: nty_event_add_def epoll_ctl_def Let_def r4_def ev3_def r3_def)
  have "register mem fd cb r = Some (0, r4)" using idx set add by (simp add: register_def)
  moreover have "up fd r4 ev3" using here_cong [OF r3(1), of r4] by (simp add: up_def r4_def ev3_def ev2_def)
  moreover have "get_ev r4 = get_ev r3" by (rule get_cong) (simp add: r4_def)
  then have g: "get_ev r4 l = get_ev (more_blocks (missing fd r) r) l" if "l \<noteq> place fd" for l
    using that r2(5) r3(5) unfolding r1_def by metis
  then have "get_ev r l = Some e \<or> e = zero_event" if "l \<noteq> place fd" "get_ev r4 l = Some e" for l e
    using that get_more_cases by simp
  moreover have "get_ev r4 l = Some e" if "l \<noteq> place fd" "get_ev r l = Some e" for l e
    using that g get_more by simp
  moreover have "watch r4 = (watch r)(fd \<mapsto> (EPOLLIN, place fd))" "sent r4 = sent r" "closed r4 = closed r"
    using w1 r2 r3 by (simp_all add: r4_def r1_def more_blocks_def)
  ultimately show ?thesis by (intro exI [of _ r4] exI [of _ ev3]) (simp add: ev3_def ev2_def)
qed

lemma accept_register:
  "0 \<le> fd \<Longrightarrow> 0 \<le> flag \<Longrightarrow> accept_cb mem fd flag lfd r = register mem fd Recv_cb r"
  by (simp add: accept_cb_def register_def)

text \<open>A new connection.\<close>

lemma accept_up:
  assumes "table_ok r" "0 \<le> fd" "\<forall>k. \<exists>j\<ge>k. got_memory mem j" "watch r fd = None" "0 \<le> flag"
    "\<forall>ev. get_ev r (place fd) = Some ev \<longrightarrow> status ev = 0"
  shows "\<exists>r' ev. accept_cb mem fd flag lfd r = Some (0, r') \<and> up fd r' ev \<and> sent r' = sent r \<and> closed r' = closed r \<and>
    callback ev = Recv_cb \<and> events ev = EPOLLIN \<and> watch r' = (watch r)(fd \<mapsto> (EPOLLIN, place fd)) \<and>
    (\<forall>l e. l \<noteq> place fd \<and> get_ev r l = Some e \<longrightarrow> get_ev r' l = Some e)"
  using register_up [OF assms(1-4,6), of Recv_cb] accept_register [OF assms(2,5)] by auto

section \<open>A request and its answer\<close>

lemma serve_request:
  assumes "up fd r ev"
    "d = get_line path version @ CR # LF # rest" "length d < BUFFER_LENGTH"
    "plain path" "blank \<notin> set path" "plain version" "length (get_line path version) < 1024"
    "fs (web_root @ path) = Some (Regular content)" "length content < 2 ^ 63"
    "n = int (length (ok_head (length content)))"
  shows "\<exists>r1 ev1 r2 ev2. recv_cb mem (Some d) fd r = Some (int (length d), r1) \<and>
    up fd r1 ev1 \<and> callback ev1 = Send_cb \<and> events ev1 = EPOLLOUT \<and>
    send_cb mem' fs n (length content) fd r1 = Some (n, r2) \<and> up fd r2 ev2 \<and> callback ev2 = Recv_cb \<and> events ev2 = EPOLLIN \<and>
    sent r2 = sent r @ [(fd, ok_head (length content)), (fd, content)] \<and> closed r2 = closed r \<and>
    (\<forall>l. l \<noteq> place fd \<longrightarrow> get_ev r2 l = get_ev r l) \<and> (\<forall>e. e \<noteq> fd \<longrightarrow> watch r2 e = watch r e)"
proof -
  have h: "get_ev r (place fd) = Some ev" "status ev = 1" "ev_fd ev = fd" "table_ok r"
    using assms(1) by (simp_all add: up_def here_def)
  have b: "length (buffer ev) = BUFFER_LENGTH" using get_ok [OF h(4,1)] .
  let ?buf = "(d @ drop (length d) (buffer ev))[length d := 0]"
  define ev1 where "ev1 = ev\<lparr>buffer := ?buf, len := int (length d), http_method := HTTP_METHOD_GET, resource := web_root @ path\<rparr>"
  have "?buf = get_line path version @ CR # LF # (rest @ 0 # drop (length d + 1) (buffer ev))"
    using received [of d "buffer ev"] assms(2,3) b by simp
  from http_request_get [of "ev\<lparr>buffer := ?buf, len := int (length d)\<rparr>", OF _ _ assms(4-7)] this
  have q: "http_request (ev\<lparr>buffer := ?buf, len := int (length d)\<rparr>) = Some ev1" by (simp add: ev1_def)
  have e1: "length (buffer ev1) = BUFFER_LENGTH" "status ev1 = 1" "ev_fd ev1 = fd" "events ev1 = events ev" "d \<noteq> []"
    using b h assms(2,3) by (simp_all add: ev1_def)
  from recv_request [OF assms(1) e1(5) assms(3) q e1(1-4), of mem] obtain r1 where
    r1: "recv_cb mem (Some d) fd r = Some (int (length d), r1)" "up fd r1 (ev1\<lparr>callback := Send_cb, events := EPOLLOUT\<rparr>)"
    "only fd r r1" by blast
  let ?ev1 = "ev1\<lparr>callback := Send_cb, events := EPOLLOUT\<rparr>"
  have "fs (resource ?ev1) = Some (Regular content)" using assms(8) by (simp add: ev1_def)
  define ev2 where "ev2 = ?ev1\<lparr>buffer := ok_head (length content) @ 0 # drop (length (ok_head (length content)) + 1) (replicate BUFFER_LENGTH 0),
    ret_code := 200, len := n\<rparr>"
  have p: "http_response fs ?ev1 = Some (n, ev2)"
    using \<open>fs (resource ?ev1) = _\<close> length_ok_head [OF assms(9)] assms(10)
    by (simp add: http_response_def sprintf_def ev2_def)
  have e2: "length (buffer ev2) = BUFFER_LENGTH" "status ev2 = 1" "ev_fd ev2 = fd" "events ev2 = events ?ev1"
    "fs (resource ev2) = Some (Regular content)" "ret_code ev2 = 200" "take (nat n) (buffer ev2) = ok_head (length content)"
    using length_ok_head [OF assms(9)] e1 assms(8,10) by (simp_all add: ev2_def ev1_def)
  have n: "0 < n" using assms(10) by (simp add: ok_head_def chars_def)
  from send_ok [OF r1(2) n p e2(1-4) refl, of mem' "length content"] obtain r2 where
    r2: "send_cb mem' fs n (length content) fd r1 = Some (n, r2)" "up fd r2 (ev2\<lparr>callback := Recv_cb, events := EPOLLIN\<rparr>)"
    "sent r2 = sent r1 @ [(fd, ok_head (length content)), (fd, content)]" "closed r2 = closed r1"
    "\<forall>l. l \<noteq> place fd \<longrightarrow> get_ev r2 l = get_ev r1 l" "\<forall>d. d \<noteq> fd \<longrightarrow> watch r2 d = watch r1 d"
    using e2(5-7) by auto
  show ?thesis
    by (rule exI [of _ r1], rule exI [of _ ?ev1], rule exI [of _ r2], rule exI [of _ "ev2\<lparr>callback := Recv_cb, events := EPOLLIN\<rparr>"])
      (use r1 r2 in \<open>simp add: only_def\<close>)
qed

section \<open>The properties\<close>

text \<open>
  A request \<open>GET /path\<close> on a registered descriptor for a regular file below \<open>html\<close> is answered with the
  head that announces the length of the file, and then the file; the descriptor waits for the next request,
  and no other event or registration changes.
\<close>

theorem web_serves_file:
  assumes "up fd r ev"
    "d = get_line path version @ CR # LF # rest" "length d < BUFFER_LENGTH"
    "plain path" "blank \<notin> set path" "plain version" "length (get_line path version) < 1024"
    "fs (web_root @ path) = Some (Regular content)" "length content < 2 ^ 63"
    "n = int (length (ok_head (length content)))"
  shows "\<exists>r1 r2. recv_cb mem (Some d) fd r = Some (int (length d), r1) \<and> watch r1 fd = Some (EPOLLOUT, place fd) \<and>
    send_cb mem fs n (length content) fd r1 = Some (n, r2) \<and> watch r2 fd = Some (EPOLLIN, place fd) \<and>
    sent r2 = sent r @ [(fd, ok_head (length content)), (fd, content)] \<and> number (decimal (length content)) = length content \<and>
    closed r2 = closed r \<and>
    (\<forall>l. l \<noteq> place fd \<longrightarrow> get_ev r2 l = get_ev r l) \<and> (\<forall>e. e \<noteq> fd \<longrightarrow> watch r2 e = watch r e)"
  using serve_request [where mem = mem and mem' = mem and fs = fs, OF assms] number_decimal by (auto simp: up_def)

text \<open>
  A \<open>GET\<close> whose request line has no blank behind the path sends the server past the end of its line
  buffer.
\<close>

theorem web_request_without_blank:
  assumes "up fd r ev" "d = s @ CR # LF # rest" "length d < BUFFER_LENGTH"
    "plain s" "length s < 1024" "strstr s (chars ''GET'')" "blank \<notin> set (drop sizeof_GET s)"
  shows "recv_cb mem (Some d) fd r = None"
proof (rule recv_unterminated [OF assms(1) _ assms(3)])
  have "length (buffer ev) = BUFFER_LENGTH" using assms(1) get_ok [of r "place fd" ev] by (simp add: up_def here_def)
  then have "(d @ drop (length d) (buffer ev))[length d := 0] = s @ CR # LF # (rest @ 0 # drop (length d + 1) (buffer ev))"
    using received [of d "buffer ev"] assms(2,3) by simp
  then show "http_request (ev\<lparr>buffer := (d @ drop (length d) (buffer ev))[length d := 0], len := int (length d)\<rparr>) = None"
    by (intro http_request_unterminated [OF _ _ assms(4-7)]) auto
qed (use assms(2) in simp)

text \<open>
  The table gives each descriptor an event of its own: it grows by as many blocks as are missing, leaves
  every event as it is, and two descriptors never share one.
\<close>

theorem web_events_apart:
  assumes "table_ok r" "0 \<le> fd" "\<forall>k. \<exists>j\<ge>k. got_memory mem j"
  shows "\<exists>l r'. ntyreactor_idx mem fd r = Some (l, r') \<and> table_ok r' \<and> get_ev r' l \<noteq> None \<and>
    (\<forall>k ev. get_ev r k = Some ev \<longrightarrow> get_ev r' k = Some ev) \<and>
    (\<forall>fd'\<ge>0. fd' \<noteq> fd \<longrightarrow> (\<forall>k r''. ntyreactor_idx mem fd' r' = Some (k, r'') \<longrightarrow> k \<noteq> l \<and> get_ev r'' l = get_ev r' l))"
proof -
  define r' where "r' = more_blocks (missing fd r) r"
  have ok: "table_ok r'" using table_ok_more [OF assms(1)] by (simp add: r'_def)
  have g: "get_ev r' (place fd) \<noteq> None" using get_place [OF assms(1,2)] by (simp add: r'_def)
  have "k \<noteq> place fd \<and> get_ev r'' (place fd) = get_ev r' (place fd)"
    if "0 \<le> fd'" "fd' \<noteq> fd" "ntyreactor_idx mem fd' r' = Some (k, r'')" for fd' k r''
  proof -
    have "k = place fd'" "r'' = more_blocks (missing fd' r') r'" using idx_ok [OF ok that(1) assms(3)] that(3) by simp_all
    then show ?thesis using place_inj [OF that(1) assms(2)] that(2) g get_more by fastforce
  qed
  then show ?thesis using idx_ok [OF assms] ok g get_more by (auto simp: r'_def)
qed

text \<open>
  When the block of a descriptor is missing and \<open>malloc\<close> fails for good, looking its event up never
  ends: the result of the allocation is not looked at.
\<close>

theorem web_out_of_memory_diverges:
  assumes "table_ok r" "int MAX_EPOLL_EVENTS * int (length (evblk r)) \<le> fd" "\<forall>j. \<not> got_memory mem j"
  shows "ntyreactor_idx mem fd r = None"
proof -
  have c: "blkcnt r = int (length (evblk r))" using assms(1) by (simp add: table_ok_def)
  have "int (length (evblk r)) \<le> fd div int MAX_EPOLL_EVENTS"
    using assms(2) zdiv_mono1 [of "int (length (evblk r)) * int MAX_EPOLL_EVENTS" fd "int MAX_EPOLL_EVENTS"]
    by (simp add: MAX_EPOLL_EVENTS_def)
  then show ?thesis using grow_diverges [OF assms(1) _ assms(3)] c by (simp add: ntyreactor_idx_def)
qed

text \<open>
  The answer for a missing file announces 85 bytes and sends 83: the client waits for two more.
\<close>

theorem web_not_found_length:
  assumes "fs (resource ev) = None \<or> fs (resource ev) = Some Directory"
  shows "\<exists>ev' h. http_response fs ev = Some (int (length (not_found_head @ not_found_body)), ev') \<and>
    take (length (not_found_head @ not_found_body)) (buffer ev') = not_found_head @ not_found_body \<and>
    not_found_head = h @ chars ''Content-Length: '' @ decimal 85 @ crlf @ crlf \<and> length not_found_body = 83"
proof -
  have d: "decimal 85 = chars ''85''" by (simp add: decimal.simps chars_def)
  have "not_found_head = (chars ''HTTP/1.1 404 Not Found'' @ crlf @ chars ''Date: Thu, 11 Nov 2021 12:28:52 GMT'' @ crlf @
     chars ''Content-Type: text/html;charset=ISO-8859-1'' @ crlf) @ chars ''Content-Length: '' @ decimal 85 @ crlf @ crlf"
    unfolding d by (simp add: not_found_head_def chars_def)
  then obtain h where h: "not_found_head = h @ chars ''Content-Length: '' @ decimal 85 @ crlf @ crlf" by blast
  from response_missing [of fs ev] assms obtain ev' where "http_response fs ev = Some (210, ev')"
    "take 210 (buffer ev') = not_found_head @ not_found_body" by blast
  then show ?thesis using h not_found_lengths by (intro exI [of _ ev'] exI [of _ h]) simp
qed

section \<open>Instances\<close>

definition ample :: "nat \<Rightarrow> bool \<times> bool" where "ample k = (True, True)"

lemma ample_memory: "\<forall>k. \<exists>j\<ge>k. got_memory ample j"
  by (auto simp: got_memory_def ample_def)

definition started :: ntyreactor where "started = snd (ntyreactor_init 1 (True, True))"

lemma started_ok: "table_ok started" "watch started fd = None" "sent started = []" "closed started = []"
  "length (evblk started) = 1"
  by (simp_all add: started_def ntyreactor_init_def table_ok_def zero_event_def)

lemma started_status: "get_ev started (place 5) = Some ev \<Longrightarrow> status ev = 0"
  by (auto simp: started_def ntyreactor_init_def get_ev_def place_def zero_event_def MAX_EPOLL_EVENTS_def)

lemma connected: "\<exists>r ev. accept_cb ample 5 0 3 started = Some (0, r) \<and> up 5 r ev \<and> sent r = [] \<and> closed r = []"
  using accept_up [OF started_ok(1) _ ample_memory started_ok(2), of 5 0 3] started_status started_ok(3,4) by fastforce

definition sample_request :: "u8 list" where
  "sample_request = get_line (chars ''a.txt'') (chars ''HTTP/1.1'') @ [CR, LF]"

definition sample_files :: files where
  "sample_files p = (if p = web_root @ chars ''a.txt'' then Some (Regular [104, 105]) else None)"

lemma web_serves_file_witness:
  "\<exists>r r1 r2. accept_cb ample 5 0 3 started = Some (0, r) \<and> recv_cb ample (Some sample_request) 5 r = Some (21, r1) \<and>
    send_cb ample sample_files (int (length (ok_head 2))) 2 5 r1 = Some (int (length (ok_head 2)), r2) \<and>
    sent r2 = [(5, ok_head 2), (5, [104, 105])]"
proof -
  obtain r ev where r: "accept_cb ample 5 0 3 started = Some (0, r)" "up 5 r ev" "sent r = []" using connected by blast
  have q: "sample_request = get_line (chars ''a.txt'') (chars ''HTTP/1.1'') @ CR # LF # []" "length sample_request = 21"
    "length (get_line (chars ''a.txt'') (chars ''HTTP/1.1'')) = 19"
    by (simp_all add: sample_request_def get_line_def GET_def chars_def)
  have p: "plain (chars ''a.txt'')" "blank \<notin> set (chars ''a.txt'')" "plain (chars ''HTTP/1.1'')"
    by (simp_all add: plain_def chars_def CR_def blank_def)
  have "length sample_request < BUFFER_LENGTH" "length (get_line (chars ''a.txt'') (chars ''HTTP/1.1'')) < 1024"
    using q by (simp_all add: BUFFER_LENGTH_def)
  moreover have "sample_files (web_root @ chars ''a.txt'') = Some (Regular [104, 105])" by (simp add: sample_files_def)
  moreover have l: "length [104 :: u8, 105] = 2" "(2::nat) < 2 ^ 63" by simp_all
  ultimately obtain r1 r2 where "recv_cb ample (Some sample_request) 5 r = Some (21, r1)"
    "send_cb ample sample_files (int (length (ok_head 2))) 2 5 r1 = Some (int (length (ok_head 2)), r2)"
    "sent r2 = [(5, ok_head 2), (5, [104, 105])]"
    using web_serves_file [OF r(2) q(1) _ p, of sample_files "[104, 105]" "int (length (ok_head 2))" ample, unfolded l(1)]
      r(3) q(2) by auto
  then show ?thesis using r(1) by blast
qed

lemma web_request_without_blank_witness:
  "\<exists>r. accept_cb ample 5 0 3 started = Some (0, r) \<and> recv_cb ample (Some (chars ''GET /'' @ [CR, LF])) 5 r = None"
proof -
  obtain r ev where r: "accept_cb ample 5 0 3 started = Some (0, r)" "up 5 r ev" using connected by blast
  have "plain (chars ''GET /'')" "length (chars ''GET /'') < 1024" "strstr (chars ''GET /'') (chars ''GET'')"
    "blank \<notin> set (drop sizeof_GET (chars ''GET /''))" "length (chars ''GET /'' @ CR # LF # []) < BUFFER_LENGTH"
    by (simp_all add: plain_def chars_def CR_def LF_def BUFFER_LENGTH_def sizeof_GET_def strstr_def)
  from web_request_without_blank [OF r(2) refl this(5,1-4)] r(1) show ?thesis by auto
qed

lemma web_events_apart_witness:
  "\<exists>l r'. ntyreactor_idx ample 3000 started = Some (l, r') \<and> table_ok r' \<and> get_ev r' l \<noteq> None"
  using web_events_apart [OF started_ok(1) _ ample_memory, of 3000] by auto

lemma web_out_of_memory_diverges_witness: "ntyreactor_idx (\<lambda>k. (False, False)) 3000 started = None"
  by (rule web_out_of_memory_diverges [OF started_ok(1)]) (simp_all add: started_ok(5) MAX_EPOLL_EVENTS_def got_memory_def)

lemma web_not_found_length_witness:
  "\<exists>ev'. http_response (\<lambda>p. None) zero_event = Some (int (length (not_found_head @ not_found_body)), ev')"
  using web_not_found_length [of "\<lambda>p. None" zero_event] by auto

end
