(* ===== verification/Reactor_Multi.thy ===== *)
theory Reactor_Multi
  imports Prelude
begin

text \<open>
  The reactor of \<open>src/reactor.c\<close>: blocks of items, one for each descriptor, with handlers for reading, for
  writing and for accepting. An access outside of a buffer or through the null pointer is \<open>None\<close>. The epoll
  instance keeps, as documented, the mask of each registered descriptor. The results of the socket calls and
  of \<open>malloc\<close> are parameters. \<open>size_t\<close> is a 64-bit word; \<open>ssize_t\<close> results that are stored in one are
  read as unsigned.
\<close>

section \<open>The data\<close>

definition MAX_ITEMS_SIZE :: nat where "MAX_ITEMS_SIZE = 1024"
definition BUFFER_SIZE :: u64 where "BUFFER_SIZE = 1024"
definition EPOLLIN :: u32 where "EPOLLIN = 1"
definition EPOLLOUT :: u32 where "EPOLLOUT = 4"

datatype handle = No_handle | Handle_read | Handle_write | Handle_accept

datatype event = READ_EVENT | WRITE_EVENT | ACCEPT_EVENT

record nitem =
  fd :: int
  write_handle :: handle
  read_handle :: handle
  accept_handle :: handle
  buf_write :: "u8 list"
  buf_read :: "u8 list"
  buf_w_len :: u64
  buf_w_off :: u64
  buf_r_len :: u64

record reactor =
  blocks :: "nitem list list"
  watch :: "int \<rightharpoonup> u32"
  sent :: "(int \<times> u8 list) list"
  closed :: "int list"

definition zero_item :: nitem where
  "zero_item = \<lparr>fd = 0, write_handle = No_handle, read_handle = No_handle, accept_handle = No_handle,
     buf_write = replicate (unat BUFFER_SIZE) 0, buf_read = replicate (unat BUFFER_SIZE) 0,
     buf_w_len = 0, buf_w_off = 0, buf_r_len = 0\<rparr>"

section \<open>The items\<close>

text \<open>\<open>mem\<close> tells whether the two calls of \<open>malloc\<close> succeed; the result is the block, or null.\<close>

definition itemblock_create :: "bool \<times> bool \<Rightarrow> nitem list option" where
  "itemblock_create mem =
     (if \<not> fst mem then None else if \<not> snd mem then None else Some (replicate MAX_ITEMS_SIZE zero_item))"

text \<open>The walk stops in error when it has to follow the null pointer; the block behind the last one is
  null, which is the result then.\<close>

definition itemblock_find_nitem :: "reactor \<Rightarrow> int \<Rightarrow> (nat \<times> nat) option option" where
  "itemblock_find_nitem r d =
     (if blocks r = [] then Some None
      else if d < 0 then None
      else let page_num = nat d div MAX_ITEMS_SIZE; index = nat d mod MAX_ITEMS_SIZE in
        if page_num > length (blocks r) then None
        else if page_num = length (blocks r) then Some None
        else Some (Some (page_num, index)))"

text \<open>The item is used without a look at the pointer.\<close>

definition item :: "int \<Rightarrow> reactor \<Rightarrow> nitem option" where
  "item d r = do {
     l \<leftarrow> itemblock_find_nitem r d;
     (b, j) \<leftarrow> l;
     if j < length (blocks r ! b) then Some (blocks r ! b ! j) else None
   }"

definition set_item :: "int \<Rightarrow> nitem \<Rightarrow> reactor \<Rightarrow> reactor option" where
  "set_item d it r = do {
     l \<leftarrow> itemblock_find_nitem r d;
     (b, j) \<leftarrow> l;
     if j < length (blocks r ! b) then Some (r\<lparr>blocks := (blocks r)[b := (blocks r ! b)[j := it]]\<rparr>) else None
   }"

section \<open>Registration\<close>

text \<open>The registration is always \<open>EPOLL_CTL_ADD\<close>, which fails for a descriptor that is registered; the
  failure is ignored.\<close>

definition epoll_add :: "int \<Rightarrow> u32 \<Rightarrow> reactor \<Rightarrow> reactor" where
  "epoll_add d m r = (if watch r d = None then r\<lparr>watch := (watch r)(d \<mapsto> m)\<rparr> else r)"

definition reactor_set_event :: "int \<Rightarrow> handle \<Rightarrow> event \<Rightarrow> reactor \<Rightarrow> (int \<times> reactor) option" where
  "reactor_set_event d handle ev r = do {
     it \<leftarrow> item d r;
     let (it, m) = (case ev of
         READ_EVENT \<Rightarrow> (it\<lparr>fd := d, read_handle := handle\<rparr>, EPOLLIN)
       | WRITE_EVENT \<Rightarrow> (it\<lparr>fd := d, write_handle := handle\<rparr>, EPOLLOUT)
       | ACCEPT_EVENT \<Rightarrow> (it\<lparr>fd := d, accept_handle := handle\<rparr>, EPOLLIN));
     r \<leftarrow> set_item d it r;
     Some (0, epoll_add d m r)
   }"

definition close :: "int \<Rightarrow> reactor \<Rightarrow> reactor" where
  "close d r = r\<lparr>watch := (watch r)(d := None), closed := closed r @ [d]\<rparr>"

section \<open>The handlers\<close>

text \<open>
  \<open>n\<close> is what \<open>send\<close> returns, -1 for an error. The call reads the bytes it is given, from the offset on; as
  the result is unsigned, the test for an error never holds.
\<close>

definition handle_write :: "int \<Rightarrow> int \<Rightarrow> reactor \<Rightarrow> reactor option" where
  "handle_write n d r = do {
     it \<leftarrow> item d r;
     (if unat (buf_w_off it) + unat (buf_w_len it) \<le> length (buf_write it) then Some () else None);
     let nwrite = (word_of_int n :: u64);
     let r = (if n \<ge> 0 then r\<lparr>sent := sent r @ [(d, take (nat n) (drop (unat (buf_w_off it)) (buf_write it)))]\<rparr> else r);
     let it = it\<lparr>buf_w_off := buf_w_off it + nwrite\<rparr>;
     r \<leftarrow> set_item d it r;
     if buf_w_off it = buf_w_len it then do {
       r \<leftarrow> set_item d (it\<lparr>buf_write := replicate (unat (buf_w_len it)) 0 @ drop (unat (buf_w_len it)) (buf_write it)\<rparr>) r;
       (ret, r) \<leftarrow> reactor_set_event d Handle_read READ_EVENT r;
       it \<leftarrow> item d r;
       set_item d (it\<lparr>buf_w_off := 0, buf_w_len := 0\<rparr>) r
     } else do {
       (ret, r) \<leftarrow> reactor_set_event d Handle_write WRITE_EVENT r;
       Some r
     }
   }"

text \<open>
  \<open>got\<close> is what \<open>recv\<close> gives: an error, or the bytes, at most as many as it was asked for. The room is
  computed without a sign: behind a wrapped length it is more than the buffer has, and the address is before
  the buffer, which is an error unless nothing arrives.
\<close>

definition handle_read :: "u8 list option \<Rightarrow> int \<Rightarrow> reactor \<Rightarrow> reactor option" where
  "handle_read got d r = do {
     it \<leftarrow> item d r;
     let len = buf_r_len it;
     let bytes = (case got of None \<Rightarrow> [] | Some bs \<Rightarrow> take (unat (BUFFER_SIZE - len)) bs);
     buf \<leftarrow> (if bytes = [] then Some (buf_read it)
            else if unat len + length bytes \<le> length (buf_read it)
            then Some (take (unat len) (buf_read it) @ bytes @ drop (unat len + length bytes) (buf_read it))
            else None);
     let nread = (case got of None \<Rightarrow> (- 1 :: u64) | Some bs \<Rightarrow> of_nat (length bytes));
     r \<leftarrow> set_item d (it\<lparr>buf_read := buf\<rparr>) r;
     if nread = 0 then Some (close d r)
     else do {
       r \<leftarrow> set_item d (it\<lparr>buf_read := buf, buf_r_len := len + nread\<rparr>) r;
       (ret, r) \<leftarrow> reactor_set_event d Handle_write WRITE_EVENT r;
       Some r
     }
   }"

text \<open>\<open>connfd\<close> is what \<open>accept\<close> returns.\<close>

definition handle_accept :: "int \<Rightarrow> int \<Rightarrow> reactor \<Rightarrow> reactor option" where
  "handle_accept connfd d r =
     (if connfd < 0 then Some r
      else do { (ret, r) \<leftarrow> reactor_set_event connfd Handle_read READ_EVENT r; Some r })"

section \<open>The loop\<close>

text \<open>\<open>server_init\<close> after the calls that open the socket, for a reactor with its first block.\<close>

definition reactor_start :: "int \<Rightarrow> nitem list \<Rightarrow> reactor option" where
  "reactor_start server_fd block = do {
     (ret, r) \<leftarrow> reactor_set_event server_fd Handle_accept ACCEPT_EVENT
       \<lparr>blocks = [block], watch = Map.empty, sent = [], closed = []\<rparr>;
     Some r
   }"

record io =
  recv_got :: "u8 list option"
  send_ret :: int
  accept_ret :: int

definition call :: "io \<Rightarrow> handle \<Rightarrow> int \<Rightarrow> reactor \<Rightarrow> reactor option" where
  "call w h d r = (case h of
       No_handle \<Rightarrow> None
     | Handle_read \<Rightarrow> handle_read (recv_got w) d r
     | Handle_write \<Rightarrow> handle_write (send_ret w) d r
     | Handle_accept \<Rightarrow> handle_accept (accept_ret w) d r)"

text \<open>One reported event of \<open>reactor_run\<close>.\<close>

definition dispatch :: "int \<Rightarrow> io \<Rightarrow> int \<times> u32 \<Rightarrow> reactor \<Rightarrow> reactor option" where
  "dispatch server_fd w = (\<lambda>(d, m) r. do {
     it \<leftarrow> item d r;
     if d = server_fd then call w (accept_handle it) d r
     else do {
       r \<leftarrow> (if m AND EPOLLIN \<noteq> 0 then call w (read_handle it) d r else Some r);
       it \<leftarrow> item d r;
       if m AND EPOLLOUT \<noteq> 0 then call w (write_handle it) d r else Some r
     }
   })"

fun reactor_run :: "int \<Rightarrow> ((int \<times> u32) \<times> io) list \<Rightarrow> reactor \<Rightarrow> reactor option" where
  "reactor_run server_fd [] r = Some r"
| "reactor_run server_fd ((e, w) # es) r = dispatch server_fd w e r \<bind> reactor_run server_fd es"

end
