(* ===== verification/Reactor_Multi_Inv.thy ===== *)
theory Reactor_Multi_Inv
  imports Reactor_Multi
begin

text \<open>
  The invariant of the reactor with blocks of items, and what its handlers do.
\<close>

section \<open>The invariant\<close>

definition item_ok :: "nitem \<Rightarrow> bool" where
  "item_ok it \<longleftrightarrow> length (buf_read it) = unat BUFFER_SIZE \<and> length (buf_write it) = unat BUFFER_SIZE \<and>
     unat (buf_r_len it) \<le> unat BUFFER_SIZE \<and> buf_w_len it = 0 \<and> buf_w_off it = 0"

text \<open>There is one block, every registration waits for input, and its handler is set.\<close>

definition serving :: "int \<Rightarrow> reactor \<Rightarrow> nitem list \<Rightarrow> bool" where
  "serving server r b \<longleftrightarrow> blocks r = [b] \<and> length b = MAX_ITEMS_SIZE \<and> (\<forall>it\<in>set b. item_ok it) \<and>
     (\<forall>d m. watch r d = Some m \<longrightarrow> 0 \<le> d \<and> d < int MAX_ITEMS_SIZE \<and> m = EPOLLIN \<and>
       (if d = server then accept_handle (b ! nat d) = Handle_accept else read_handle (b ! nat d) = Handle_read))"

definition in_block :: "int \<Rightarrow> bool" where
  "in_block d \<longleftrightarrow> 0 \<le> d \<and> d < int MAX_ITEMS_SIZE"

lemma in_blockD: "in_block d \<Longrightarrow> 0 \<le> d \<and> nat d < MAX_ITEMS_SIZE \<and> nat d div MAX_ITEMS_SIZE = 0 \<and> nat d mod MAX_ITEMS_SIZE = nat d"
  by (auto simp: in_block_def)

lemma item_in:
  assumes "blocks r = [b]" "length b = MAX_ITEMS_SIZE" "in_block d"
  shows "item d r = Some (b ! nat d)" "set_item d it r = Some (r\<lparr>blocks := [b[nat d := it]]\<rparr>)"
  using assms in_blockD [OF assms(3)] by (auto simp: item_def set_item_def itemblock_find_nitem_def Let_def)

lemma item_beyond:
  assumes "blocks r = [b]" "int MAX_ITEMS_SIZE \<le> d"
  shows "item d r = None"
proof -
  have "1 \<le> nat d div MAX_ITEMS_SIZE" using assms(2) div_le_mono [of MAX_ITEMS_SIZE "nat d" MAX_ITEMS_SIZE]
    by (simp add: MAX_ITEMS_SIZE_def)
  moreover have "\<not> d < 0" using assms(2) by (simp add: MAX_ITEMS_SIZE_def)
  ultimately show ?thesis using assms(1) by (auto simp: item_def itemblock_find_nitem_def Let_def)
qed

lemma serving_in:
  assumes "serving server r b" "in_block d"
  shows "item d r = Some (b ! nat d)" "set_item d it r = Some (r\<lparr>blocks := [b[nat d := it]]\<rparr>)" "item_ok (b ! nat d)"
    "nat d < length b"
  using item_in [of r b d] assms in_blockD [OF assms(2)] by (auto simp: serving_def)

lemma serving_upd:
  assumes s: "serving server r b" "in_block d" and it: "item_ok it"
    and r': "blocks r' = [b[nat d := it]]" "\<And>e. e \<noteq> d \<Longrightarrow> watch r' e = watch r e"
    "watch r' d = None \<or> watch r' d = Some EPOLLIN \<and>
       (if d = server then accept_handle it = Handle_accept else read_handle it = Handle_read)"
  shows "serving server r' (b[nat d := it])"
proof -
  have l: "length b = MAX_ITEMS_SIZE" "nat d < length b" using s serving_in(4) [OF s] by (simp_all add: serving_def)
  have "item_ok i" if "i \<in> set (b[nat d := it])" for i
    using that it s(1) set_update_subset_insert [of b "nat d" it] by (auto simp: serving_def)
  moreover have "0 \<le> e \<and> e < int MAX_ITEMS_SIZE \<and> m = EPOLLIN \<and>
      (if e = server then accept_handle (b[nat d := it] ! nat e) = Handle_accept
       else read_handle (b[nat d := it] ! nat e) = Handle_read)" if w: "watch r' e = Some m" for e m
  proof (cases "e = d")
    case True
    then show ?thesis using w r'(3) s(2) l(2) by (auto simp: in_block_def split: if_splits)
  next
    case False
    then have "watch r e = Some m" using w r'(2) by simp
    then have e: "0 \<le> e" "e < int MAX_ITEMS_SIZE" "m = EPOLLIN"
      "if e = server then accept_handle (b ! nat e) = Handle_accept else read_handle (b ! nat e) = Handle_read"
      using s(1) unfolding serving_def by blast+
    have "nat e \<noteq> nat d" using False e(1) s(2) by (auto simp: in_block_def)
    then show ?thesis using e by (auto split: if_splits)
  qed
  ultimately show ?thesis using r'(1) l by (auto simp: serving_def)
qed

section \<open>The handlers\<close>

text \<open>The item of a descriptor after it has been given a handler for an event.\<close>

lemma set_event_in:
  assumes "blocks r = [b]" "length b = MAX_ITEMS_SIZE" "in_block d"
  shows "reactor_set_event d h READ_EVENT r =
      Some (0, epoll_add d EPOLLIN (r\<lparr>blocks := [b[nat d := (b ! nat d)\<lparr>fd := d, read_handle := h\<rparr>]]\<rparr>))"
    "reactor_set_event d h WRITE_EVENT r =
      Some (0, epoll_add d EPOLLOUT (r\<lparr>blocks := [b[nat d := (b ! nat d)\<lparr>fd := d, write_handle := h\<rparr>]]\<rparr>))"
    "reactor_set_event d h ACCEPT_EVENT r =
      Some (0, epoll_add d EPOLLIN (r\<lparr>blocks := [b[nat d := (b ! nat d)\<lparr>fd := d, accept_handle := h\<rparr>]]\<rparr>))"
  using item_in [OF assms] by (simp_all add: reactor_set_event_def)

text \<open>What is left of a piece of data when the buffer of the item has room for so much.\<close>

definition room :: "nitem \<Rightarrow> nat" where
  "room it = unat BUFFER_SIZE - unat (buf_r_len it)"

lemma room_word: "item_ok it \<Longrightarrow> unat (BUFFER_SIZE - buf_r_len it) = room it"
  by (simp add: item_ok_def room_def unat_diff64)

text \<open>The item with a piece of data behind what it had.\<close>

definition filled :: "u8 list \<Rightarrow> int \<Rightarrow> nitem \<Rightarrow> nitem" where
  "filled bs d it = it\<lparr>
     buf_read := take (unat (buf_r_len it)) (buf_read it) @ bs @ drop (unat (buf_r_len it) + length bs) (buf_read it),
     buf_r_len := buf_r_len it + of_nat (length bs), fd := d, write_handle := Handle_write\<rparr>"

lemma unat_r_len:
  assumes "item_ok it" "length bs \<le> room it"
  shows "unat (buf_r_len it + of_nat (length bs)) = unat (buf_r_len it) + length bs"
proof -
  have l: "unat (buf_r_len it) + length bs \<le> 1024" using assms by (auto simp: item_ok_def room_def BUFFER_SIZE_def)
  then have "unat (of_nat (length bs) :: u64) = length bs" by (intro unat_of_nat64) simp
  then show ?thesis using l by (subst unat_add64) simp_all
qed

lemma filled_ok: "item_ok it \<Longrightarrow> length bs \<le> room it \<Longrightarrow> item_ok (filled bs d it)"
  using unat_r_len [of it bs] by (auto simp: item_ok_def filled_def room_def)

lemma read_data:
  assumes s: "serving server r b" "in_block d" "watch r d = Some EPOLLIN"
    and bs: "take (room (b ! nat d)) bs \<noteq> []"
  shows "handle_read (Some bs) d r = Some (r\<lparr>blocks := [b[nat d := filled (take (room (b ! nat d)) bs) d (b ! nat d)]]\<rparr>)"
proof -
  let ?it = "b ! nat d" and ?bs = "take (room (b ! nat d)) bs"
  have ok: "item_ok ?it" "nat d < length b" using serving_in [OF s(1,2)] by simp_all
  have l: "length ?bs \<le> room ?it" by simp
  have n: "(of_nat (length ?bs) :: u64) \<noteq> 0"
  proof
    assume "(of_nat (length ?bs) :: u64) = 0"
    moreover have "length ?bs < 2 ^ 64" using l by (simp add: room_def BUFFER_SIZE_def)
    ultimately show False using unat_of_nat64 [of "length ?bs"] bs by (simp add: min_def split: if_splits)
  qed
  have fits: "unat (buf_r_len ?it) + length ?bs \<le> length (buf_read ?it)"
    using ok(1) l by (auto simp: item_ok_def room_def)
  have set: "\<And>r' b'. blocks r' = [b'] \<Longrightarrow> length b' = MAX_ITEMS_SIZE \<Longrightarrow>
      set_item d it r' = Some (r'\<lparr>blocks := [b'[nat d := it]]\<rparr>)" for it using item_in(2) s(2) by blast
  have len: "length b = MAX_ITEMS_SIZE" "blocks r = [b]" using s(1) by (simp_all add: serving_def)
  show ?thesis
    using serving_in(1) [OF s(1,2)] room_word [OF ok(1)] n fits bs ok(2) len s(2,3)
    by (simp add: handle_read_def set set_event_in Let_def epoll_add_def filled_def)
qed

lemma read_end:
  assumes s: "serving server r b" "in_block d" and bs: "take (room (b ! nat d)) bs = []"
  shows "handle_read (Some bs) d r = Some (close d r)"
proof -
  have ok: "item_ok (b ! nat d)" using serving_in [OF s] by simp
  have "b[nat d := b ! nat d] = b" by simp
  moreover have "blocks r = [b]" using s(1) by (simp add: serving_def)
  ultimately have "r\<lparr>blocks := [b[nat d := b ! nat d]]\<rparr> = r" by (cases r) simp
  moreover have "min (length bs) (room (b ! nat d)) = 0" using bs by auto
  ultimately show ?thesis
    using serving_in(1,2) [OF s] room_word [OF ok] bs by (simp add: handle_read_def Let_def)
qed

end
