(* ===== verification/Reactor_Multi_Correct.thy ===== *)
theory Reactor_Multi_Correct
  imports Reactor_Multi_Inv
begin

text \<open>
  The properties of the reactor with blocks of items: it gathers what it reads, but never answers.
\<close>

section \<open>Runs\<close>

text \<open>
  What the system may do for an event: it reports a registered descriptor with what it waits for, \<open>recv\<close>
  succeeds, and \<open>accept\<close> fails or gives a descriptor of the first block that is not registered.
\<close>

definition legal :: "int \<Rightarrow> (int \<times> u32) \<times> io \<Rightarrow> reactor \<Rightarrow> bool" where
  "legal server = (\<lambda>((d, m), w) r. watch r d = Some m \<and> recv_got w \<noteq> None \<and>
     (accept_ret w < 0 \<or> in_block (accept_ret w) \<and> accept_ret w \<noteq> server \<and> watch r (accept_ret w) = None))"

fun run_legal :: "int \<Rightarrow> ((int \<times> u32) \<times> io) list \<Rightarrow> reactor \<Rightarrow> bool" where
  "run_legal server [] r = True"
| "run_legal server (e # es) r = (legal server e r \<and>
     (case dispatch server (snd e) (fst e) r of None \<Rightarrow> True | Some r' \<Rightarrow> run_legal server es r'))"

lemma read_serving:
  assumes s: "serving server r b" "watch r d \<noteq> None" "d \<noteq> server" and got: "got \<noteq> None"
  shows "\<exists>r' b'. handle_read got d r = Some r' \<and> serving server r' b' \<and> sent r' = sent r"
proof -
  obtain bs where bs: "got = Some bs" using got by blast
  have w: "in_block d" "watch r d = Some EPOLLIN" "read_handle (b ! nat d) = Handle_read"
    using s by (auto simp: serving_def in_block_def)
  show ?thesis
  proof (cases "take (room (b ! nat d)) bs = []")
    case True
    have "b[nat d := b ! nat d] = b" by simp
    moreover have "item_ok (b ! nat d)" "blocks r = [b]" using serving_in [OF s(1) w(1)] s(1) by (simp_all add: serving_def)
    ultimately have "serving server (close d r) (b[nat d := b ! nat d])"
      by (intro serving_upd [OF s(1) w(1)]) (simp_all add: close_def)
    then show ?thesis using read_end [OF s(1) w(1) True] bs by (auto simp: close_def)
  next
    case False
    let ?it = "filled (take (room (b ! nat d)) bs) d (b ! nat d)"
    have ok: "item_ok ?it" using filled_ok serving_in(3) [OF s(1) w(1)] by simp
    have "serving server (r\<lparr>blocks := [b[nat d := ?it]]\<rparr>) (b[nat d := ?it])"
      by (rule serving_upd [OF s(1) w(1) ok]) (use w s(3) in \<open>simp_all add: filled_def\<close>)
    then show ?thesis using read_data [OF s(1) w(1,2) False] bs by auto
  qed
qed

lemma accept_serving:
  assumes s: "serving server r b"
    and c: "connfd < 0 \<or> in_block connfd \<and> connfd \<noteq> server \<and> watch r connfd = None"
  shows "\<exists>r' b'. handle_accept connfd d r = Some r' \<and> serving server r' b' \<and> sent r' = sent r"
proof (cases "connfd < 0")
  case True
  then show ?thesis using s by (auto simp: handle_accept_def)
next
  case False
  then have c: "in_block connfd" "connfd \<noteq> server" "watch r connfd = None" using c by simp_all
  let ?it = "(b ! nat connfd)\<lparr>fd := connfd, read_handle := Handle_read\<rparr>"
  let ?r = "epoll_add connfd EPOLLIN (r\<lparr>blocks := [b[nat connfd := ?it]]\<rparr>)"
  have "item_ok ?it" using serving_in(3) [OF s c(1)] by (simp add: item_ok_def)
  then have "serving server ?r (b[nat connfd := ?it])"
    by (rule serving_upd [OF s c(1)]) (use c in \<open>simp_all add: epoll_add_def\<close>)
  moreover have "handle_accept connfd d r = Some ?r"
    using set_event_in(1) [of r b connfd Handle_read] s c(1) False by (simp add: handle_accept_def serving_def)
  moreover have "sent ?r = sent r" by (simp add: epoll_add_def)
  ultimately show ?thesis by blast
qed

lemma dispatch_serving:
  assumes s: "serving server r b" and l: "legal server e r"
  shows "\<exists>r' b'. dispatch server (snd e) (fst e) r = Some r' \<and> serving server r' b' \<and> sent r' = sent r"
proof -
  obtain d m w where e: "e = ((d, m), w)" by (cases e) auto
  have l: "watch r d = Some m" "recv_got w \<noteq> None"
    "accept_ret w < 0 \<or> in_block (accept_ret w) \<and> accept_ret w \<noteq> server \<and> watch r (accept_ret w) = None"
    using l e by (auto simp: legal_def)
  then have m: "m = EPOLLIN" "watch r d \<noteq> None" using s by (auto simp: serving_def)
  have d: "in_block d" "if d = server then accept_handle (b ! nat d) = Handle_accept else read_handle (b ! nat d) = Handle_read"
    using s l(1) by (auto simp: serving_def in_block_def)
  have it: "item d r = Some (b ! nat d)" using serving_in(1) [OF s d(1)] .
  show ?thesis
  proof (cases "d = server")
    case True
    then show ?thesis using accept_serving [OF s l(3), of d] it d(2) e by (simp add: dispatch_def call_def)
  next
    case False
    from read_serving [OF s m(2) False l(2)] obtain r' b' where r': "handle_read (recv_got w) d r = Some r'"
      "serving server r' b'" "sent r' = sent r" by blast
    have "EPOLLIN AND EPOLLIN \<noteq> 0" "EPOLLIN AND EPOLLOUT = 0" by (simp_all add: EPOLLIN_def EPOLLOUT_def)
    then have "dispatch server (snd e) (fst e) r = Some r'"
      using r' serving_in(1) [OF r'(2) d(1)] it d(2) e m(1) False by (simp add: dispatch_def call_def)
    then show ?thesis using r'(2,3) by blast
  qed
qed

lemma run_serving:
  "serving server r b \<Longrightarrow> run_legal server es r \<Longrightarrow>
   \<exists>r' b'. reactor_run server es r = Some r' \<and> serving server r' b' \<and> sent r' = sent r"
proof (induction es arbitrary: r b)
  case (Cons e es)
  have "legal server e r" using Cons.prems(2) by simp
  from dispatch_serving [OF Cons.prems(1) this] obtain r1 b1 where
    r1: "dispatch server (snd e) (fst e) r = Some r1" "serving server r1 b1" "sent r1 = sent r" by blast
  then have "run_legal server es r1" using Cons.prems(2) by simp
  from Cons.IH [OF r1(2) this] show ?case using r1(1,3) by (cases e) simp
qed auto

definition new_block :: "nitem list" where "new_block = replicate MAX_ITEMS_SIZE zero_item"

lemma start_serving:
  assumes "in_block server"
  shows "\<exists>r b. reactor_start server new_block = Some r \<and> serving server r b \<and> sent r = [] \<and>
    watch r = [server \<mapsto> EPOLLIN] \<and> (\<forall>d. in_block d \<longrightarrow> buf_r_len (b ! nat d) = 0)"
proof -
  let ?r = "\<lparr>blocks = [new_block], watch = Map.empty, sent = [], closed = []\<rparr>"
  let ?it = "(new_block ! nat server)\<lparr>fd := server, accept_handle := Handle_accept\<rparr>"
  let ?r' = "epoll_add server EPOLLIN (?r\<lparr>blocks := [new_block[nat server := ?it]]\<rparr>)"
  have z: "item_ok zero_item" by (simp add: item_ok_def zero_item_def)
  then have s: "serving server ?r new_block" by (simp add: serving_def new_block_def)
  have it: "item_ok ?it" using serving_in(3) [OF s assms] by (simp add: item_ok_def)
  have "serving server ?r' (new_block[nat server := ?it])"
    by (rule serving_upd [OF s assms it]) (simp_all add: epoll_add_def)
  moreover have "reactor_start server new_block = Some ?r'"
    using set_event_in(3) [of ?r new_block server Handle_accept] assms by (simp add: reactor_start_def new_block_def)
  moreover have "buf_r_len (new_block[nat server := ?it] ! nat d) = 0" if "in_block d" for d
    using in_blockD [OF that] in_blockD [OF assms]
    by (cases "nat d = nat server") (simp_all add: new_block_def zero_item_def)
  ultimately show ?thesis by (auto simp: epoll_add_def)
qed

section \<open>The properties\<close>

text \<open>
  The server never answers: in every run from its start, as long as no call on a connection fails, it
  sends no byte, whatever the clients send, and every descriptor stays registered for input only. The
  registration for output is an addition, which fails for a registered descriptor.
\<close>

theorem reactor_never_answers:
  assumes "in_block server" "reactor_start server new_block = Some r0" "run_legal server es r0"
  shows "\<exists>r. reactor_run server es r0 = Some r \<and> sent r = [] \<and> (\<forall>d m. watch r d = Some m \<longrightarrow> m = EPOLLIN)"
proof -
  from start_serving [OF assms(1)] assms(2) obtain b where b: "serving server r0 b" "sent r0 = []" by auto
  from run_serving [OF this(1) assms(3)] b(2) show ?thesis unfolding serving_def by metis
qed

text \<open>The pieces read one after the other.\<close>

fun reads :: "u8 list list \<Rightarrow> int \<Rightarrow> reactor \<Rightarrow> reactor option" where
  "reads [] d r = Some r"
| "reads (bs # bss) d r = handle_read (Some bs) d r \<bind> reads bss d"

lemma reads_ok:
  assumes "serving server r b" "in_block d" "d \<noteq> server" "watch r d = Some EPOLLIN" "read_handle (b ! nat d) = Handle_read"
    "\<forall>bs\<in>set bss. bs \<noteq> []" "length (concat bss) \<le> room (b ! nat d)"
  shows "\<exists>r' b'. reads bss d r = Some r' \<and> serving server r' b' \<and> watch r' = watch r \<and> closed r' = closed r \<and>
    read_handle (b' ! nat d) = Handle_read \<and>
    unat (buf_r_len (b' ! nat d)) = unat (buf_r_len (b ! nat d)) + length (concat bss) \<and>
    take (unat (buf_r_len (b' ! nat d))) (buf_read (b' ! nat d)) =
      take (unat (buf_r_len (b ! nat d))) (buf_read (b ! nat d)) @ concat bss"
  using assms
proof (induction bss arbitrary: r b)
  case Nil
  then show ?case by auto
next
  case (Cons bs bss)
  let ?it = "filled bs d (b ! nat d)"
  have ok: "item_ok (b ! nat d)" "nat d < length b" using serving_in [OF Cons.prems(1,2)] by simp_all
  have l: "length bs \<le> room (b ! nat d)" "take (room (b ! nat d)) bs = bs" using Cons.prems(7) by simp_all
  have h: "handle_read (Some bs) d r = Some (r\<lparr>blocks := [b[nat d := ?it]]\<rparr>)"
    using read_data [OF Cons.prems(1,2,4), of bs] l(2) Cons.prems(6) by simp
  have s: "serving server (r\<lparr>blocks := [b[nat d := ?it]]\<rparr>) (b[nat d := ?it])"
    by (rule serving_upd [OF Cons.prems(1,2) filled_ok [OF ok(1) l(1)]]) (use Cons.prems in \<open>simp_all add: filled_def\<close>)
  have n: "unat (buf_r_len ?it) = unat (buf_r_len (b ! nat d)) + length bs"
    using unat_r_len [OF ok(1) l(1)] by (simp add: filled_def)
  have t: "take (unat (buf_r_len ?it)) (buf_read ?it) = take (unat (buf_r_len (b ! nat d))) (buf_read (b ! nat d)) @ bs"
    unfolding n using ok(1) by (simp add: filled_def item_ok_def)
  have "length (concat bss) \<le> room ?it" using Cons.prems(7) n by (simp add: room_def)
  then have "length (concat bss) \<le> room (b[nat d := ?it] ! nat d)" using ok(2) by simp
  moreover have "read_handle (b[nat d := ?it] ! nat d) = Handle_read" using ok(2) Cons.prems(5) by (simp add: filled_def)
  ultimately have "\<exists>r' b'. reads bss d (r\<lparr>blocks := [b[nat d := ?it]]\<rparr>) = Some r' \<and> serving server r' b' \<and>
      watch r' = watch r \<and> closed r' = closed r \<and> read_handle (b' ! nat d) = Handle_read \<and>
      unat (buf_r_len (b' ! nat d)) = unat (buf_r_len ?it) + length (concat bss) \<and>
      take (unat (buf_r_len (b' ! nat d))) (buf_read (b' ! nat d)) = take (unat (buf_r_len ?it)) (buf_read ?it) @ concat bss"
    using Cons.IH [OF s Cons.prems(2,3)] Cons.prems(4,6) ok(2) by simp
  then obtain r' b' where r': "reads bss d (r\<lparr>blocks := [b[nat d := ?it]]\<rparr>) = Some r'" "serving server r' b'"
    "watch r' = watch r" "closed r' = closed r" "read_handle (b' ! nat d) = Handle_read"
    "unat (buf_r_len (b' ! nat d)) = unat (buf_r_len ?it) + length (concat bss)"
    "take (unat (buf_r_len (b' ! nat d))) (buf_read (b' ! nat d)) = take (unat (buf_r_len ?it)) (buf_read ?it) @ concat bss"
    by blast
  show ?case
    by (rule exI [of _ r'], rule exI [of _ b']) (use r' h n t in simp)
qed

text \<open>
  A connection can send 1024 bytes in its lifetime: pieces up to that are gathered in its buffer in
  order, and when they have filled it, the next piece closes the connection, because the call that would
  read it has no room.
\<close>

theorem reactor_closes_full_connection:
  assumes "serving server r b" "in_block d" "d \<noteq> server" "watch r d = Some EPOLLIN" "read_handle (b ! nat d) = Handle_read"
    "buf_r_len (b ! nat d) = 0" "\<forall>bs\<in>set bss. bs \<noteq> []" "length (concat bss) = unat BUFFER_SIZE"
  shows "\<exists>r' b'. reads bss d r = Some r' \<and> blocks r' = [b'] \<and> buf_read (b' ! nat d) = concat bss \<and>
    watch r' d = Some EPOLLIN \<and> handle_read (Some extra) d r' = Some (close d r')"
proof -
  have "length (concat bss) \<le> room (b ! nat d)" using assms(6,8) by (simp add: room_def)
  from reads_ok [OF assms(1-5,7) this] obtain r' b' where r': "reads bss d r = Some r'" "serving server r' b'"
    "watch r' = watch r" "unat (buf_r_len (b' ! nat d)) = unat BUFFER_SIZE"
    "take (unat (buf_r_len (b' ! nat d))) (buf_read (b' ! nat d)) = concat bss"
    using assms(6,8) by auto
  have "item_ok (b' ! nat d)" using serving_in(3) [OF r'(2) assms(2)] .
  then have "buf_read (b' ! nat d) = concat bss" using r'(4,5) by (simp add: item_ok_def)
  moreover have "room (b' ! nat d) = 0" using r'(4) by (simp add: room_def)
  ultimately show ?thesis using read_end [OF r'(2) assms(2), of extra] r' assms(4) by (auto simp: serving_def)
qed

text \<open>There is one block: a connection with a descriptor beyond it crashes the server.\<close>

lemma reactor_accept_beyond:
  assumes "serving server r b" "int MAX_ITEMS_SIZE \<le> connfd"
  shows "handle_accept connfd d r = None"
proof -
  have "blocks r = [b]" "\<not> connfd < 0" using assms by (simp_all add: serving_def MAX_ITEMS_SIZE_def)
  then show ?thesis using item_beyond [of r b connfd] assms(2) by (simp add: handle_accept_def reactor_set_event_def)
qed

text \<open>A failed read on a new connection wraps its length around; the next data goes before the buffer.\<close>

lemma reactor_read_error_wraps:
  assumes "serving server r b" "in_block d" "watch r d = Some EPOLLIN" "buf_r_len (b ! nat d) = 0" "bs \<noteq> []"
  shows "\<exists>r'. handle_read None d r = Some r' \<and> handle_read (Some bs) d r' = None"
proof -
  define it where "it = (b ! nat d)\<lparr>buf_read := buf_read (b ! nat d), buf_r_len := - 1, fd := d, write_handle := Handle_write\<rparr>"
  define r' where "r' = r\<lparr>blocks := [b[nat d := it]]\<rparr>"
  have b: "blocks r = [b]" "length b = MAX_ITEMS_SIZE" "nat d < length b" using assms(1) serving_in(4) [OF assms(1,2)]
    by (simp_all add: serving_def)
  have set: "set_item d i r = Some (r\<lparr>blocks := [b'[nat d := i]]\<rparr>)" if "blocks r = [b']" "length b' = MAX_ITEMS_SIZE" for i r b'
    using item_in(2) [OF that assms(2)] .
  have "handle_read None d r = Some r'"
    using serving_in(1) [OF assms(1,2)] b assms(2-4)
    by (simp add: handle_read_def set set_event_in Let_def epoll_add_def r'_def it_def)
  moreover have "handle_read (Some bs) d r' = None"
  proof -
    have "item d r' = Some it" using item_in(1) [of r' "b[nat d := it]" d] b assms(2) by (simp add: r'_def)
    moreover have "buf_r_len it = - 1" "length (buf_read it) = 1024"
      using serving_in(3) [OF assms(1,2)] by (simp_all add: it_def item_ok_def BUFFER_SIZE_def)
    moreover have "take (unat (BUFFER_SIZE - (- 1))) bs \<noteq> []" using assms(5) by (simp add: BUFFER_SIZE_def)
    moreover have "unat (- 1 :: u64) = 2 ^ 64 - 1" by (simp add: unsigned_minus_1_eq_mask mask_eq_exp_minus_1)
    ultimately show ?thesis by (simp add: handle_read_def Let_def)
  qed
  ultimately show ?thesis by blast
qed

section \<open>Instances\<close>

lemma reactor_never_answers_witness:
  "\<exists>r0 r. reactor_start 3 new_block = Some r0 \<and>
    reactor_run 3 [((3, EPOLLIN), \<lparr>recv_got = Some [1], send_ret = 0, accept_ret = 5\<rparr>)] r0 = Some r \<and> sent r = []"
proof -
  have i: "in_block 3" "in_block 5" by (simp_all add: in_block_def MAX_ITEMS_SIZE_def)
  from start_serving [OF i(1)] obtain r0 where r0: "reactor_start 3 new_block = Some r0" "watch r0 = [3 \<mapsto> EPOLLIN]" by blast
  have "run_legal 3 [((3, EPOLLIN), \<lparr>recv_got = Some [1], send_ret = 0, accept_ret = 5\<rparr>)] r0"
    using i r0(2) by (simp add: legal_def split: option.splits)
  from reactor_never_answers [OF i(1) r0(1) this] r0(1) show ?thesis by blast
qed

lemma reactor_closes_full_connection_witness:
  "\<exists>r r1. reactor_start 3 new_block = Some r \<and> (\<exists>c. handle_accept 5 3 r = Some c \<and>
    reads [replicate 1000 1, replicate 24 2] 5 c = Some r1 \<and> handle_read (Some [7]) 5 r1 = Some (close 5 r1))"
proof -
  have i: "in_block 3" "in_block 5" by (simp_all add: in_block_def MAX_ITEMS_SIZE_def)
  from start_serving [OF i(1)] obtain r b where r: "reactor_start 3 new_block = Some r" "serving 3 r b"
    "watch r = [3 \<mapsto> EPOLLIN]" "buf_r_len (b ! nat 5) = 0" using i(2) by auto
  let ?it = "(b ! nat 5)\<lparr>fd := 5, read_handle := Handle_read\<rparr>"
  let ?c = "epoll_add 5 EPOLLIN (r\<lparr>blocks := [b[nat 5 := ?it]]\<rparr>)"
  have l: "nat 5 < length b" using serving_in(4) [OF r(2) i(2)] .
  have "item_ok ?it" using serving_in(3) [OF r(2) i(2)] by (simp add: item_ok_def)
  then have c: "serving 3 ?c (b[nat 5 := ?it])"
    by (rule serving_upd [OF r(2) i(2)]) (use r(3) in \<open>simp_all add: epoll_add_def\<close>)
  have a: "handle_accept 5 3 r = Some ?c"
    using set_event_in(1) [of r b 5 Handle_read] r(2) i(2) by (simp add: handle_accept_def serving_def)
  have "watch ?c 5 = Some EPOLLIN" using r(3) by (simp add: epoll_add_def)
  from reactor_closes_full_connection [OF c i(2) _ this, of "[replicate 1000 1, replicate 24 2]" "[7]"] l r(4)
  show ?thesis using r(1) a by (auto simp: BUFFER_SIZE_def)
qed

end
