(* ===== verification/Netfamily.thy ===== *)
theory Netfamily
  imports Prelude
begin

text \<open>
  The user-space network stack of \<open>src/net_family.c\<close>: packets in packed structures, the answer to ARP
  requests, and the states of a TCP connection. A packet is a list of bytes that is read as a structure; an
  access outside of it is \<open>None\<close>. The host is little-endian. The packets that netmap gives are a parameter.
\<close>

section \<open>Integers in memory\<close>

text \<open>\<open>to_mem k n\<close>: \<open>k\<close> bytes of \<open>n\<close>, the least significant first; \<open>of_mem\<close> reads them back.\<close>

fun to_mem :: "nat \<Rightarrow> nat \<Rightarrow> u8 list" where
  "to_mem 0 n = []"
| "to_mem (Suc k) n = of_nat n # to_mem k (n div 256)"

fun of_mem :: "u8 list \<Rightarrow> nat" where
  "of_mem [] = 0"
| "of_mem (b # bs) = unat b + 256 * of_mem bs"

definition field :: "u8 list \<Rightarrow> nat \<Rightarrow> nat \<Rightarrow> nat" where
  "field m off k = of_mem (take k (drop off m))"

definition bytes_at :: "u8 list \<Rightarrow> nat \<Rightarrow> nat \<Rightarrow> u8 list" where
  "bytes_at m off k = take k (drop off m)"

definition htons :: "nat \<Rightarrow> nat" where
  "htons n = of_mem (rev (to_mem 2 n))"

section \<open>The headers\<close>

definition ETH_ADDR_LENGTH :: nat where "ETH_ADDR_LENGTH = 6"
definition PROTO_IP :: nat where "PROTO_IP = 0x0800"
definition PROTO_ARP :: nat where "PROTO_ARP = 0x0806"
definition PROTO_UDP :: u8 where "PROTO_UDP = 17"
definition PROTO_TCP :: u8 where "PROTO_TCP = 6"
definition PROTO_ICMP :: u8 where "PROTO_ICMP = 1"

record ethhdr =
  h_dst :: "u8 list"
  h_src :: "u8 list"
  h_proto :: nat

record iphdr =
  hdrlen :: u8
  version :: u8
  tos :: u8
  totlen :: nat
  ip_id :: nat
  flag_offset :: nat
  ttl :: u8
  ip_type :: u8
  ip_check :: nat
  ip_sip :: nat
  ip_dip :: nat

record udphdr =
  u_sport :: nat
  u_dport :: nat
  u_length :: nat
  u_check :: nat

record tcphdr =
  t_sport :: nat
  t_dport :: nat
  seqnum :: nat
  acknum :: nat
  hdrlen_resv :: u8
  flag :: u8
  window :: nat
  checksum :: nat
  urgent_pointer :: nat

record arphdr =
  ar_type :: nat
  ar_proto :: nat
  ar_addrlen :: u8
  ar_protolen :: u8
  ar_oper :: nat
  ar_smac :: "u8 list"
  ar_sip :: nat
  ar_dmac :: "u8 list"
  ar_dip :: nat

record arppkt =
  eh :: ethhdr
  arp :: arphdr

text \<open>The structures as they lie in memory.\<close>

definition eth_mem :: "ethhdr \<Rightarrow> u8 list" where
  "eth_mem e = h_dst e @ h_src e @ to_mem 2 (h_proto e)"

definition arp_mem :: "arphdr \<Rightarrow> u8 list" where
  "arp_mem a = to_mem 2 (ar_type a) @ to_mem 2 (ar_proto a) @ [ar_addrlen a, ar_protolen a] @ to_mem 2 (ar_oper a) @
     ar_smac a @ to_mem 4 (ar_sip a) @ ar_dmac a @ to_mem 4 (ar_dip a)"

definition arppkt_mem :: "arppkt \<Rightarrow> u8 list" where
  "arppkt_mem p = eth_mem (eh p) @ arp_mem (arp p)"

definition read_eth :: "u8 list \<Rightarrow> ethhdr option" where
  "read_eth m = (if length m < 14 then None
     else Some \<lparr>h_dst = bytes_at m 0 6, h_src = bytes_at m 6 6, h_proto = field m 12 2\<rparr>)"

definition read_ip :: "u8 list \<Rightarrow> iphdr option" where
  "read_ip m = (if length m < 34 then None
     else Some \<lparr>hdrlen = m ! 14 AND 15, version = drop_bit 4 (m ! 14), tos = m ! 15, totlen = field m 16 2,
       ip_id = field m 18 2, flag_offset = field m 20 2, ttl = m ! 22, ip_type = m ! 23, ip_check = field m 24 2,
       ip_sip = field m 26 4, ip_dip = field m 30 4\<rparr>)"

definition read_udp :: "u8 list \<Rightarrow> udphdr option" where
  "read_udp m = (if length m < 42 then None
     else Some \<lparr>u_sport = field m 34 2, u_dport = field m 36 2, u_length = field m 38 2, u_check = field m 40 2\<rparr>)"

definition read_tcp :: "u8 list \<Rightarrow> tcphdr option" where
  "read_tcp m = (if length m < 54 then None
     else Some \<lparr>t_sport = field m 34 2, t_dport = field m 36 2, seqnum = field m 38 4, acknum = field m 42 4,
       hdrlen_resv = m ! 46, flag = m ! 47, window = field m 48 2, checksum = field m 50 2, urgent_pointer = field m 52 2\<rparr>)"

definition read_arp :: "u8 list \<Rightarrow> arppkt option" where
  "read_arp m = (if length m < 42 then None
     else do {
       e \<leftarrow> read_eth m;
       Some \<lparr>eh = e, arp = \<lparr>ar_type = field m 14 2, ar_proto = field m 16 2, ar_addrlen = m ! 18, ar_protolen = m ! 19,
         ar_oper = field m 20 2, ar_smac = bytes_at m 22 6, ar_sip = field m 28 4, ar_dmac = bytes_at m 32 6,
         ar_dip = field m 38 4\<rparr>\<rparr>
     })"

section \<open>Hardware addresses\<close>

text \<open>The value of a hexadecimal digit, if the character is one.\<close>

definition hex_value :: "u8 \<Rightarrow> u8 option" where
  "hex_value c =
     (if c \<le> 57 \<and> c \<ge> 48 then Some (c - 48)
      else if c \<le> 102 \<and> c \<ge> 97 then Some (c - 97 + 10)
      else if c \<le> 70 \<and> c \<ge> 65 then Some (c - 65 + 10)
      else None)"

definition colon :: u8 where "colon = 58"

definition put_byte :: "u8 list \<Rightarrow> nat \<Rightarrow> u8 \<Rightarrow> u8 list option" where
  "put_byte m i v = (if i < length m then Some (m[i := v]) else None)"

text \<open>The loop ends at the first character that is neither a digit nor a colon, the terminating zero at
  the latest: its own condition looks at the pointer, which is never null.\<close>

fun str2mac_loop :: "u8 list \<Rightarrow> nat \<Rightarrow> u8 \<Rightarrow> u8 list \<Rightarrow> u8 list option" where
  "str2mac_loop mac i v [] = None"
| "str2mac_loop mac i v (c # str) =
     (if c = colon then do { mac \<leftarrow> put_byte mac i v; str2mac_loop mac (i + 1) 0 str }
      else (case hex_value c of
          Some temp \<Rightarrow> str2mac_loop mac i (push_bit 4 v OR temp) str
        | None \<Rightarrow> put_byte mac i v))"

definition str2mac :: "u8 list \<Rightarrow> u8 list \<Rightarrow> (int \<times> u8 list) option" where
  "str2mac mac str = do { mac \<leftarrow> str2mac_loop mac 0 0 str; Some (0, mac) }"

section \<open>The answer to an ARP request\<close>

text \<open>The answer starts as a copy of the request.\<close>

definition echo_arp_pkt :: "arppkt \<Rightarrow> u8 list \<Rightarrow> arppkt option" where
  "echo_arp_pkt p mac = do {
     let rt = p;
     let rt = rt\<lparr>eh := (eh rt)\<lparr>h_dst := h_src (eh p)\<rparr>\<rparr>;
     (ret, src) \<leftarrow> str2mac (h_src (eh rt)) mac;
     let rt = rt\<lparr>eh := (eh rt)\<lparr>h_src := src, h_proto := h_proto (eh p)\<rparr>\<rparr>;
     let rt = rt\<lparr>arp := (arp rt)\<lparr>ar_addrlen := 6, ar_protolen := 4, ar_oper := htons 2\<rparr>\<rparr>;
     (ret, smac) \<leftarrow> str2mac (ar_smac (arp rt)) mac;
     let rt = rt\<lparr>arp := (arp rt)\<lparr>ar_smac := smac, ar_sip := ar_dip (arp p)\<rparr>\<rparr>;
     Some (rt\<lparr>arp := (arp rt)\<lparr>ar_dmac := ar_smac (arp p), ar_dip := ar_sip (arp p)\<rparr>\<rparr>)
   }"

section \<open>The states of TCP\<close>

datatype tcp_status =
    TCP_STATUS_CLOSED
  | TCP_STATUS_LISTEN
  | TCP_STATUS_SYN_REVD
  | TCP_STATUS_SYN_SENT
  | TCP_STATUS_ESTABLISHED
  | TCP_STATUS_FIN_WAIT_1
  | TCP_STATUS_FIN_WAIT_2
  | TCP_STATUS_CLOSING
  | TCP_STATUS_TIME_WAIT
  | TCP_STATUS_CLOSE_WAIT
  | TCP_STATUS_LAST_ACK

text \<open>The control block of a connection; its byte \<open>status\<close> holds one of the states.\<close>

record ntcb =
  n_sip :: nat
  n_dip :: nat
  n_sport :: nat
  n_dport :: nat
  n_smac :: "u8 list"
  n_dmac :: "u8 list"
  status :: tcp_status

definition TCP_ACK_FLAG :: u8 where "TCP_ACK_FLAG = 0x10"
definition TCP_SYN_FLAG :: u8 where "TCP_SYN_FLAG = 0x02"

definition tcp_input :: "u8 \<Rightarrow> tcp_status \<Rightarrow> tcp_status" where
  "tcp_input f st =
     (if st = TCP_STATUS_LISTEN then
        if f AND TCP_SYN_FLAG \<noteq> 0 then TCP_STATUS_SYN_REVD else st
      else if st = TCP_STATUS_SYN_REVD then
        if f AND TCP_ACK_FLAG \<noteq> 0 then TCP_STATUS_ESTABLISHED else st
      else st)"

section \<open>The loop\<close>

record stack =
  tcb :: ntcb
  injected :: "u8 list list"
  printed :: "u8 list list"

text \<open>\<open>inet_addr\<close> of \<open>192.168.0.123\<close>, and the address of the interface.\<close>

definition own_ip :: nat where "own_ip = of_mem [192, 168, 0, 123]"

definition own_mac :: "u8 list" where
  "own_mac = map of_char ''00:50:56:33:1c:ca'' @ [0]"

text \<open>The C string at an offset.\<close>

definition string_at :: "u8 list \<Rightarrow> nat \<Rightarrow> u8 list" where
  "string_at m off = takeWhile (\<lambda>c. c \<noteq> 0) (drop off m)"

text \<open>One packet. The argument is the buffer that \<open>nm_nextpkt\<close> returns, and a field is read if it lies inside.
  \<open>data[udplength-8]\<close> lies \<open>udplength\<close> bytes behind the start of the UDP header, and \<open>printf\<close> needs the
  zero of the string it prints.\<close>

definition handle_packet :: "u8 list \<Rightarrow> stack \<Rightarrow> stack option" where
  "handle_packet stream s = do {
     e \<leftarrow> read_eth stream;
     if htons (h_proto e) = PROTO_IP then do {
       ip \<leftarrow> read_ip stream;
       if ip_type ip = PROTO_UDP then do {
         udp \<leftarrow> read_udp stream;
         let udplength = htons (u_length udp);
         stream \<leftarrow> put_byte stream (34 + udplength) 0;
         if 0 \<in> set (drop 42 stream) then Some (s\<lparr>printed := printed s @ [string_at stream 42]\<rparr>) else None
       }
       else if ip_type ip = PROTO_ICMP then Some s
       else if ip_type ip = PROTO_TCP then do {
         tcp \<leftarrow> read_tcp stream;
         Some (s\<lparr>tcb := (tcb s)\<lparr>status := tcp_input (flag tcp) (status (tcb s))\<rparr>\<rparr>)
       }
       else Some s
     }
     else if htons (h_proto e) = PROTO_ARP then do {
       p \<leftarrow> read_arp stream;
       if ar_dip (arp p) = own_ip then do {
         rt \<leftarrow> echo_arp_pkt p own_mac;
         Some (s\<lparr>injected := injected s @ [arppkt_mem rt]\<rparr>)
       } else Some s
     } else Some s
   }"

fun handle_packets :: "u8 list list \<Rightarrow> stack \<Rightarrow> stack option" where
  "handle_packets [] s = Some s"
| "handle_packets (p # ps) s = handle_packet p s \<bind> handle_packets ps"

end
