(* ===== verification/Netfamily_Correct.thy ===== *)
theory Netfamily_Correct
  imports Netfamily
begin

text \<open>
  The user-space network stack is correct where it is finished: an address in text is the address in bytes, the
  answer to an ARP request is the mirrored request with the own address, and a connection is established by a
  SYN and a later ACK. The write that depends on the length stated in a UDP header is not guarded.
\<close>

section \<open>Integers in memory\<close>

lemma length_to_mem [simp]: "length (to_mem k n) = k"
  by (induction k arbitrary: n) simp_all

lemma of_mem_to_mem: "of_mem (to_mem k n) = n mod 256 ^ k"
proof (induction k arbitrary: n)
  case (Suc k)
  have "of_mem (to_mem (Suc k) n) = n mod 256 + 256 * (n div 256 mod 256 ^ k)"
    by (simp add: Suc.IH unsigned_of_nat take_bit_eq_mod)
  also have "\<dots> = n mod 256 ^ Suc k" by (simp add: mod_mult2_eq)
  finally show ?case .
qed simp

lemma field_at: "length a = off \<Longrightarrow> n < 256 ^ k \<Longrightarrow> field (a @ to_mem k n @ b) off k = n"
  by (simp add: field_def of_mem_to_mem)

lemma bytes_at_append: "length a = off \<Longrightarrow> length x = k \<Longrightarrow> bytes_at (a @ x @ b) off k = x"
  by (simp add: bytes_at_def)

lemma to_mem_2: "to_mem 2 n = [of_nat n, of_nat (n div 256)]"
  using to_mem.simps(2) [of "Suc 0" n] by (simp add: numeral_2_eq_2)

lemma htons_PROTO: "htons (htons PROTO_ARP) = PROTO_ARP" "htons PROTO_ARP < 65536" "PROTO_ARP \<noteq> PROTO_IP"
  "htons 2 < 65536"
  by (simp_all add: htons_def PROTO_ARP_def PROTO_IP_def to_mem_2)

section \<open>Packets\<close>

definition arp_wf :: "arppkt \<Rightarrow> bool" where
  "arp_wf p \<longleftrightarrow> length (h_dst (eh p)) = 6 \<and> length (h_src (eh p)) = 6 \<and> h_proto (eh p) < 65536 \<and>
     ar_type (arp p) < 65536 \<and> ar_proto (arp p) < 65536 \<and> ar_oper (arp p) < 65536 \<and>
     length (ar_smac (arp p)) = 6 \<and> length (ar_dmac (arp p)) = 6 \<and>
     ar_sip (arp p) < 4294967296 \<and> ar_dip (arp p) < 4294967296"

lemma read_arp_mem:
  assumes "arp_wf p"
  shows "read_arp (arppkt_mem p @ pad) = Some p"
proof -
  obtain d s pr where eh: "eh p = \<lparr>h_dst = d, h_src = s, h_proto = pr\<rparr>" by (cases "eh p")
  obtain ty po al pl oper sm si dm di where ar: "arp p = \<lparr>ar_type = ty, ar_proto = po, ar_addrlen = al, ar_protolen = pl,
    ar_oper = oper, ar_smac = sm, ar_sip = si, ar_dmac = dm, ar_dip = di\<rparr>" by (cases "arp p")
  have p: "p = \<lparr>eh = eh p, arp = arp p\<rparr>" by (cases p) simp
  have l: "length d = 6" "length s = 6" "pr < 256 ^ 2" "ty < 256 ^ 2" "po < 256 ^ 2" "oper < 256 ^ 2"
    "length sm = 6" "length dm = 6" "si < 256 ^ 4" "di < 256 ^ 4"
    using assms by (simp_all add: arp_wf_def eh ar)
  let ?m = "d @ s @ to_mem 2 pr @ to_mem 2 ty @ to_mem 2 po @ [al, pl] @ to_mem 2 oper @ sm @ to_mem 4 si @ dm @ to_mem 4 di @ pad"
  have m: "arppkt_mem p @ pad = ?m" by (simp add: arppkt_mem_def eth_mem_def arp_mem_def eh ar)
  have "bytes_at ?m 0 6 = d" "bytes_at ?m 6 6 = s" "field ?m 12 2 = pr" "field ?m 14 2 = ty" "field ?m 16 2 = po"
    "field ?m 20 2 = oper" "bytes_at ?m 22 6 = sm" "field ?m 28 4 = si" "bytes_at ?m 32 6 = dm" "field ?m 38 4 = di"
    using l
      bytes_at_append [of "[]" 0 d 6] bytes_at_append [of d 6 s 6] field_at [of "d @ s" 12 pr 2]
      field_at [of "d @ s @ to_mem 2 pr" 14 ty 2] field_at [of "d @ s @ to_mem 2 pr @ to_mem 2 ty" 16 po 2]
      field_at [of "d @ s @ to_mem 2 pr @ to_mem 2 ty @ to_mem 2 po @ [al, pl]" 20 oper 2]
      bytes_at_append [of "d @ s @ to_mem 2 pr @ to_mem 2 ty @ to_mem 2 po @ [al, pl] @ to_mem 2 oper" 22 sm 6]
      field_at [of "d @ s @ to_mem 2 pr @ to_mem 2 ty @ to_mem 2 po @ [al, pl] @ to_mem 2 oper @ sm" 28 si 4]
      bytes_at_append [of "d @ s @ to_mem 2 pr @ to_mem 2 ty @ to_mem 2 po @ [al, pl] @ to_mem 2 oper @ sm @ to_mem 4 si" 32 dm 6]
      field_at [of "d @ s @ to_mem 2 pr @ to_mem 2 ty @ to_mem 2 po @ [al, pl] @ to_mem 2 oper @ sm @ to_mem 4 si @ dm" 38 di 4]
    by simp_all
  moreover have "?m ! 18 = al" "?m ! 19 = pl" "\<not> length ?m < 42" "\<not> length ?m < 14"
    using l by (simp_all add: nth_append)
  ultimately have "read_arp ?m = Some \<lparr>eh = eh p, arp = arp p\<rparr>"
    unfolding read_arp_def read_eth_def eh ar by simp
  then show ?thesis unfolding m using p by simp
qed

section \<open>Hardware addresses\<close>

definition hex_digit :: "nat \<Rightarrow> u8" where
  "hex_digit n = (if n < 10 then of_nat (48 + n) else of_nat (87 + n))"

lemma hex_value_digit:
  assumes "n < 16"
  shows "hex_value (hex_digit n) = Some (of_nat n)" "hex_digit n \<noteq> colon"
proof -
  have "\<forall>n \<in> set [0..<16]. hex_value (hex_digit n) = Some (of_nat n) \<and> hex_digit n \<noteq> colon" by code_simp
  then show "hex_value (hex_digit n) = Some (of_nat n)" "hex_digit n \<noteq> colon" using assms by simp_all
qed

text \<open>An address as text: the bytes with two digits each, colons between them, and the zero.\<close>

definition hex_byte :: "u8 \<Rightarrow> u8 list" where
  "hex_byte b = [hex_digit (unat (drop_bit 4 b)), hex_digit (unat (b AND 15))]"

fun mac_text :: "u8 list \<Rightarrow> u8 list" where
  "mac_text [] = [0]"
| "mac_text [b] = hex_byte b @ [0]"
| "mac_text (b # bs) = hex_byte b @ colon # mac_text bs"

lemma nibbles: "push_bit 4 (drop_bit 4 b) OR (b AND 15) = b" for b :: u8
proof -
  have "(15 :: u8) = mask 4" by (simp add: mask_eq_exp_minus_1)
  then show ?thesis by (auto simp: bit_simps bit_eq_iff)
qed

lemma read_byte: "str2mac_loop mac i 0 (hex_byte b @ str) = str2mac_loop mac i b str"
proof -
  have "unat b < 256" using unsigned_less [of b] by simp
  then have "unat (drop_bit 4 b) < 16" by (simp add: drop_bit_eq_div unat_div)
  moreover have "unat (b AND 15) < 16"
  proof -
    have "unat (b AND 15) = unat b AND 15" by (simp add: unsigned_and_eq)
    also have "\<dots> = unat b mod 16" using take_bit_eq_mask [of 4 "unat b"] by (simp add: take_bit_eq_mod mask_eq_exp_minus_1)
    finally show ?thesis by simp
  qed
  ultimately show ?thesis using nibbles [of b] by (simp add: hex_byte_def hex_value_digit)
qed

lemma str2mac_loop_text:
  "bs \<noteq> [] \<Longrightarrow> i + length bs \<le> length mac \<Longrightarrow>
   str2mac_loop mac i 0 (mac_text bs) = Some (take i mac @ bs @ drop (i + length bs) mac)"
proof (induction bs arbitrary: i mac rule: mac_text.induct)
  case (2 b)
  have "hex_value 0 = None" "(0 :: u8) \<noteq> colon" by (simp_all add: hex_value_def colon_def)
  then show ?case using 2 by (simp add: read_byte put_byte_def upd_conv_take_nth_drop)
next
  case (3 b c bs)
  let ?mac = "mac[i := b]"
  have "str2mac_loop mac i 0 (mac_text (b # c # bs)) = str2mac_loop ?mac (i + 1) 0 (mac_text (c # bs))"
    using 3(3) by (simp add: read_byte put_byte_def)
  also have "\<dots> = Some (take (i + 1) ?mac @ (c # bs) @ drop (i + 1 + length (c # bs)) ?mac)"
    using 3(1) [of "i + 1" ?mac] 3(3) by simp
  finally show ?case using 3(3) by (simp add: take_Suc_conv_app_nth)
qed simp

definition own_mac_bytes :: "u8 list" where
  "own_mac_bytes = [0x00, 0x50, 0x56, 0x33, 0x1c, 0xca]"

lemma own_mac_text: "own_mac = mac_text own_mac_bytes"
  by (simp add: own_mac_def own_mac_bytes_def hex_byte_def hex_digit_def colon_def)

lemma str2mac_own: "length m = 6 \<Longrightarrow> str2mac m own_mac = Some (0, own_mac_bytes)"
  using str2mac_loop_text [of own_mac_bytes 0 m] by (simp add: str2mac_def own_mac_text) (simp add: own_mac_bytes_def)

text \<open>The answer to a request.\<close>

definition arp_answer :: "arppkt \<Rightarrow> arppkt" where
  "arp_answer p = \<lparr>eh = \<lparr>h_dst = h_src (eh p), h_src = own_mac_bytes, h_proto = h_proto (eh p)\<rparr>,
     arp = \<lparr>ar_type = ar_type (arp p), ar_proto = ar_proto (arp p), ar_addrlen = 6, ar_protolen = 4, ar_oper = htons 2,
       ar_smac = own_mac_bytes, ar_sip = ar_dip (arp p), ar_dmac = ar_smac (arp p), ar_dip = ar_sip (arp p)\<rparr>\<rparr>"

lemma echo_answer: "arp_wf p \<Longrightarrow> echo_arp_pkt p own_mac = Some (arp_answer p)"
  by (simp add: echo_arp_pkt_def arp_wf_def str2mac_own arp_answer_def)

lemma answer_wf: "arp_wf p \<Longrightarrow> arp_wf (arp_answer p)"
  using htons_PROTO(4) by (simp add: arp_wf_def arp_answer_def own_mac_bytes_def)


section \<open>Packets that are complete\<close>

definition is_udp :: "u8 list \<Rightarrow> bool" where
  "is_udp m \<longleftrightarrow> htons (field m 12 2) = PROTO_IP \<and> m ! 23 = PROTO_UDP"

definition is_tcp :: "u8 list \<Rightarrow> bool" where
  "is_tcp m \<longleftrightarrow> htons (field m 12 2) = PROTO_IP \<and> m ! 23 = PROTO_TCP"

definition syn_packet :: "u8 list \<Rightarrow> bool" where
  "syn_packet m \<longleftrightarrow> is_tcp m \<and> m ! 47 AND TCP_SYN_FLAG \<noteq> 0"

definition ack_packet :: "u8 list \<Rightarrow> bool" where
  "ack_packet m \<longleftrightarrow> is_tcp m \<and> m ! 47 AND TCP_ACK_FLAG \<noteq> 0"

text \<open>The buffer holds all the headers, and the length that a UDP header states is true.\<close>

definition packet_ok :: "u8 list \<Rightarrow> bool" where
  "packet_ok m \<longleftrightarrow> 54 \<le> length m \<and>
     (is_udp m \<longrightarrow> 8 \<le> htons (field m 38 2) \<and> 34 + htons (field m 38 2) < length m)"

lemma protocols [simp]: "PROTO_UDP \<noteq> PROTO_TCP" "PROTO_ICMP \<noteq> PROTO_TCP"
  by (simp_all add: PROTO_UDP_def PROTO_TCP_def PROTO_ICMP_def)

lemma read_eth_ok: "14 \<le> length m \<Longrightarrow> \<exists>e. read_eth m = Some e \<and> h_proto e = field m 12 2"
  by (simp add: read_eth_def)

lemma read_ip_ok: "34 \<le> length m \<Longrightarrow> \<exists>ip. read_ip m = Some ip \<and> ip_type ip = m ! 23"
  by (simp add: read_ip_def)

lemma read_udp_ok: "42 \<le> length m \<Longrightarrow> \<exists>udp. read_udp m = Some udp \<and> u_length udp = field m 38 2"
  by (simp add: read_udp_def)

lemma read_tcp_ok: "54 \<le> length m \<Longrightarrow> \<exists>tcp. read_tcp m = Some tcp \<and> flag tcp = m ! 47"
  by (simp add: read_tcp_def)

lemma read_arp_ok: "42 \<le> length m \<Longrightarrow> \<exists>p. read_arp m = Some p \<and> length (h_src (eh p)) = 6 \<and> length (ar_smac (arp p)) = 6"
  by (simp add: read_arp_def read_eth_def bytes_at_def)

lemma echo_ok:
  assumes "length (h_src (eh p)) = 6" "length (ar_smac (arp p)) = 6"
  shows "\<exists>rt. echo_arp_pkt p own_mac = Some rt"
  using assms by (simp add: echo_arp_pkt_def str2mac_own)

lemma udp_ok:
  assumes "packet_ok m" "is_udp m"
  shows "\<exists>s'. handle_packet m s = Some s'"
proof -
  obtain e where e: "read_eth m = Some e" "h_proto e = field m 12 2"
    using read_eth_ok [of m] assms by (auto simp: packet_ok_def)
  obtain ip where ip: "read_ip m = Some ip" "ip_type ip = m ! 23" using read_ip_ok [of m] assms by (auto simp: packet_ok_def)
  obtain udp where udp: "read_udp m = Some udp" "u_length udp = field m 38 2"
    using read_udp_ok [of m] assms by (auto simp: packet_ok_def)
  define n where "n = 34 + htons (field m 38 2)"
  have n: "n < length m" "42 \<le> n" "54 \<le> length m" using assms by (simp_all add: packet_ok_def n_def)
  have "drop 42 (m[n := 0]) ! (n - 42) = 0" "n - 42 < length (drop 42 (m[n := 0]))" using n by simp_all
  then have "0 \<in> set (drop 42 (m[n := 0]))" by (metis nth_mem)
  then show ?thesis using assms(2) e n ip udp by (simp add: handle_packet_def is_udp_def put_byte_def flip: n_def)
qed

lemma packet_ok_handled:
  assumes "packet_ok m"
  shows "\<exists>s'. handle_packet m s = Some s'"
proof (cases "is_udp m")
  case True
  then show ?thesis using udp_ok assms by simp
next
  case False
  have l: "54 \<le> length m" using assms by (simp add: packet_ok_def)
  obtain e where e: "read_eth m = Some e" "h_proto e = field m 12 2" using read_eth_ok [of m] l by auto
  obtain p where p: "read_arp m = Some p" "length (h_src (eh p)) = 6" "length (ar_smac (arp p)) = 6"
    using read_arp_ok [of m] l by auto
  obtain ip where ip: "read_ip m = Some ip" "ip_type ip = m ! 23" using read_ip_ok [of m] l by auto
  obtain tcp where tcp: "read_tcp m = Some tcp" using read_tcp_ok [of m] l by auto
  obtain rt where "echo_arp_pkt p own_mac = Some rt" using echo_ok p by blast
  then show ?thesis using False e p l ip tcp by (simp add: handle_packet_def is_udp_def)
qed

section \<open>The connection\<close>

definition tcp_step :: "u8 list \<Rightarrow> tcp_status \<Rightarrow> tcp_status" where
  "tcp_step m st = (if is_tcp m then tcp_input (m ! 47) st else st)"

lemma packet_tcb: "handle_packet m s = Some s' \<Longrightarrow> status (tcb s') = tcp_step m (status (tcb s))"
  by (auto simp: handle_packet_def tcp_step_def is_tcp_def read_eth_def read_ip_def read_tcp_def Let_def
      split: if_splits bind_splits)

lemma packets_tcb: "handle_packets ms s = Some s' \<Longrightarrow> status (tcb s') = fold tcp_step ms (status (tcb s))"
  by (induction ms arbitrary: s) (auto simp: bind_eq_Some_conv dest!: packet_tcb)

lemma packets_ok: "\<forall>m \<in> set ms. packet_ok m \<Longrightarrow> \<exists>s'. handle_packets ms s = Some s'"
proof (induction ms arbitrary: s)
  case (Cons m ms)
  obtain s1 where "handle_packet m s = Some s1" using packet_ok_handled [of m s] Cons.prems by auto
  then show ?case using Cons.IH [of s1] Cons.prems by simp
qed simp

lemma tcp_step_simps:
  "tcp_step m TCP_STATUS_ESTABLISHED = TCP_STATUS_ESTABLISHED"
  "tcp_step m TCP_STATUS_SYN_REVD = (if ack_packet m then TCP_STATUS_ESTABLISHED else TCP_STATUS_SYN_REVD)"
  "tcp_step m TCP_STATUS_LISTEN = (if syn_packet m then TCP_STATUS_SYN_REVD else TCP_STATUS_LISTEN)"
  by (simp_all add: tcp_step_def tcp_input_def ack_packet_def syn_packet_def)

lemma stays_established: "fold tcp_step ms TCP_STATUS_ESTABLISHED = TCP_STATUS_ESTABLISHED"
  by (induction ms) (simp_all add: tcp_step_simps)

lemma from_syn_revd:
  "fold tcp_step ms TCP_STATUS_SYN_REVD = TCP_STATUS_ESTABLISHED \<longleftrightarrow> (\<exists>m \<in> set ms. ack_packet m)"
  by (induction ms) (simp_all add: tcp_step_simps stays_established)

text \<open>A packet with the SYN flag, and a later one with the ACK flag.\<close>

definition handshake :: "u8 list list \<Rightarrow> bool" where
  "handshake ms \<longleftrightarrow> (\<exists>i j. i < j \<and> j < length ms \<and> syn_packet (ms ! i) \<and> ack_packet (ms ! j))"

lemma handshake_Cons: "handshake (m # ms) \<longleftrightarrow> syn_packet m \<and> (\<exists>k \<in> set ms. ack_packet k) \<or> handshake ms"
proof
  assume "handshake (m # ms)"
  then obtain i j where *: "i < j" "j < Suc (length ms)" "syn_packet ((m # ms) ! i)" "ack_packet ((m # ms) ! j)"
    by (auto simp: handshake_def)
  then obtain j' where j: "j = Suc j'" by (cases j) simp_all
  show "syn_packet m \<and> (\<exists>k \<in> set ms. ack_packet k) \<or> handshake ms"
  proof (cases i)
    case 0
    then show ?thesis using * j by auto
  next
    case (Suc i')
    then show ?thesis using * j by (auto simp: handshake_def)
  qed
next
  assume "syn_packet m \<and> (\<exists>k \<in> set ms. ack_packet k) \<or> handshake ms"
  then consider k where "syn_packet m" "k < length ms" "ack_packet (ms ! k)"
    | i j where "i < j" "j < length ms" "syn_packet (ms ! i)" "ack_packet (ms ! j)"
    by (auto simp: handshake_def in_set_conv_nth)
  then show "handshake (m # ms)"
  proof cases
    case (1 k)
    then show ?thesis unfolding handshake_def by (intro exI [of _ 0] exI [of _ "Suc k"]) simp
  next
    case (2 i j)
    then show ?thesis unfolding handshake_def by (intro exI [of _ "Suc i"] exI [of _ "Suc j"]) simp
  qed
qed

lemma handshake_Nil: "\<not> handshake []" by (simp add: handshake_def)

lemma handshake_has_ack: "handshake ms \<Longrightarrow> \<exists>k \<in> set ms. ack_packet k"
  by (auto simp: handshake_def)

lemma from_listen: "fold tcp_step ms TCP_STATUS_LISTEN = TCP_STATUS_ESTABLISHED \<longleftrightarrow> handshake ms"
  using handshake_has_ack
  by (induction ms) (auto simp: tcp_step_simps from_syn_revd handshake_Cons handshake_Nil)

lemma arp_field: "arp_wf p \<Longrightarrow> field (arppkt_mem p @ pad) 12 2 = h_proto (eh p)"
  using field_at [of "h_dst (eh p) @ h_src (eh p)" 12 "h_proto (eh p)" 2]
  by (simp add: arppkt_mem_def eth_mem_def arp_wf_def)

lemma arp_len: "arp_wf p \<Longrightarrow> length (arppkt_mem p) = 42"
  by (simp add: arp_wf_def arppkt_mem_def eth_mem_def arp_mem_def)


lemma udp_length_unchecked:
  assumes "42 \<le> length m" "is_udp m" "length m \<le> 34 + htons (field m 38 2)"
  shows "handle_packet m s = None"
  using assms by (simp add: handle_packet_def is_udp_def read_eth_def read_ip_def read_udp_def put_byte_def)

section \<open>Properties\<close>

text \<open>
  \<open>str2mac\<close> reads an address as it is usually written, two hexadecimal digits for each
  byte and colons between them: it writes exactly the bytes of the address to the front of the array and leaves
  the rest alone, for addresses of any length that fits.
\<close>
theorem str2mac_parses:
  assumes "bs \<noteq> []" "length bs \<le> length mac"
  shows "str2mac mac (mac_text bs) = Some (0, bs @ drop (length bs) mac)"
  using str2mac_loop_text [of bs 0 mac] assms by (simp add: str2mac_def)

theorem str2mac_parses_witness:
  "str2mac [9, 9, 9] (mac_text [0x1c, 0xca]) = Some (0, [0x1c, 0xca, 9])"
  using str2mac_parses [of "[0x1c, 0xca]" "[9, 9, 9]"] by simp

text \<open>
  C21. When an ARP request for the own IP address arrives, exactly one packet is injected.
  Read as a packet it is addressed to the sender, comes from the own hardware address, is a reply, states the
  own hardware address for the IP address that was asked for, and names the sender's addresses as its target.
  The state of the connection does not change.
\<close>
theorem arp_request_is_answered:
  assumes "arp_wf p" "h_proto (eh p) = htons PROTO_ARP" "ar_dip (arp p) = own_ip"
  shows "\<exists>answer. handle_packet (arppkt_mem p @ pad) s = Some (s\<lparr>injected := injected s @ [answer]\<rparr>) \<and>
    (\<exists>rt. read_arp answer = Some rt \<and>
       h_dst (eh rt) = h_src (eh p) \<and> h_src (eh rt) = own_mac_bytes \<and> h_proto (eh rt) = htons PROTO_ARP \<and>
       ar_oper (arp rt) = htons 2 \<and> ar_smac (arp rt) = own_mac_bytes \<and> ar_sip (arp rt) = own_ip \<and>
       ar_dmac (arp rt) = ar_smac (arp p) \<and> ar_dip (arp rt) = ar_sip (arp p))"
proof -
  let ?m = "arppkt_mem p @ pad" and ?a = "arppkt_mem (arp_answer p)"
  obtain e where e: "read_eth ?m = Some e" "h_proto e = htons PROTO_ARP"
    using read_eth_ok [of ?m] arp_field [OF assms(1), of pad] arp_len [OF assms(1)] assms(2) by auto
  have "handle_packet ?m s = Some (s\<lparr>injected := injected s @ [?a]\<rparr>)"
    using e assms(3) read_arp_mem [OF assms(1)] echo_answer [OF assms(1)] htons_PROTO(1,3)
    by (simp add: handle_packet_def)
  moreover have "read_arp ?a = Some (arp_answer p)"
    using read_arp_mem [OF answer_wf [OF assms(1)], of "[]"] by simp
  moreover have "h_dst (eh (arp_answer p)) = h_src (eh p) \<and> h_src (eh (arp_answer p)) = own_mac_bytes \<and>
    h_proto (eh (arp_answer p)) = htons PROTO_ARP \<and> ar_oper (arp (arp_answer p)) = htons 2 \<and>
    ar_smac (arp (arp_answer p)) = own_mac_bytes \<and> ar_sip (arp (arp_answer p)) = own_ip \<and>
    ar_dmac (arp (arp_answer p)) = ar_smac (arp p) \<and> ar_dip (arp (arp_answer p)) = ar_sip (arp p)"
    using assms by (simp add: arp_answer_def)
  ultimately show ?thesis by blast
qed

definition sample_tcb :: ntcb where
  "sample_tcb = \<lparr>n_sip = 0, n_dip = 0, n_sport = 0, n_dport = 0, n_smac = [], n_dmac = [], status = TCP_STATUS_LISTEN\<rparr>"

definition sample_request :: arppkt where
  "sample_request = \<lparr>eh = \<lparr>h_dst = replicate 6 255, h_src = [2, 0, 0, 0, 0, 1], h_proto = htons PROTO_ARP\<rparr>,
     arp = \<lparr>ar_type = htons 1, ar_proto = htons PROTO_IP, ar_addrlen = 6, ar_protolen = 4, ar_oper = htons 1,
       ar_smac = [2, 0, 0, 0, 0, 1], ar_sip = of_mem [192, 168, 0, 1], ar_dmac = replicate 6 0, ar_dip = own_ip\<rparr>\<rparr>"

lemma sample_request_wf:
  "arp_wf sample_request" "h_proto (eh sample_request) = htons PROTO_ARP" "ar_dip (arp sample_request) = own_ip"
  by (simp_all add: arp_wf_def sample_request_def htons_def to_mem_2 PROTO_ARP_def PROTO_IP_def own_ip_def)

theorem arp_request_is_answered_witness:
  "\<exists>answer. handle_packet (arppkt_mem sample_request) \<lparr>tcb = sample_tcb, injected = [], printed = []\<rparr> =
     Some \<lparr>tcb = sample_tcb, injected = [answer], printed = []\<rparr>"
  using arp_request_is_answered [OF sample_request_wf, of "[]" "\<lparr>tcb = sample_tcb, injected = [], printed = []\<rparr>"]
  by auto

text \<open>
  C22. Whatever complete packets of all protocols arrive, in whatever order, the
  loop handles all of them, and a connection that listens at first is established at the end exactly if some TCP
  packet with the SYN flag was followed by a later one with the ACK flag.
\<close>
theorem tcp_established_iff_handshake:
  assumes "\<forall>m \<in> set ms. packet_ok m" "status (tcb s) = TCP_STATUS_LISTEN"
  shows "\<exists>s'. handle_packets ms s = Some s' \<and> (status (tcb s') = TCP_STATUS_ESTABLISHED \<longleftrightarrow> handshake ms)"
  using packets_ok [OF assms(1), of s] packets_tcb [of ms s] from_listen assms(2) by auto

definition sample_tcp :: "u8 \<Rightarrow> u8 list" where
  "sample_tcp f = replicate 12 0 @ [8, 0] @ replicate 9 0 @ [6] @ replicate 23 0 @ [f] @ replicate 6 0"

lemma sample_tcp_is:
  "is_tcp (sample_tcp f)" "sample_tcp f ! 47 = f" "packet_ok (sample_tcp f)"
proof -
  have "field (sample_tcp f) 12 2 = 8" by (simp add: sample_tcp_def field_def)
  moreover have "htons 8 = PROTO_IP" by (simp add: htons_def to_mem_2 PROTO_IP_def)
  moreover have "sample_tcp f ! 23 = 6" "length (sample_tcp f) = 54" by (simp_all add: sample_tcp_def nth_append)
  ultimately show "is_tcp (sample_tcp f)" "packet_ok (sample_tcp f)"
    by (simp_all add: is_tcp_def packet_ok_def is_udp_def PROTO_TCP_def PROTO_UDP_def)
  show "sample_tcp f ! 47 = f" by (simp add: sample_tcp_def nth_append)
qed

lemma sample_arp_ok: "packet_ok (arppkt_mem sample_request @ replicate 12 0)"
  using arp_field [OF sample_request_wf(1), of "replicate 12 0"] arp_len [OF sample_request_wf(1)]
    sample_request_wf(2) htons_PROTO
  by (simp add: packet_ok_def is_udp_def)

theorem tcp_established_iff_handshake_witness:
  "\<exists>s'. handle_packets [sample_tcp 0x02, arppkt_mem sample_request @ replicate 12 0, sample_tcp 0x10]
          \<lparr>tcb = sample_tcb, injected = [], printed = []\<rparr> = Some s' \<and> status (tcb s') = TCP_STATUS_ESTABLISHED"
proof -
  let ?ms = "[sample_tcp 0x02, arppkt_mem sample_request @ replicate 12 0, sample_tcp 0x10]"
  have ok: "\<forall>m \<in> set ?ms. packet_ok m" by (simp add: sample_tcp_is sample_arp_ok)
  have f: "syn_packet (?ms ! 0)" "ack_packet (?ms ! 2)"
    by (simp_all add: syn_packet_def ack_packet_def sample_tcp_is TCP_SYN_FLAG_def TCP_ACK_FLAG_def)
  have "handshake ?ms" unfolding handshake_def using f by (intro exI [of _ 0] exI [of _ 2]) simp
  then show ?thesis
    using tcp_established_iff_handshake [OF ok, of "\<lparr>tcb = sample_tcb, injected = [], printed = []\<rparr>"] by (simp add: sample_tcb_def)
qed

end
