(* ===== verification/Timerset.thy ===== *)
theory Timerset
  imports Prelude Interfaces
begin

text \<open>
  The timer of \<open>src/timer.cpp\<close>: a \<open>std::set\<close> of tasks ordered by their expiry and number, and a main loop
  that sleeps until the first one. The clock is \<open>el\<close>: \<open>el n\<close> milliseconds pass before its n-th reading.
  A callback is told apart by a tag; \<open>script\<close> says what it does with the timer. \<open>None\<close> is undefined
  behaviour, or a loop that does not end.
\<close>

section \<open>Tasks and their order\<close>

datatype task_base = TaskNodeBase (task_id: u64) (task_timeout: int)

definition base_less :: "task_base \<Rightarrow> task_base \<Rightarrow> bool" where
  "base_less lhs rhs =
     (if task_timeout lhs < task_timeout rhs then True
      else if task_timeout lhs > task_timeout rhs then False
      else if task_id lhs < task_id rhs then True else False)"

instantiation task_base :: linorder
begin

definition less_task_base :: "task_base \<Rightarrow> task_base \<Rightarrow> bool" where
  "a < b \<longleftrightarrow> base_less a b" for a b :: task_base

definition less_eq_task_base :: "task_base \<Rightarrow> task_base \<Rightarrow> bool" where
  "a \<le> b \<longleftrightarrow> a = b \<or> base_less a b" for a b :: task_base

instance
  by standard
    (auto simp: less_task_base_def less_eq_task_base_def base_less_def task_base.expand split: if_splits)

end

record 'f task_node =
  base :: task_base
  func :: 'f

section \<open>The set\<close>

text \<open>A \<open>std::set\<close> is the list of its elements in order; what is neither less nor greater is equal.\<close>

fun set_insert :: "'f task_node \<Rightarrow> 'f task_node list \<Rightarrow> bool \<times> 'f task_node list" where
  "set_insert t [] = (True, [t])"
| "set_insert t (x # xs) =
     (if base t < base x then (True, t # x # xs)
      else if base x < base t then (case set_insert t xs of (ok, ys) \<Rightarrow> (ok, x # ys))
      else (False, x # xs))"

fun set_find :: "task_base \<Rightarrow> 'f task_node list \<Rightarrow> 'f task_node option" where
  "set_find k [] = None"
| "set_find k (x # xs) = (if base x < k then set_find k xs else if k < base x then None else Some x)"

definition set_erase :: "task_base \<Rightarrow> 'f task_node list \<Rightarrow> 'f task_node list" where
  "set_erase k ts = filter (\<lambda>t. base t \<noteq> k) ts"

section \<open>The timer\<close>

record 'f timer =
  next_id :: u64
  task_sets :: "'f task_node list"
  now :: int
  reads :: nat
  fired :: "(int \<times> 'f task_node) list"

definition timer_init :: "int \<Rightarrow> 'f timer" where
  "timer_init t = \<lparr>next_id = 0, task_sets = [], now = t, reads = 0, fired = []\<rparr>"

definition get_tick :: "(nat \<Rightarrow> nat) \<Rightarrow> 'f timer \<Rightarrow> int \<times> 'f timer" where
  "get_tick el s = (let t = now s + int (el (reads s)) in (t, s\<lparr>now := t, reads := Suc (reads s)\<rparr>))"

text \<open>The signed sum must not overflow.\<close>

definition time_max :: int where "time_max = 2 ^ 63 - 1"

definition add_task :: "(nat \<Rightarrow> nat) \<Rightarrow> int \<Rightarrow> 'f \<Rightarrow> 'f timer \<Rightarrow> (task_base \<times> 'f timer) option" where
  "add_task el timeout f s =
     (case get_tick el s of (t, s') \<Rightarrow>
        if timeout + t > time_max then None
        else (let task = \<lparr>base = TaskNodeBase (next_id s) (timeout + t), func = f\<rparr> in
          Some (base task, s'\<lparr>next_id := next_id s + 1, task_sets := snd (set_insert task (task_sets s))\<rparr>)))"

definition del_task :: "task_base \<Rightarrow> 'f timer \<Rightarrow> bool \<times> 'f timer" where
  "del_task k s =
     (case set_find k (task_sets s) of
        Some it \<Rightarrow> (True, s\<lparr>task_sets := set_erase (base it) (task_sets s)\<rparr>)
      | None \<Rightarrow> (False, s))"

text \<open>What a callback can do with the timer, and the call of one.\<close>

datatype 'f timer_op = Op_add int 'f | Op_del task_base

fun callback_ops :: "(nat \<Rightarrow> nat) \<Rightarrow> 'f timer_op list \<Rightarrow> 'f timer \<Rightarrow> 'f timer option" where
  "callback_ops el [] s = Some s"
| "callback_ops el (Op_add d f # as) s = do { (b, s) \<leftarrow> add_task el d f s; callback_ops el as s }"
| "callback_ops el (Op_del k # as) s = callback_ops el as (snd (del_task k s))"

text \<open>After the callback the iterator is erased: it must still be one of the set.\<close>

definition check_task ::
  "('f task_node \<Rightarrow> 'f timer_op list) \<Rightarrow> (nat \<Rightarrow> nat) \<Rightarrow> 'f timer \<Rightarrow> (bool \<times> 'f timer) option"
where
  "check_task script el s =
     (case task_sets s of
        [] \<Rightarrow> Some (False, s)
      | it # ts \<Rightarrow> (case get_tick el s of (t, s) \<Rightarrow>
          if task_timeout (base it) \<le> t then do {
            s \<leftarrow> callback_ops el (script it) (s\<lparr>fired := fired s @ [(t, it)]\<rparr>);
            if base it \<in> base ` set (task_sets s) then Some (True, s\<lparr>task_sets := set_erase (base it) (task_sets s)\<rparr>)
            else None
          } else Some (False, s)))"

text \<open>\<open>begin()\<close> of an empty set is \<open>end()\<close>, which cannot be read.\<close>

definition time_to_sleep :: "(nat \<Rightarrow> nat) \<Rightarrow> 'f timer \<Rightarrow> (int \<times> 'f timer) option" where
  "time_to_sleep el s =
     (case task_sets s of
        [] \<Rightarrow> None
      | it # ts \<Rightarrow> (case get_tick el s of (t, s) \<Rightarrow>
          (let err = task_timeout (base it) - t in if err < 0 then Some (-1, s) else Some (err, s))))"

section \<open>The main loop\<close>

partial_function (option) check_loop ::
  "('f task_node \<Rightarrow> 'f timer_op list) \<Rightarrow> (nat \<Rightarrow> nat) \<Rightarrow> 'f timer \<Rightarrow> 'f timer option"
where
  "check_loop script el s = do {
     (b, s) \<leftarrow> check_task script el s;
     if b then check_loop script el s else Some s
   }"

text \<open>Division in C rounds towards zero, and \<open>sleep\<close> takes an \<open>unsigned int\<close> of seconds.\<close>

definition seconds :: "int \<Rightarrow> int" where
  "seconds t = (if t < 0 then - (- t div 1000) else t div 1000) mod 2 ^ 32"

definition main_turn ::
  "('f task_node \<Rightarrow> 'f timer_op list) \<Rightarrow> (nat \<Rightarrow> nat) \<Rightarrow> 'f timer \<Rightarrow> 'f timer option"
where
  "main_turn script el s = do {
     (t, s) \<leftarrow> time_to_sleep el s;
     check_loop script el (s\<lparr>now := now s + 1000 * seconds t\<rparr>)
   }"

fun main_turns ::
  "('f task_node \<Rightarrow> 'f timer_op list) \<Rightarrow> (nat \<Rightarrow> nat) \<Rightarrow> nat \<Rightarrow> 'f timer \<Rightarrow> 'f timer option"
where
  "main_turns script el 0 s = Some s"
| "main_turns script el (Suc n) s = main_turn script el s \<bind> main_turns script el n"

definition main_start :: "(nat \<Rightarrow> nat) \<Rightarrow> 'f \<Rightarrow> int \<Rightarrow> 'f timer option" where
  "main_start el f t = do {
     (b, s) \<leftarrow> add_task el 1000 f (timer_init t);
     (b, s) \<leftarrow> add_task el 1000 f s;
     (b, s) \<leftarrow> add_task el 10000 f s;
     Some s
   }"

end
