(* ===== verification/Timerset_Correct.thy ===== *)
theory Timerset_Correct
  imports Timerset
begin

text \<open>
  The timer over an ordered set is correct: the set stays sorted whatever callbacks do, no task fires early,
  the due tasks fire in order, and the main loop fires everything; then it reads the end of the empty set.
\<close>

section \<open>The set\<close>

definition sorted_tasks :: "'f task_node list \<Rightarrow> bool" where
  "sorted_tasks ts \<longleftrightarrow> sorted_wrt (<) (map base ts)"

lemma sorted_tasks_simps [simp]:
  "sorted_tasks []"
  "sorted_tasks (t # ts) \<longleftrightarrow> (\<forall>x \<in> set ts. base t < base x) \<and> sorted_tasks ts"
  by (simp_all add: sorted_tasks_def)

lemma set_insert_set:
  "sorted_tasks ts \<Longrightarrow>
   set (snd (set_insert t ts)) = (if base t \<in> base ` set ts then set ts else insert t (set ts))"
  by (induction ts) (auto split: prod.splits)

lemma set_insert_sorted: "sorted_tasks ts \<Longrightarrow> sorted_tasks (snd (set_insert t ts))"
proof (induction ts)
  case (Cons x ts)
  then have "\<forall>y \<in> set (snd (set_insert t ts)). y = t \<or> y \<in> set ts" by (auto simp: set_insert_set)
  then show ?case using Cons by (auto split: prod.splits)
qed simp

lemma set_insert_new:
  "sorted_tasks ts \<Longrightarrow> base t \<notin> base ` set ts \<Longrightarrow>
   fst (set_insert t ts) \<and> mset (snd (set_insert t ts)) = add_mset t (mset ts)"
  by (induction ts) (auto split: prod.splits)

lemma set_find_iff: "sorted_tasks ts \<Longrightarrow> set_find k ts = Some it \<longleftrightarrow> it \<in> set ts \<and> base it = k"
  by (induction ts) auto

lemma set_erase_sorted: "sorted_tasks ts \<Longrightarrow> sorted_tasks (set_erase k ts)"
  by (induction ts) (auto simp: set_erase_def)

lemma set_erase_hd: "sorted_tasks (it # ts) \<Longrightarrow> set_erase (base it) (it # ts) = ts"
  by (auto simp: set_erase_def filter_id_conv)

text \<open>As a sorted bag: an insertion that succeeds adds the key, and the elements are listed in order.\<close>

definition bag_add :: "'f task_node \<Rightarrow> 'f task_node list \<Rightarrow> 'f task_node list option" where
  "bag_add t ts = (case set_insert t ts of (ok, ts) \<Rightarrow> if ok then Some ts else None)"

interpretation tset: sorted_bag "\<lambda>ts. sorted_tasks ts" "\<lambda>ts. image_mset base (mset ts)" bag_add base
  "\<lambda>ts t. base t \<notin> base ` set ts" "\<lambda>a b. base a \<noteq> base b" "\<lambda>ts n. True" "\<lambda>ts. Some (map base ts)"
proof unfold_locales
  fix ts :: "'f task_node list" and a :: "'f task_node" and n :: nat
  assume *: "sorted_tasks ts" "base a \<notin> base ` set ts"
  obtain ok ys where ins: "set_insert a ts = (ok, ys)" by fastforce
  have "ok" "sorted_tasks ys" "mset ys = add_mset a (mset ts)" "set ys = insert a (set ts)"
    using set_insert_new [OF *] set_insert_sorted [OF *(1), of a] set_insert_set [OF *(1), of a] *(2) ins by auto
  then show "\<exists>s'. bag_add a ts = Some s' \<and> sorted_tasks s' \<and>
      image_mset base (mset s') = add_mset (base a) (image_mset base (mset ts)) \<and> True \<and>
      (\<forall>b. base a \<noteq> base b \<longrightarrow> base b \<notin> base ` set ts \<longrightarrow> base b \<notin> base ` set s')"
    using ins by (auto simp: bag_add_def)
next
  fix ts :: "'f task_node list"
  assume "sorted_tasks ts"
  then show "\<exists>xs. Some (map base ts) = Some xs \<and> sorted xs \<and> mset xs = image_mset base (mset ts)"
    by (auto simp: sorted_tasks_def strict_sorted_iff)
qed

lemma set_insert_all_sorts:
  "distinct (map base as) \<Longrightarrow>
   (add_all bag_add as [] \<bind> (\<lambda>ts. Some (map base ts))) = Some (sort (map base as))"
  by (rule tset.add_all_sorts) (auto simp: distinct_conv_nth sorted_wrt_iff_nth_less)

section \<open>The operations\<close>

definition timer_inv :: "'f timer \<Rightarrow> bool" where
  "timer_inv s \<longleftrightarrow> sorted_tasks (task_sets s) \<and> (\<forall>(t, it) \<in> set (fired s). task_timeout (base it) \<le> t \<and> t \<le> now s)"

lemma get_tick_inv: "get_tick el s = (t, s') \<Longrightarrow> timer_inv s \<Longrightarrow>
  timer_inv s' \<and> t = now s' \<and> now s \<le> t \<and> task_sets s' = task_sets s \<and> fired s' = fired s \<and> next_id s' = next_id s"
  by (fastforce simp: get_tick_def Let_def timer_inv_def)

lemma add_task_inv: "timer_inv s \<Longrightarrow> add_task el d f s = Some (b, s') \<Longrightarrow> timer_inv s'"
  using get_tick_inv [of el s]
  by (auto simp: add_task_def timer_inv_def Let_def set_insert_sorted split: prod.splits if_splits)

lemma del_task_inv: "timer_inv s \<Longrightarrow> timer_inv (snd (del_task k s))"
  by (auto simp: del_task_def timer_inv_def set_erase_sorted split: option.splits)

lemma callback_ops_inv: "timer_inv s \<Longrightarrow> callback_ops el as s = Some s' \<Longrightarrow> timer_inv s'"
proof (induction as arbitrary: s)
  case (Cons a as)
  then show ?case
    by (cases a) (auto simp: bind_simps dest: add_task_inv del_task_inv)
qed simp

lemma check_task_inv:
  assumes "timer_inv s" "check_task script el s = Some (b, s')"
  shows "timer_inv s'"
proof (cases "task_sets s")
  case Nil
  then show ?thesis using assms by (simp add: check_task_def)
next
  case (Cons it ts)
  obtain t s1 where t: "get_tick el s = (t, s1)" by fastforce
  note s1 = get_tick_inv [OF t assms(1)]
  show ?thesis
  proof (cases "task_timeout (base it) \<le> t")
    case True
    have fired: "timer_inv (s1\<lparr>fired := fired s1 @ [(t, it)]\<rparr>)"
      using s1 True by (auto simp: timer_inv_def)
    obtain s2 where s2: "callback_ops el (script it) (s1\<lparr>fired := fired s1 @ [(t, it)]\<rparr>) = Some s2"
      "s' = s2\<lparr>task_sets := set_erase (base it) (task_sets s2)\<rparr>"
      using assms(2) Cons t True by (auto simp: check_task_def bind_simps split: if_splits)
    show ?thesis using callback_ops_inv [OF fired s2(1)] s2(2) by (simp add: timer_inv_def set_erase_sorted)
  next
    case False
    then show ?thesis using assms(2) Cons t s1 by (simp add: check_task_def)
  qed
qed

lemma del_task_once:
  assumes "sorted_tasks (task_sets s)" "it \<in> set (task_sets s)"
  shows "\<exists>s'. del_task (base it) s = (True, s') \<and> set (task_sets s') = {x \<in> set (task_sets s). base x \<noteq> base it} \<and>
    del_task (base it) s' = (False, s')"
proof -
  let ?s' = "s\<lparr>task_sets := set_erase (base it) (task_sets s)\<rparr>"
  have "set_find (base it) (task_sets s) = Some it" using assms by (simp add: set_find_iff)
  then have "del_task (base it) s = (True, ?s')" by (simp add: del_task_def)
  moreover have "set_find (base it) (task_sets ?s') \<noteq> Some x" for x
    using set_find_iff [OF set_erase_sorted [OF assms(1)], of "base it" "base it" x] by (auto simp: set_erase_def)
  then have "del_task (base it) ?s' = (False, ?s')" by (auto simp: del_task_def split: option.splits)
  ultimately show ?thesis by (auto simp: set_erase_def)
qed

text \<open>A callback that deletes its own task: the iterator that is erased afterwards is not valid any more.\<close>

lemma own_deletion_fails:
  assumes "sorted_tasks (task_sets s)" "task_sets s = it # ts" "task_timeout (base it) \<le> now s"
    and "script it = [Op_del (base it)]"
  shows "check_task script el s = None"
proof -
  obtain t s1 where t: "get_tick el s = (t, s1)" by fastforce
  then have s1: "now s \<le> t" "task_sets s1 = it # ts" using assms(2) by (auto simp: get_tick_def Let_def)
  have "sorted_tasks (task_sets s1)" "it \<in> set (task_sets s1)" using assms(1,2) s1(2) by simp_all
  then have "set_find (base it) (task_sets s1) = Some it" by (simp add: set_find_iff)
  then show ?thesis using assms t s1 by (auto simp: check_task_def del_task_def set_erase_def)
qed

inductive timer_step :: "('f task_node \<Rightarrow> 'f timer_op list) \<Rightarrow> (nat \<Rightarrow> nat) \<Rightarrow> 'f timer \<Rightarrow> 'f timer \<Rightarrow> bool"
  for script el where
  added: "add_task el d f s = Some (b, s') \<Longrightarrow> timer_step script el s s'"
| deleted: "del_task k s = (b, s') \<Longrightarrow> timer_step script el s s'"
| checked: "check_task script el s = Some (b, s') \<Longrightarrow> timer_step script el s s'"
| slept: "0 \<le> d \<Longrightarrow> timer_step script el s (s\<lparr>now := now s + d\<rparr>)"

lemma timer_step_inv: "timer_step script el s s' \<Longrightarrow> timer_inv s \<Longrightarrow> timer_inv s'"
proof (induction rule: timer_step.induct)
  case (deleted k s b s')
  then show ?case using del_task_inv [of s k] by simp
next
  case (slept d s)
  then show ?case by (fastforce simp: timer_inv_def)
qed (auto dest: add_task_inv check_task_inv)

lemma timer_init_inv: "timer_inv (timer_init t)"
  by (simp add: timer_inv_def timer_init_def)

lemma timer_steps_inv: "(timer_step script el)\<^sup>*\<^sup>* s s' \<Longrightarrow> timer_inv s \<Longrightarrow> timer_inv s'"
  by (induction rule: rtranclp_induct) (auto dest: timer_step_inv)

section \<open>The loop over the due tasks\<close>

text \<open>What it fires of the tasks of a timer, in order, and what it leaves.\<close>

definition drained :: "'f timer \<Rightarrow> 'f timer \<Rightarrow> (int \<times> 'f task_node) list \<Rightarrow> bool" where
  "drained s s' log \<longleftrightarrow> fired s' = fired s @ log \<and> task_sets s = map snd log @ task_sets s' \<and>
     (\<forall>(t, it) \<in> set log. now s \<le> t \<and> t \<le> now s' \<and> task_timeout (base it) \<le> t) \<and>
     (\<forall>it \<in> set (task_sets s'). now s' < task_timeout (base it)) \<and> now s \<le> now s'"

lemma base_less_timeout: "a < b \<Longrightarrow> task_timeout a \<le> task_timeout b"
  by (auto simp: less_task_base_def base_less_def split: if_splits)

lemma check_loop_drains:
  assumes "sorted_tasks (task_sets s)" "\<forall>it. script it = []"
  shows "\<exists>s' log. check_loop script el s = Some s' \<and> drained s s' log"
  using assms(1)
proof (induction "task_sets s" arbitrary: s)
  case Nil
  then have "check_task script el s = Some (False, s)" by (simp add: check_task_def flip: Nil.hyps)
  then have "check_loop script el s = Some s" by (subst check_loop.simps) simp
  moreover have "drained s s []" using Nil.hyps by (simp add: drained_def)
  ultimately show ?case by blast
next
  case (Cons it ts)
  obtain t s1 where t: "get_tick el s = (t, s1)" by fastforce
  then have s1: "t = now s1" "now s \<le> t" "task_sets s1 = it # ts" "fired s1 = fired s"
    using Cons.hyps(2) by (auto simp: get_tick_def Let_def)
  note sorted = Cons.prems [folded Cons.hyps(2)]
  show ?case
  proof (cases "task_timeout (base it) \<le> t")
    case True
    let ?s2 = "s1\<lparr>fired := fired s1 @ [(t, it)], task_sets := ts\<rparr>"
    have "check_task script el s = Some (True, ?s2)"
      using t True s1(3) set_erase_hd [OF sorted] assms(2) by (simp add: check_task_def flip: Cons.hyps(2))
    then have "check_loop script el s = check_loop script el ?s2" by (subst check_loop.simps) simp
    moreover obtain s' log where s': "check_loop script el ?s2 = Some s'" "drained ?s2 s' log"
      using Cons.hyps(1) [of ?s2] sorted by auto
    moreover have "drained s s' ((t, it) # log)"
      using s'(2) s1 True by (fastforce simp: drained_def simp flip: Cons.hyps(2))
    ultimately show ?thesis by auto
  next
    case False
    have "check_task script el s = Some (False, s1)" using t False by (simp add: check_task_def flip: Cons.hyps(2))
    then have "check_loop script el s = Some s1" by (subst check_loop.simps) simp
    moreover have "\<forall>x \<in> set (it # ts). now s1 < task_timeout (base x)"
      using sorted False s1(1) base_less_timeout by fastforce
    then have "drained s s1 []" using s1 by (simp add: drained_def flip: Cons.hyps(2))
    ultimately show ?thesis by blast
  qed
qed

lemma drained_sorted: "drained s s' log \<Longrightarrow> sorted_tasks (task_sets s) \<Longrightarrow> sorted_tasks (task_sets s')"
  by (simp add: drained_def sorted_tasks_def sorted_wrt_append)

section \<open>The main loop\<close>

lemma seconds_nonneg: "0 \<le> seconds t" by (simp add: seconds_def)

lemma main_turn_drains:
  assumes "sorted_tasks (task_sets s)" "\<forall>it. script it = []" "task_sets s \<noteq> []" "\<forall>i. 0 < el i"
  shows "\<exists>s' log. main_turn script el s = Some s' \<and> drained s s' log \<and> now s < now s'"
proof -
  obtain it ts where ts: "task_sets s = it # ts" using assms(3) by (cases "task_sets s") auto
  have "\<exists>t s1. time_to_sleep el s = Some (t, s1) \<and> task_sets s1 = task_sets s \<and> fired s1 = fired s \<and> now s < now s1"
    using ts assms(4) by (simp add: time_to_sleep_def get_tick_def Let_def)
  then obtain t s1 where s1: "time_to_sleep el s = Some (t, s1)" "task_sets s1 = task_sets s" "fired s1 = fired s" "now s < now s1"
    by blast
  let ?s2 = "s1\<lparr>now := now s1 + 1000 * seconds t\<rparr>"
  obtain s' log where s': "check_loop script el ?s2 = Some s'" "drained ?s2 s' log"
    using check_loop_drains [of ?s2 script el] assms(1,2) s1(2) by auto
  have "drained s s' log" "now s < now s'"
    using s'(2) s1(2-4) seconds_nonneg [of t] by (fastforce simp: drained_def)+
  then show ?thesis using s1(1) s'(1) by (auto simp: main_turn_def)
qed

lemma main_turns_add: "main_turns script el (m + n) s = main_turns script el m s \<bind> main_turns script el n"
proof (induction m arbitrary: s)
  case (Suc m)
  then show ?case by (cases "main_turn script el s") simp_all
qed simp

lemma main_turns_fire_all:
  assumes "\<forall>it. script it = []" "\<forall>i. 0 < el i" "sorted_tasks (task_sets s)"
  shows "\<exists>n s' log. main_turns script el n s = Some s' \<and> task_sets s' = [] \<and> fired s' = fired s @ log \<and>
    map snd log = task_sets s \<and> (\<forall>(t, it) \<in> set log. task_timeout (base it) \<le> t)"
  using assms(3)
proof (induction s rule: wf_induct_rule [OF wf_measures [of "[\<lambda>s. length (task_sets s),
    \<lambda>s. nat (task_timeout (base (hd (task_sets s))) - now s)]"]])
  case (1 s)
  show ?case
  proof (cases "task_sets s = []")
    case True
    then show ?thesis by (intro exI [of _ 0] exI [of _ s] exI [of _ "[]"]) simp
  next
    case False
    obtain s1 log1 where s1: "main_turn script el s = Some s1" "drained s s1 log1" "now s < now s1"
      using main_turn_drains [OF 1(2) assms(1) False assms(2)] by auto
    have "(s1, s) \<in> measures [\<lambda>s. length (task_sets s), \<lambda>s. nat (task_timeout (base (hd (task_sets s))) - now s)]"
    proof (cases log1)
      case Nil
      then have "task_sets s1 = task_sets s" using s1(2) by (simp add: drained_def)
      moreover have "now s1 < task_timeout (base (hd (task_sets s)))"
        using s1(2) False calculation by (simp add: drained_def)
      ultimately show ?thesis using s1(3) by simp
    next
      case (Cons e log)
      then show ?thesis using s1(2) by (simp add: drained_def)
    qed
    then obtain n s' log where s': "main_turns script el n s1 = Some s'" "task_sets s' = []" "fired s' = fired s1 @ log"
      "map snd log = task_sets s1" "\<forall>(t, it) \<in> set log. task_timeout (base it) \<le> t"
      using 1(1) [of s1] drained_sorted [OF s1(2) 1(2)] by auto
    have "fired s' = fired s @ log1 @ log" "map snd (log1 @ log) = task_sets s"
      "\<forall>(t, it) \<in> set (log1 @ log). task_timeout (base it) \<le> t"
      using s1(2) s'(3-5) by (auto simp: drained_def)
    moreover have "main_turns script el (Suc n) s = Some s'" using s1(1) s'(1) by simp
    ultimately show ?thesis using s'(2) by blast
  qed
qed

lemma main_turn_empty: "task_sets s = [] \<Longrightarrow> main_turn script el s = None"
  by (simp add: main_turn_def time_to_sleep_def)


section \<open>Properties\<close>

text \<open>
  C23. Whatever the client adds and deletes, however the clock moves, and whatever callbacks add and delete
  while they run, in every reachable state the set is strictly sorted by expiry and number, and no task was
  fired before its expiry.
\<close>
theorem timer_never_early:
  assumes "(timer_step script el)\<^sup>*\<^sup>* (timer_init t0) s"
  shows "sorted_wrt base_less (map base (task_sets s)) \<and> (\<forall>(t, it) \<in> set (fired s). task_timeout (base it) \<le> t)"
proof -
  have "timer_inv s" by (rule timer_steps_inv [OF assms timer_init_inv])
  moreover have "(<) = base_less" by (auto simp: less_task_base_def fun_eq_iff)
  ultimately show ?thesis by (auto simp: timer_inv_def sorted_tasks_def)
qed

theorem timer_never_early_witness:
  "\<exists>s. (timer_step (\<lambda>it. [Op_add 0 (), Op_del (TaskNodeBase 2 0)]) (\<lambda>i. 1) :: unit timer \<Rightarrow> unit timer \<Rightarrow> bool)\<^sup>*\<^sup>* (timer_init 0) s \<and>
     fired s = [(2, \<lparr>base = TaskNodeBase 0 1, func = ()\<rparr>)] \<and> sorted_wrt base_less (map base (task_sets s)) \<and>
     map base (task_sets s) = [TaskNodeBase 1 3]"
proof -
  let ?step = "timer_step (\<lambda>it. [Op_add 0 (), Op_del (TaskNodeBase 2 0)]) (\<lambda>i. 1)"
  let ?s1 = "\<lparr>next_id = 1, task_sets = [\<lparr>base = TaskNodeBase 0 1, func = ()\<rparr>], now = 1, reads = 1, fired = []\<rparr>"
  let ?s2 = "\<lparr>next_id = 2, task_sets = [\<lparr>base = TaskNodeBase 1 3, func = ()\<rparr>], now = 3, reads = 3,
    fired = [(2, \<lparr>base = TaskNodeBase 0 1, func = ()\<rparr>)]\<rparr>"
  have 1: "add_task (\<lambda>i. 1) 0 () (timer_init 0) = Some (TaskNodeBase 0 1, ?s1)" by (simp add: add_task_def timer_init_def get_tick_def time_max_def)
  have 2: "check_task (\<lambda>it. [Op_add 0 (), Op_del (TaskNodeBase 2 0)]) (\<lambda>i. 1) ?s1 = Some (True, ?s2)" by (simp add: check_task_def add_task_def del_task_def get_tick_def time_max_def set_erase_def less_task_base_def base_less_def)
  have run: "?step\<^sup>*\<^sup>* (timer_init 0) ?s2"
    by (rule rtranclp.rtrancl_into_rtrancl [OF r_into_rtranclp], rule timer_step.added [OF 1], rule timer_step.checked [OF 2])
  show ?thesis
    by (intro exI [of _ ?s2] conjI, rule run, simp, rule conjunct1 [OF timer_never_early [OF run]], simp)
qed

text \<open>
  The loop over the due tasks ends. If callbacks leave the timer alone, it fires a first part of the set in
  the order of the set, each task once and not before its expiry; every task that was due when it started is
  among them, and of the tasks that remain none is due.
\<close>
theorem check_loop_fires_due:
  assumes "sorted_wrt base_less (map base (task_sets s))" "\<forall>it. script it = []"
  shows "\<exists>s' log. check_loop script el s = Some s' \<and> fired s' = fired s @ log \<and> task_sets s = map snd log @ task_sets s' \<and>
    (\<forall>(t, it) \<in> set log. task_timeout (base it) \<le> t) \<and>
    (\<forall>it \<in> set (task_sets s). task_timeout (base it) \<le> now s \<longrightarrow> it \<in> snd ` set log) \<and>
    (\<forall>it \<in> set (task_sets s'). now s' < task_timeout (base it))"
proof -
  have "(<) = base_less" by (auto simp: less_task_base_def fun_eq_iff)
  then have "sorted_tasks (task_sets s)" using assms(1) by (simp add: sorted_tasks_def)
  from check_loop_drains [OF this assms(2)] obtain s' log where
    s': "check_loop script el s = Some s'" "drained s s' log" by blast
  have "\<forall>it \<in> set (task_sets s). task_timeout (base it) \<le> now s \<longrightarrow> it \<in> snd ` set log"
    using s'(2) by (fastforce simp: drained_def)
  with s' show ?thesis by (intro exI [of _ s'] exI [of _ log]) (auto simp: drained_def)
qed

definition sample_timer :: "unit timer" where
  "sample_timer = \<lparr>next_id = 2, task_sets = [\<lparr>base = TaskNodeBase 1 5, func = ()\<rparr>, \<lparr>base = TaskNodeBase 0 9, func = ()\<rparr>],
     now = 6, reads = 0, fired = []\<rparr>"

theorem check_loop_fires_due_witness:
  "\<exists>s'. check_loop (\<lambda>it. []) (\<lambda>i. 1) sample_timer = Some s' \<and> \<lparr>base = TaskNodeBase 1 5, func = ()\<rparr> \<in> snd ` set (fired s')"
  using check_loop_fires_due [of sample_timer "\<lambda>it. []" "\<lambda>i. 1"]
  by (auto simp: sample_timer_def base_less_def)

text \<open>
  C24. If time passes between readings of the clock and callbacks leave the timer alone, the main loop fires
  every task of the set, in order, each once and not before its expiry, after finitely many turns; the next turn
  then dereferences the end of the empty set.
\<close>
theorem main_fires_all_then_fails:
  assumes "sorted_wrt base_less (map base (task_sets s))" "\<forall>it. script it = []" "\<forall>i. 0 < el i"
  shows "\<exists>n s' log. main_turns script el n s = Some s' \<and> task_sets s' = [] \<and> fired s' = fired s @ log \<and>
    map snd log = task_sets s \<and> (\<forall>(t, it) \<in> set log. task_timeout (base it) \<le> t) \<and>
    main_turns script el (Suc n) s = None"
proof -
  have "(<) = base_less" by (auto simp: less_task_base_def fun_eq_iff)
  then have "sorted_tasks (task_sets s)" using assms(1) by (simp add: sorted_tasks_def)
  from main_turns_fire_all [OF assms(2,3) this] obtain n s' log where
    s': "main_turns script el n s = Some s'" "task_sets s' = []" "fired s' = fired s @ log"
    "map snd log = task_sets s" "\<forall>(t, it) \<in> set log. task_timeout (base it) \<le> t" by blast
  have "main_turns script el (Suc n) s = None"
    using main_turns_add [of script el n 1 s] s'(1) main_turn_empty [OF s'(2)] by simp
  with s' show ?thesis by blast
qed

theorem main_fires_all_then_fails_witness:
  "\<exists>s n s'. main_start (\<lambda>i. 1) () 0 = Some s \<and> main_turns (\<lambda>it. []) (\<lambda>i. 1) n s = Some s' \<and>
     map (task_id \<circ> base \<circ> snd) (fired s') = [0, 1, 2] \<and> main_turns (\<lambda>it. []) (\<lambda>i. 1) (Suc n) s = None"
proof -
  let ?s = "\<lparr>next_id = 3, task_sets = [\<lparr>base = TaskNodeBase 0 1001, func = ()\<rparr>, \<lparr>base = TaskNodeBase 1 1002, func = ()\<rparr>,
    \<lparr>base = TaskNodeBase 2 10003, func = ()\<rparr>], now = 3, reads = 3, fired = []\<rparr>"
  have "main_start (\<lambda>i. 1) () 0 = Some ?s" by (simp add: main_start_def add_task_def timer_init_def get_tick_def time_max_def less_task_base_def base_less_def)
  moreover obtain n s' log where s': "main_turns (\<lambda>it. []) (\<lambda>i. 1) n ?s = Some s'" "fired s' = log" "map snd log = task_sets ?s"
    "main_turns (\<lambda>it. []) (\<lambda>i. 1) (Suc n) ?s = None"
    using main_fires_all_then_fails [of ?s "\<lambda>it. []" "\<lambda>i. 1"] by (auto simp: base_less_def)
  moreover have "map (task_id \<circ> base \<circ> snd) log = map (task_id \<circ> base) (map snd log)" by simp
  then have "map (task_id \<circ> base \<circ> snd) log = [0, 1, 2]" unfolding s'(3) by simp
  ultimately show ?thesis by (intro exI [of _ ?s] exI [of _ n] exI [of _ s']) simp
qed

end
