(* ===== verification/Threadpool.thy ===== *)
theory Threadpool
  imports Prelude
begin

text \<open>
  The thread pool of \<open>pool/ZeroThreadPool.h\<close> and \<open>pool/ZeroThreadPool.cpp\<close>: a queue of tasks behind a
  mutex, worker threads that wait on a condition variable, and a client. Whatever is done while the mutex is
  held is one step, since all accesses to the queue hold it; the steps of different threads interleave. The
  condition variable behaves as documented: a notification wakes threads that wait, a thread may wake without
  one, and a woken thread tests its predicate under the mutex. A task is told apart by a tag.
\<close>

section \<open>The pool\<close>

definition NOW :: int where "NOW = 1"
definition THREAD_NUM_MIN :: nat where "THREAD_NUM_MIN = 5"

record 'f task_func =
  t_func :: 'f
  t_expire :: int

text \<open>Where a worker is in \<open>thread_routine\<close> and \<open>get_task\<close>, and where the client is.\<close>

datatype 'f worker_pc =
    Checking
  | Entering
  | Waiting
  | Woken
  | Running "'f task_func"
  | Finished

datatype client_pc = Idle | Awaiting | Awaiting_timed | Awake bool | Joining nat | Crashed

text \<open>\<open>threads\<close> holds the pointers to the threads, where \<open>None\<close> is null; \<open>taken\<close>, \<open>ran\<close> and \<open>expired\<close> record
  what was taken from the queue, run and left out.\<close>

record 'f pool =
  taskQ :: "'f task_func list"
  threads :: "nat option list"
  bTerminate :: bool
  atomic_int :: nat
  workers :: "'f worker_pc list"
  client :: client_pc
  taken :: "'f task_func list"
  ran :: "(nat \<times> 'f task_func) list"
  expired :: "'f task_func list"

text \<open>\<open>resize\<close> makes \<open>num\<close> null pointers, and \<open>emplace_back\<close> appends the threads.\<close>

definition pool_init :: "nat \<Rightarrow> 'f pool" where
  "pool_init num =
     (let num = (if num > THREAD_NUM_MIN then num else THREAD_NUM_MIN) in
      \<lparr>taskQ = [], threads = replicate num None @ map Some [0..<num], bTerminate = False, atomic_int = 0,
       workers = replicate num Checking, client = Idle, taken = [], ran = [], expired = []\<rparr>)"

section \<open>The workers\<close>

definition goto :: "nat \<Rightarrow> 'f worker_pc \<Rightarrow> 'f pool \<Rightarrow> 'f pool" where
  "goto w p s = s\<lparr>workers := (workers s)[w := p]\<rparr>"

definition predicate :: "'f pool \<Rightarrow> bool" where
  "predicate s \<longleftrightarrow> bTerminate s \<or> taskQ s \<noteq> []"

text \<open>The end of \<open>get_task\<close>, behind the wait.\<close>

definition take_task :: "nat \<Rightarrow> 'f pool \<Rightarrow> 'f pool" where
  "take_task w s =
     (if bTerminate s then goto w Checking s
      else (case taskQ s of
          t # ts \<Rightarrow> goto w (Running t) (s\<lparr>taskQ := ts, taken := taken s @ [t]\<rparr>)
        | [] \<Rightarrow> goto w Checking s))"

definition get_task :: "nat \<Rightarrow> 'f pool \<Rightarrow> 'f pool" where
  "get_task w s = (if taskQ s = [] \<and> \<not> predicate s then goto w Waiting s else take_task w s)"

definition run_task :: "nat \<Rightarrow> 'f task_func \<Rightarrow> 'f pool \<Rightarrow> 'f pool" where
  "run_task w t s =
     (let s = s\<lparr>atomic_int := atomic_int s + 1\<rparr> in
      if t_expire t \<noteq> 0 \<and> t_expire t \<le> NOW then s\<lparr>expired := expired s @ [t]\<rparr>
      else s\<lparr>ran := ran s @ [(w, t)]\<rparr>)"

text \<open>A step of worker \<open>w\<close>; \<open>None\<close> while it waits and when it has ended.\<close>

definition thread_routine :: "nat \<Rightarrow> 'f pool \<Rightarrow> 'f pool option" where
  "thread_routine w s =
     (if w < length (workers s) then
        (case workers s ! w of
           Checking \<Rightarrow> Some (goto w (if bTerminate s then Finished else Entering) s)
         | Entering \<Rightarrow> Some (get_task w s)
         | Waiting \<Rightarrow> None
         | Woken \<Rightarrow> Some (if predicate s then take_task w s else goto w Waiting s)
         | Running t \<Rightarrow> Some (goto w Checking (run_task w t s))
         | Finished \<Rightarrow> None)
      else None)"

section \<open>The client\<close>

definition wake :: "'f worker_pc \<Rightarrow> 'f worker_pc" where
  "wake p = (if p = Waiting then Woken else p)"

text \<open>The notification wakes one of the waiting threads, \<open>w\<close> if it is one. It comes after the task was pushed.\<close>

definition exec :: "int \<Rightarrow> 'f \<Rightarrow> nat \<Rightarrow> 'f pool \<Rightarrow> 'f pool" where
  "exec timeout f w s =
     (let expire = (if timeout = 0 then 0 else NOW + timeout);
          s = s\<lparr>taskQ := taskQ s @ [\<lparr>t_func = f, t_expire = expire\<rparr>]\<rparr> in
      if taskQ s = [] then s\<lparr>workers := (workers s)[w := wake (workers s ! w)]\<rparr> else s)"

definition notify_all :: "'f pool \<Rightarrow> 'f pool" where
  "notify_all s = s\<lparr>workers := map wake (workers s)\<rparr>"

definition wait_for_all_done :: "int \<Rightarrow> 'f pool \<Rightarrow> 'f pool" where
  "wait_for_all_done millsecond s =
     (if taskQ s = [] then s
      else if millsecond < 0 then s\<lparr>client := Awaiting\<rparr> else s\<lparr>client := Awaiting_timed\<rparr>)"

definition stop :: "'f pool \<Rightarrow> 'f pool" where
  "stop s = notify_all (s\<lparr>bTerminate := True, client := Joining 0\<rparr>)"

text \<open>One turn of the loop in \<open>stop\<close>: a call through a null pointer crashes; \<open>join\<close> waits for the end of the thread.\<close>

definition join_next :: "nat \<Rightarrow> 'f pool \<Rightarrow> 'f pool option" where
  "join_next i s =
     (if i < length (threads s) then
        (case threads s ! i of
           None \<Rightarrow> Some (s\<lparr>client := Crashed\<rparr>)
         | Some w \<Rightarrow>
             if workers s ! w = Finished then Some (s\<lparr>threads := (threads s)[i := None], client := Joining (i + 1)\<rparr>)
             else None)
      else Some (s\<lparr>client := Idle\<rparr>))"

definition get_task_num :: "'f pool \<Rightarrow> nat" where
  "get_task_num s = length (taskQ s)"

definition get_thread_num :: "'f pool \<Rightarrow> nat" where
  "get_thread_num s = length (threads s)"

section \<open>The interleaving\<close>

datatype 'f action =
    Work nat
  | Exec int 'f nat
  | Wait_all int
  | Stop
  | Client_step
  | Wake_worker nat
  | Wake_client

text \<open>\<open>Awake b\<close> is a woken client, where \<open>b\<close> says that its wait is a timed one; a timed wait also ends when the
  time is over. \<open>Wake_worker\<close> and \<open>Wake_client\<close> are wake-ups without a notification.\<close>

fun act :: "'f action \<Rightarrow> 'f pool \<Rightarrow> 'f pool option" where
  "act (Work w) s = (if client s = Crashed then None else thread_routine w s)"
| "act (Exec d f w) s = (if client s = Idle then Some (exec d f w s) else None)"
| "act (Wait_all ms) s = (if client s = Idle then Some (wait_for_all_done ms s) else None)"
| "act Stop s = (if client s = Idle then Some (stop s) else None)"
| "act Client_step s =
     (case client s of
        Joining i \<Rightarrow> join_next i s
      | Awake timed \<Rightarrow>
          if taskQ s = [] then Some (s\<lparr>client := Idle\<rparr>)
          else Some (s\<lparr>client := (if timed then Awaiting_timed else Awaiting)\<rparr>)
      | Awaiting_timed \<Rightarrow> Some (s\<lparr>client := Idle\<rparr>)
      | _ \<Rightarrow> None)"
| "act (Wake_worker w) s =
     (if w < length (workers s) \<and> workers s ! w = Waiting then Some (goto w Woken s) else None)"
| "act Wake_client s =
     (case client s of
        Awaiting \<Rightarrow> Some (s\<lparr>client := Awake False\<rparr>)
      | Awaiting_timed \<Rightarrow> Some (s\<lparr>client := Awake True\<rparr>)
      | _ \<Rightarrow> None)"

fun acts :: "'f action list \<Rightarrow> 'f pool \<Rightarrow> 'f pool option" where
  "acts [] s = Some s"
| "acts (a # as) s = act a s \<bind> acts as"

end
