(* ===== verification/Threadpool_Correct.thy ===== *)
theory Threadpool_Correct
  imports Threadpool
begin

text \<open>
  Whatever threads and clients do, each task is taken exactly once, in the order of the queue. Nothing wakes a
  worker for a task, however: \<open>exec\<close> notifies only if the queue is empty after the push, which it never is.
\<close>

section \<open>Every task exactly once\<close>

text \<open>The tasks that a sequence of actions hands to the pool.\<close>

fun tasks_of :: "'f action list \<Rightarrow> 'f task_func list" where
  "tasks_of [] = []"
| "tasks_of (Exec d f w # as) = \<lparr>t_func = f, t_expire = (if d = 0 then 0 else NOW + d)\<rparr> # tasks_of as"
| "tasks_of (_ # as) = tasks_of as"

fun held :: "'f worker_pc list \<Rightarrow> 'f task_func list" where
  "held [] = []"
| "held (Running t # ps) = t # held ps"
| "held (_ # ps) = held ps"

definition pool_inv :: "'f task_func list \<Rightarrow> 'f pool \<Rightarrow> bool" where
  "pool_inv ts s \<longleftrightarrow> ts = taken s @ taskQ s \<and>
     mset (taken s) = mset (map snd (ran s)) + mset (expired s) + mset (held (workers s)) \<and>
     atomic_int s = length (ran s) + length (expired s) \<and>
     (\<forall>(w, t) \<in> set (ran s). t_expire t = 0 \<or> NOW < t_expire t) \<and>
     (\<forall>t \<in> set (expired s). t_expire t \<noteq> 0 \<and> t_expire t \<le> NOW)"

lemma held_append: "held (xs @ ys) = held xs @ held ys"
  by (induction xs rule: held.induct) simp_all

lemma held_update:
  assumes "w < length ps"
  shows "mset (held (ps[w := p])) + mset (held [ps ! w]) = mset (held ps) + mset (held [p])"
proof -
  have 1: "held ps = held (take w ps) @ held [ps ! w] @ held (drop (Suc w) ps)"
    using id_take_nth_drop [OF assms] held_append by (metis append_Cons append_Nil)
  have 2: "held (ps[w := p]) = held (take w ps) @ held [p] @ held (drop (Suc w) ps)"
    using upd_conv_take_nth_drop [OF assms, of p] held_append by (metis append_Cons append_Nil)
  show ?thesis unfolding 1 2 by simp
qed

lemma held_wake: "held (map wake ps) = held ps"
  by (induction ps rule: held.induct) (simp_all add: wake_def)

lemma held_replicate: "held (replicate n Checking) = []"
  by (induction n) simp_all

lemma goto_inv:
  assumes "pool_inv ts s" "w < length (workers s)" "held [workers s ! w] = []" "held [p] = []"
  shows "pool_inv ts (goto w p s)"
  using assms held_update [OF assms(2), of p] by (simp add: pool_inv_def goto_def)

lemma take_inv:
  assumes "pool_inv ts s" "w < length (workers s)" "held [workers s ! w] = []"
  shows "pool_inv ts (take_task w s)"
proof (cases "bTerminate s \<or> taskQ s = []")
  case True
  then have "take_task w s = goto w Checking s" by (auto simp: take_task_def)
  then show ?thesis using goto_inv [OF assms, of Checking] by simp
next
  case False
  then obtain q qs where q: "taskQ s = q # qs" "\<not> bTerminate s" by (cases "taskQ s") auto
  then show ?thesis using assms held_update [OF assms(2), of "Running q"]
    by (auto simp: pool_inv_def take_task_def goto_def)
qed

lemma run_inv:
  assumes "pool_inv ts s" "w < length (workers s)" "workers s ! w = Running t"
  shows "pool_inv ts (goto w Checking (run_task w t s))"
  using assms held_update [OF assms(2), of Checking]
  by (auto simp: pool_inv_def goto_def run_task_def Let_def)

lemma thread_routine_inv:
  assumes "pool_inv ts s" "thread_routine w s = Some s'"
  shows "pool_inv ts s'"
proof -
  have w: "w < length (workers s)" using assms(2) by (auto simp: thread_routine_def split: if_splits)
  have free: "pool_inv ts (goto w p s)" if "held [workers s ! w] = []" "held [p] = []" for p
    by (rule goto_inv [OF assms(1) w that])
  have take: "pool_inv ts (take_task w s)" if "held [workers s ! w] = []" by (rule take_inv [OF assms(1) w that])
  show ?thesis
  proof (cases "workers s ! w")
    case Checking
    then have "s' = (if bTerminate s then goto w Finished s else goto w Entering s)"
      using assms(2) w by (simp add: thread_routine_def split: if_splits)
    moreover have "pool_inv ts (goto w Finished s)" "pool_inv ts (goto w Entering s)"
      by (rule free; simp add: Checking)+
    ultimately show ?thesis by simp
  next
    case Entering
    then have "s' = (if taskQ s = [] \<and> \<not> predicate s then goto w Waiting s else take_task w s)"
      using assms(2) w by (simp add: thread_routine_def get_task_def)
    moreover have "pool_inv ts (goto w Waiting s)" by (rule free; simp add: Entering)
    moreover have "pool_inv ts (take_task w s)" by (rule take; simp add: Entering)
    ultimately show ?thesis by simp
  next
    case Woken
    then have "s' = (if predicate s then take_task w s else goto w Waiting s)"
      using assms(2) w by (simp add: thread_routine_def)
    moreover have "pool_inv ts (goto w Waiting s)" by (rule free; simp add: Woken)
    moreover have "pool_inv ts (take_task w s)" by (rule take; simp add: Woken)
    ultimately show ?thesis by simp
  next
    case (Running t)
    then have "s' = goto w Checking (run_task w t s)" using assms(2) w by (simp add: thread_routine_def)
    then show ?thesis using run_inv [OF assms(1) w Running] by simp
  qed (use assms(2) w in \<open>simp_all add: thread_routine_def\<close>)
qed

lemma join_inv: "pool_inv ts s \<Longrightarrow> join_next i s = Some s' \<Longrightarrow> pool_inv ts s'"
  by (auto simp: join_next_def pool_inv_def split: if_splits option.splits)

lemma act_inv:
  assumes "pool_inv ts s" "act a s = Some s'"
  shows "pool_inv (ts @ tasks_of [a]) s'"
proof (cases a)
  case (Work w)
  then show ?thesis using assms thread_routine_inv by (auto split: if_splits)
next
  case (Exec d f w)
  then show ?thesis using assms by (auto simp: exec_def Let_def pool_inv_def split: if_splits)
next
  case (Wait_all ms)
  then show ?thesis using assms by (auto simp: wait_for_all_done_def pool_inv_def split: if_splits)
next
  case Stop
  then show ?thesis using assms by (auto simp: stop_def notify_all_def held_wake pool_inv_def split: if_splits)
next
  case Client_step
  then have step: "act Client_step s = Some s'" using assms(2) by simp
  have "pool_inv ts s'"
  proof (cases "client s")
    case (Joining i)
    then show ?thesis using join_inv [OF assms(1)] step by simp
  qed (use assms(1) step in \<open>auto simp: pool_inv_def split: if_splits\<close>)
  then show ?thesis using Client_step by simp
next
  case (Wake_worker w)
  then show ?thesis using assms goto_inv [OF assms(1), of w Woken] by (auto split: if_splits)
next
  case Wake_client
  then show ?thesis using assms by (auto simp: pool_inv_def split: client_pc.splits)
qed

lemma tasks_of_Cons: "tasks_of (a # as) = tasks_of [a] @ tasks_of as"
  by (cases a) simp_all

lemma acts_inv: "pool_inv ts s \<Longrightarrow> acts as s = Some s' \<Longrightarrow> pool_inv (ts @ tasks_of as) s'"
proof (induction as arbitrary: s ts)
  case (Cons a as)
  obtain s1 where s1: "act a s = Some s1" "acts as s1 = Some s'" using Cons.prems(2) by (auto simp: bind_simps)
  show ?case using Cons.IH [OF act_inv [OF Cons.prems(1) s1(1)] s1(2)] tasks_of_Cons [of a as] by simp
qed simp

lemma init_inv: "pool_inv [] (pool_init num)"
  by (simp add: pool_inv_def pool_init_def Let_def held_replicate)

section \<open>The lost notification\<close>

definition all_wait :: "'f pool \<Rightarrow> bool" where
  "all_wait s \<longleftrightarrow> set (workers s) \<subseteq> {Waiting}"

fun ordinary :: "'f action \<Rightarrow> bool" where
  "ordinary Stop = False"
| "ordinary (Wake_worker w) = False"
| "ordinary Wake_client = False"
| "ordinary _ = True"

lemma act_all_wait:
  assumes "all_wait s" "act a s = Some s'" "ordinary a" "\<forall>i. client s \<noteq> Joining i" "\<forall>b. client s \<noteq> Awake b"
  shows "all_wait s' \<and> ran s' = ran s \<and> expired s' = expired s \<and> taskQ s' = taskQ s @ tasks_of [a] \<and>
    (\<forall>i. client s' \<noteq> Joining i) \<and> (\<forall>b. client s' \<noteq> Awake b) \<and> (client s = Awaiting \<longrightarrow> client s' = Awaiting)"
proof (cases a)
  case (Work w)
  have "workers s ! w = Waiting" if "w < length (workers s)"
    using assms(1) nth_mem [OF that] by (auto simp: all_wait_def)
  then show ?thesis using assms(2) Work by (auto simp: thread_routine_def split: if_splits)
next
  case (Exec d f w)
  then show ?thesis using assms by (auto simp: exec_def Let_def all_wait_def split: if_splits)
next
  case (Wait_all ms)
  then show ?thesis using assms by (auto simp: wait_for_all_done_def all_wait_def split: if_splits)
next
  case Client_step
  then show ?thesis using assms by (auto simp: all_wait_def split: client_pc.splits)
qed (use assms in auto)

lemma acts_all_wait:
  assumes "all_wait s" "acts as s = Some s'" "\<forall>a \<in> set as. ordinary a"
    "\<forall>i. client s \<noteq> Joining i" "\<forall>b. client s \<noteq> Awake b"
  shows "all_wait s' \<and> ran s' = ran s \<and> expired s' = expired s \<and> taskQ s' = taskQ s @ tasks_of as \<and>
    (client s = Awaiting \<longrightarrow> client s' = Awaiting)"
  using assms
proof (induction as arbitrary: s)
  case (Cons a as)
  obtain s1 where s1: "act a s = Some s1" "acts as s1 = Some s'" using Cons.prems(2) by (auto simp: bind_simps)
  have a: "all_wait s1 \<and> ran s1 = ran s \<and> expired s1 = expired s \<and> taskQ s1 = taskQ s @ tasks_of [a] \<and>
    (\<forall>i. client s1 \<noteq> Joining i) \<and> (\<forall>b. client s1 \<noteq> Awake b) \<and> (client s = Awaiting \<longrightarrow> client s1 = Awaiting)"
    using act_all_wait [OF Cons.prems(1) s1(1)] Cons.prems(3-5) by simp
  then show ?case using Cons.IH [of s1] s1(2) Cons.prems(3) tasks_of_Cons [of a as] by auto
qed simp

text \<open>Two turns of each worker, before anything is pushed, and all of them wait.\<close>

definition to_sleep :: "nat \<Rightarrow> 'f action list" where
  "to_sleep n = concat (map (\<lambda>w. [Work w, Work w]) [0..<n])"

lemma acts_append: "acts (as @ bs) s = acts as s \<bind> acts bs"
proof (induction as arbitrary: s)
  case (Cons a as)
  then show ?case by (cases "act a s") simp_all
qed simp

lemma acts_to_sleep:
  assumes "n \<le> m" "s = (pool_init num :: 'f pool)\<lparr>workers := replicate m Checking\<rparr>"
  shows "acts (to_sleep n) s = Some (s\<lparr>workers := replicate n Waiting @ replicate (m - n) Checking\<rparr>)"
  using assms(1)
proof (induction n)
  case 0
  then show ?case using assms(2) by (simp add: to_sleep_def)
next
  case (Suc n)
  define ws where "ws p = replicate n Waiting @ p # replicate (m - Suc n) (Checking :: 'f worker_pc)" for p
  have upd: "(ws p)[n := q] = ws q" "ws p ! n = p" "n < length (ws p)" for p q
    by (simp_all add: ws_def list_update_append nth_append)
  have ws: "replicate n Waiting @ replicate (m - n) Checking = ws Checking"
    using Suc.prems by (simp add: ws_def Suc_diff_Suc flip: replicate_Suc)
  have wait: "replicate (Suc n) Waiting @ replicate (m - Suc n) Checking = ws Waiting"
    by (simp add: ws_def replicate_app_Cons_same)
  have s: "bTerminate s = False" "taskQ s = []" "client s = Idle"
    using assms(2) by (simp_all add: pool_init_def Let_def)
  have "acts [Work n, Work n] (s\<lparr>workers := ws Checking\<rparr>) = Some (s\<lparr>workers := ws Waiting\<rparr>)"
    using s by (simp add: thread_routine_def goto_def get_task_def predicate_def upd)
  then show ?case
    using Suc unfolding wait by (simp add: to_sleep_def acts_append ws)
qed

lemma sleep_reachable: "\<exists>s. acts (to_sleep (max num 5)) (pool_init num) = Some s \<and> all_wait s \<and> client s = Idle \<and> taskQ s = []"
proof -
  define m where "m = max num 5"
  have w: "workers (pool_init num) = replicate m Checking"
    by (simp add: pool_init_def Let_def THREAD_NUM_MIN_def m_def)
  have s: "client (pool_init num) = Idle" "taskQ (pool_init num) = []" by (simp_all add: pool_init_def Let_def)
  have "acts (to_sleep m) (pool_init num) = Some ((pool_init num)\<lparr>workers := replicate m Waiting\<rparr>)"
    using acts_to_sleep [of m m "pool_init num" num] w by (metis append_Nil2 diff_self_eq_0 order_refl pool.surjective pool.update_convs(5) replicate_0)
  then show ?thesis unfolding m_def [symmetric]
    by (intro exI [of _ "(pool_init num)\<lparr>workers := replicate m Waiting\<rparr>"]) (auto simp: all_wait_def s)
qed

section \<open>Stopping\<close>

text \<open>The first thread that \<open>stop\<close> joins is a null pointer.\<close>

lemma act_first_null:
  assumes "act a s = Some s'" "threads s \<noteq> [] \<and> hd (threads s) = None" "\<forall>i. client s = Joining i \<longrightarrow> i = 0"
  shows "threads s' = threads s \<and> (\<forall>i. client s' = Joining i \<longrightarrow> i = 0)"
proof (cases a)
  case (Work w)
  then show ?thesis using assms
    by (auto simp: thread_routine_def goto_def get_task_def take_task_def run_task_def Let_def
        split: if_splits worker_pc.splits list.splits)
next
  case Client_step
  then show ?thesis using assms by (auto simp: join_next_def hd_conv_nth split: client_pc.splits if_splits)
qed (use assms in \<open>auto simp: exec_def wait_for_all_done_def stop_def notify_all_def goto_def Let_def
    split: if_splits client_pc.splits\<close>)

lemma acts_first_null:
  assumes "acts as s = Some s'" "threads s \<noteq> [] \<and> hd (threads s) = None" "\<forall>i. client s = Joining i \<longrightarrow> i = 0"
  shows "threads s' = threads s \<and> (\<forall>i. client s' = Joining i \<longrightarrow> i = 0)"
  using assms
proof (induction as arbitrary: s)
  case (Cons a as)
  obtain s1 where s1: "act a s = Some s1" "acts as s1 = Some s'" using Cons.prems(1) by (auto simp: bind_simps)
  then show ?case using act_first_null [OF s1(1) Cons.prems(2,3)] Cons.IH [OF s1(2)] Cons.prems(2) by simp
qed simp

lemma stop_crashes:
  fixes s :: "'f pool"
  assumes "acts as (pool_init num) = Some s" "client s = Joining i"
  shows "act Client_step s = Some (s\<lparr>client := Crashed\<rparr>)"
proof -
  have init: "threads (pool_init num :: 'f pool) \<noteq> [] \<and> hd (threads (pool_init num :: 'f pool)) = None"
    by (cases num) (simp_all add: pool_init_def Let_def THREAD_NUM_MIN_def numeral_eq_Suc)
  have "threads s = threads (pool_init num :: 'f pool) \<and> (\<forall>i. client s = Joining i \<longrightarrow> i = 0)"
    by (rule acts_first_null [OF assms(1) init]) (simp add: pool_init_def Let_def)
  then have "threads s = threads (pool_init num :: 'f pool)" "i = 0" using assms(2) by blast+
  moreover from this have "threads s ! 0 = None" "threads s \<noteq> []" using init by (auto simp: hd_conv_nth)
  ultimately show ?thesis using assms(2) by (simp add: join_next_def)
qed


lemma get_thread_num_doubled: "get_thread_num (pool_init num) = 2 * length (workers (pool_init num))"
  by (simp add: get_thread_num_def pool_init_def Let_def)

section \<open>Properties\<close>



text \<open>
  C26. Pushing a task wakes nobody. For every number of threads the pool can get to a state in which all workers
  wait for a task; from then on, whatever is handed over and whoever takes the next step, no task is taken and
  none is run, unless a thread wakes without a notification or the pool is stopped, and a client that waits
  without a time limit waits for ever.
\<close>
theorem pool_lost_wakeup:
  "\<exists>as s. acts as (pool_init num) = Some s \<and> set (workers s) \<subseteq> {Waiting} \<and> client s = Idle \<and> taskQ s = [] \<and>
    (\<forall>bs s'. (\<forall>b \<in> set bs. ordinary b) \<longrightarrow> acts bs s = Some s' \<longrightarrow>
       taskQ s' = tasks_of bs \<and> ran s' = ran s \<and> expired s' = expired s \<and>
       (client s' = Awaiting \<longrightarrow> (\<forall>cs s''. (\<forall>c \<in> set cs. ordinary c) \<longrightarrow> acts cs s' = Some s'' \<longrightarrow> client s'' = Awaiting)))"
proof -
  obtain s :: "'a pool" where s: "acts (to_sleep (max num 5)) (pool_init num) = Some s" "all_wait s" "client s = Idle" "taskQ s = []"
    using sleep_reachable [of num] by blast
  have run: "taskQ s' = tasks_of bs \<and> ran s' = ran s \<and> expired s' = expired s \<and>
      (client s' = Awaiting \<longrightarrow> (\<forall>cs s''. (\<forall>c \<in> set cs. ordinary c) \<longrightarrow> acts cs s' = Some s'' \<longrightarrow> client s'' = Awaiting))"
    if bs: "\<forall>b \<in> set bs. ordinary b" "acts bs s = Some s'" for bs s'
  proof -
    have s': "all_wait s' \<and> ran s' = ran s \<and> expired s' = expired s \<and> taskQ s' = taskQ s @ tasks_of bs \<and>
      (client s = Awaiting \<longrightarrow> client s' = Awaiting)"
      using acts_all_wait [OF s(2) bs(2,1)] s(3) by simp
    then have w: "all_wait s'" by blast
    have q: "taskQ s' = tasks_of bs" using s' unfolding s(4) append_Nil by (elim conjE)
    have wait: "client s'' = Awaiting" if "client s' = Awaiting" "\<forall>c \<in> set cs. ordinary c" "acts cs s' = Some s''" for cs s''
      using acts_all_wait [OF w that(3,2)] that(1) by simp
    show ?thesis
    proof (intro conjI impI allI)
      show "taskQ s' = tasks_of bs" by (rule q)
      show "ran s' = ran s" using s' by blast
      show "expired s' = expired s" using s' by blast
      show "client s'' = Awaiting" if "client s' = Awaiting" "\<forall>c \<in> set cs. ordinary c" "acts cs s' = Some s''" for cs s''
        by (rule wait [OF that])
    qed
  qed
  show ?thesis
    by (rule exI, rule exI, rule conjI, rule s(1), rule conjI, rule s(2) [unfolded all_wait_def], rule conjI, rule s(3),
        rule conjI, rule s(4), rule allI, rule allI, rule impI, rule impI, rule run)
qed

text \<open>The program of the test: four tasks after the workers have gone to sleep, and the wait for their end.\<close>

theorem pool_lost_wakeup_witness:
  "\<exists>as s s'. acts as (pool_init 5) = Some s \<and>
     acts [Exec 0 ''a'' 0, Exec 0 ''a'' 0, Exec 0 ''b'' 0, Exec 0 ''c'' 0, Wait_all (-1)] s = Some s' \<and>
     length (taskQ s') = 4 \<and> ran s' = ran s"
proof -
  let ?bs = "[Exec 0 ''a'' 0, Exec 0 ''a'' 0, Exec 0 ''b'' 0, Exec 0 ''c'' 0, Wait_all (-1)]"
  obtain as and s :: "string pool" where s: "acts as (pool_init 5) = Some s" "client s = Idle" "taskQ s = []"
    "\<forall>bs s'. (\<forall>b \<in> set bs. ordinary b) \<longrightarrow> acts bs s = Some s' \<longrightarrow> taskQ s' = tasks_of bs \<and> ran s' = ran s"
    using pool_lost_wakeup [of 5, where ?'a = string] by (elim exE conjE) (rule that, assumption+, blast)
  obtain s' where s': "acts ?bs s = Some s'"
    using s(2,3) by (simp add: exec_def wait_for_all_done_def)
  have "\<forall>b \<in> set ?bs. ordinary b" by simp
  then have "taskQ s' = tasks_of ?bs \<and> ran s' = ran s" using s(4) s' by blast
  then show ?thesis using s(1) s' by (intro exI [of _ as] exI [of _ s] exI [of _ s']) simp
qed

end
