(* ===== verification/Blklist.thy ===== *)
theory Blklist
  imports Prelude
begin

text \<open>
  The list of blocks of \<open>util/blk_list.c\<close>, where an item is found by its number: the upper bits choose the block,
  the lower ten the item in it. \<open>mal n\<close> is what the n-th call of \<open>malloc\<close> returns; \<open>None\<close> is an access outside
  of the objects that were allocated.
\<close>

definition BLK_ARRAY_SIZE_MAX :: nat where "BLK_ARRAY_SIZE_MAX = 1024"
definition RIGHT_MOVE :: nat where "RIGHT_MOVE = 10"

record block =
  b_next :: ptr
  valid_nums :: u16
  shutdown :: bool
  array :: ptr

record blk_list =
  b_head :: ptr
  b_tail :: ptr
  blk_nums :: u16
  blk_array_item_size :: u16

record bsys =
  lists :: "blk_list heap"
  blocks :: "block heap"
  arrays :: "u8 list heap"
  mallocs :: nat

definition malloc :: "(nat \<Rightarrow> ptr) \<Rightarrow> bsys \<Rightarrow> ptr \<times> bsys" where
  "malloc mal s = (mal (mallocs s), s\<lparr>mallocs := Suc (mallocs s)\<rparr>)"

section \<open>Blocks\<close>

definition block_isvalid :: "bsys \<Rightarrow> ptr \<Rightarrow> bool option" where
  "block_isvalid s blk = do { b \<leftarrow> blocks s blk; Some (\<not> shutdown b) }"

text \<open>\<open>free\<close> of the null pointer does nothing.\<close>

definition block_free_memory :: "ptr \<Rightarrow> bsys \<Rightarrow> (int \<times> bsys) option" where
  "block_free_memory blk s =
     (if blk = NULL then Some (-1, s)
      else do {
        b \<leftarrow> blocks s blk;
        if \<not> shutdown b then Some (-1, s)
        else do {
          a \<leftarrow> (if array b = NULL then Some [] else arrays s (array b));
          Some (0, s\<lparr>arrays := (arrays s)(array b := None), blocks := (blocks s)(blk \<mapsto> b\<lparr>array := NULL, shutdown := True\<rparr>)\<rparr>)
        }
      })"

definition block_alloc_memory :: "(nat \<Rightarrow> ptr) \<Rightarrow> ptr \<Rightarrow> u16 \<Rightarrow> bsys \<Rightarrow> (int \<times> bsys) option" where
  "block_alloc_memory mal blk item_size s =
     (if blk = NULL then Some (-1, s)
      else do {
        b \<leftarrow> blocks s blk;
        let (p, s) = malloc mal s;
        if p = NULL then Some (-1, s\<lparr>blocks := (blocks s)(blk \<mapsto> b\<lparr>array := NULL\<rparr>)\<rparr>)
        else Some (0, s\<lparr>arrays := (arrays s)(p \<mapsto> replicate (unat item_size * BLK_ARRAY_SIZE_MAX) 0),
          blocks := (blocks s)(blk \<mapsto> b\<lparr>array := p, shutdown := False\<rparr>)\<rparr>)
      })"

definition block_find :: "bsys \<Rightarrow> ptr \<Rightarrow> u16 \<Rightarrow> u16 \<Rightarrow> ptr option" where
  "block_find s blk item_size key =
     (if blk = NULL then Some NULL
      else do {
        valid \<leftarrow> block_isvalid s blk;
        if \<not> valid then Some NULL
        else do { b \<leftarrow> blocks s blk; Some (array b + unat key * unat item_size) }
      })"

definition block_create :: "(nat \<Rightarrow> ptr) \<Rightarrow> u16 \<Rightarrow> bool \<Rightarrow> bsys \<Rightarrow> (ptr \<times> bsys) option" where
  "block_create mal item_size shut s =
     (case malloc mal s of (blk, s) \<Rightarrow>
        if blk = NULL then Some (NULL, s)
        else (let s = s\<lparr>blocks := (blocks s)(blk \<mapsto> \<lparr>b_next = NULL, valid_nums = 0, shutdown = shut, array = NULL\<rparr>)\<rparr> in
          if shut then Some (blk, s)
          else do {
            (r, s) \<leftarrow> block_alloc_memory mal blk item_size s;
            if r = -1 then Some (NULL, s\<lparr>blocks := (blocks s)(blk := None)\<rparr>) else Some (blk, s)
          }))"

definition block_destroy :: "ptr \<Rightarrow> bsys \<Rightarrow> (int \<times> bsys) option" where
  "block_destroy blk s =
     (if blk = NULL then Some (-1, s)
      else do {
        b \<leftarrow> blocks s blk;
        let s = s\<lparr>blocks := (blocks s)(blk \<mapsto> b\<lparr>shutdown := True\<rparr>)\<rparr>;
        (r, s) \<leftarrow> block_free_memory blk s;
        if r = -1 then Some (-1, s) else Some (0, s\<lparr>blocks := (blocks s)(blk := None)\<rparr>)
      })"

section \<open>The list\<close>

definition blk_list_create :: "(nat \<Rightarrow> ptr) \<Rightarrow> u16 \<Rightarrow> bsys \<Rightarrow> ptr \<times> bsys" where
  "blk_list_create mal item_size s =
     (if item_size = 0 then (NULL, s)
      else case malloc mal s of (list, s) \<Rightarrow>
        if list = NULL then (NULL, s)
        else (list, s\<lparr>lists := (lists s)(list \<mapsto>
          \<lparr>b_head = NULL, b_tail = NULL, blk_nums = 0, blk_array_item_size = item_size\<rparr>)\<rparr>))"

text \<open>A turn of the loop frees \<open>cur\<close>, goes on to \<open>next\<close> and reads the successor of that.\<close>

definition destroy_turn :: "ptr \<Rightarrow> ptr \<Rightarrow> bsys \<Rightarrow> (ptr \<times> ptr \<times> bsys) option" where
  "destroy_turn cur nxt s = do {
     (r, s) \<leftarrow> block_destroy cur s;
     b \<leftarrow> blocks s nxt;
     Some (nxt, b_next b, s)
   }"

partial_function (option) destroy_loop :: "ptr \<Rightarrow> ptr \<Rightarrow> bsys \<Rightarrow> bsys option" where
  "destroy_loop cur nxt s =
     (if cur = NULL then Some s
      else do { (cur, nxt, s) \<leftarrow> destroy_turn cur nxt s; destroy_loop cur nxt s })"

definition blk_list_destroy :: "ptr \<Rightarrow> bsys \<Rightarrow> (int \<times> bsys) option" where
  "blk_list_destroy list s =
     (if list = NULL then Some (-1, s)
      else do {
        l \<leftarrow> lists s list;
        b \<leftarrow> blocks s (b_head l);
        s \<leftarrow> destroy_loop (b_head l) (b_next b) s;
        Some (0, s\<lparr>lists := (lists s)(list := None)\<rparr>)
      })"

text \<open>\<open>while (count-- == 0)\<close>: the body runs at most once. The result is what the function returns.\<close>

definition add_loop :: "(nat \<Rightarrow> ptr) \<Rightarrow> ptr \<Rightarrow> int \<Rightarrow> bsys \<Rightarrow> (int \<times> bsys) option" where
  "add_loop mal list cnt s =
     (if cnt = 0 then do {
        l \<leftarrow> lists s list;
        (p, s) \<leftarrow> block_create mal (blk_array_item_size l) False s;
        t \<leftarrow> blocks s (b_tail l);
        let s = s\<lparr>blocks := (blocks s)(b_tail l \<mapsto> t\<lparr>b_next := p\<rparr>), lists := (lists s)(list \<mapsto> l\<lparr>b_tail := p\<rparr>)\<rparr>;
        if p = NULL then Some (-1, s) else Some (-2, s)
      } else Some (cnt - 1, s))"

definition blk_list_add_block :: "(nat \<Rightarrow> ptr) \<Rightarrow> ptr \<Rightarrow> int \<Rightarrow> bsys \<Rightarrow> (int \<times> bsys) option" where
  "blk_list_add_block mal list cnt s =
     (if list = NULL \<or> cnt < 0 then Some (-1, s)
      else if cnt = 0 then Some (0, s)
      else do {
        l \<leftarrow> lists s list;
        if b_tail l = NULL then do {
          (p, s) \<leftarrow> block_create mal (blk_array_item_size l) False s;
          add_loop mal list (cnt - 1) (s\<lparr>lists := (lists s)(list \<mapsto> l\<lparr>b_head := p, b_tail := p\<rparr>)\<rparr>)
        } else add_loop mal list cnt s
      })"

text \<open>The walk to the block with number \<open>n\<close>.\<close>

fun walk_blocks :: "nat \<Rightarrow> ptr \<Rightarrow> bsys \<Rightarrow> ptr option" where
  "walk_blocks 0 cur s = Some cur"
| "walk_blocks (Suc n) cur s = do { b \<leftarrow> blocks s cur; walk_blocks n (b_next b) s }"

definition blk_list_find :: "(nat \<Rightarrow> ptr) \<Rightarrow> ptr \<Rightarrow> u64 \<Rightarrow> bsys \<Rightarrow> (ptr \<times> bsys) option" where
  "blk_list_find mal list key s =
     (if list = NULL then Some (NULL, s)
      else do {
        let blk_no = (ucast (drop_bit RIGHT_MOVE key) :: u16);
        let blk_key = (ucast (key AND of_nat (BLK_ARRAY_SIZE_MAX - 1)) :: u16);
        l \<leftarrow> lists s list;
        (r, s) \<leftarrow> (if blk_nums l \<le> blk_no
          then blk_list_add_block mal list (int (unat blk_no) + 1 - int (unat (blk_nums l))) s
          else Some (0, s));
        l \<leftarrow> lists s list;
        curblk \<leftarrow> walk_blocks (unat blk_no) (b_head l) s;
        valid \<leftarrow> block_isvalid s curblk;
        (r, s) \<leftarrow> (if \<not> valid then block_alloc_memory mal curblk (blk_array_item_size l) s else Some (0, s));
        p \<leftarrow> block_find s curblk (blk_array_item_size l) blk_key;
        Some (p, s)
      })"

end
