(* ===== verification/Blklist_Correct.thy ===== *)
theory Blklist_Correct
  imports Blklist
begin

text \<open>
  The list of blocks works for its first two blocks, if the first item that is looked up is one of the first
  block: each item has bytes of its own and keeps its place. Other items are looked up behind the end of the list,
  and destroying a list reads through the null pointer behind its last block.
\<close>

section \<open>Looking items up\<close>

lemma blk_no: "unat (ucast (drop_bit RIGHT_MOVE key) :: u16) = unat key div 1024 mod 65536" for key :: u64
  by (simp add: RIGHT_MOVE_def unsigned_ucast_eq unsigned_take_bit_eq unat_drop_bit take_bit_eq_mod)

lemma blk_key: "unat (ucast (key AND of_nat (BLK_ARRAY_SIZE_MAX - 1)) :: u16) = unat key mod 1024" for key :: u64
proof -
  have "(1023 :: u64) = mask 10" by (simp add: mask_eq_exp_minus_1)
  then have "unat (key AND of_nat (BLK_ARRAY_SIZE_MAX - 1)) = unat key mod 1024"
    using unat_and_mask [of key 10] by (simp add: BLK_ARRAY_SIZE_MAX_def)
  moreover have "unat key mod 1024 < 65536" by (rule less_trans [OF mod_less_divisor]) simp_all
  ultimately show ?thesis by (simp add: unsigned_ucast_eq unsigned_take_bit_eq take_bit_eq_mod)
qed

lemmas blk_key' = blk_key [simplified]

lemma blk_no_int: "uint (ucast (drop_bit RIGHT_MOVE key) :: u16) = int (unat key div 1024 mod 65536)" for key :: u64
  using blk_no [of key] by (metis uint_nat)

lemmas find_simps = blk_list_find_def blk_no blk_no_int blk_key' Let_def

text \<open>A list as \<open>blk_list_create\<close> leaves it, and one with two blocks.\<close>

definition fresh_list :: "bsys \<Rightarrow> ptr \<Rightarrow> u16 \<Rightarrow> bool" where
  "fresh_list s list sz \<longleftrightarrow> list \<noteq> NULL \<and>
     lists s list = Some \<lparr>b_head = NULL, b_tail = NULL, blk_nums = 0, blk_array_item_size = sz\<rparr>"

definition two_blocks :: "bsys \<Rightarrow> ptr \<Rightarrow> u16 \<Rightarrow> ptr \<Rightarrow> ptr \<Rightarrow> ptr \<Rightarrow> ptr \<Rightarrow> bool" where
  "two_blocks s list sz p a q b \<longleftrightarrow> list \<noteq> NULL \<and> p \<noteq> NULL \<and> q \<noteq> NULL \<and> blocks s NULL = None \<and>
     lists s list = Some \<lparr>b_head = p, b_tail = q, blk_nums = 0, blk_array_item_size = sz\<rparr> \<and>
     blocks s p = Some \<lparr>b_next = q, valid_nums = 0, shutdown = False, array = a\<rparr> \<and>
     blocks s q = Some \<lparr>b_next = NULL, valid_nums = 0, shutdown = False, array = b\<rparr>"

lemma blk_list_create_fresh:
  assumes "mal (mallocs s) \<noteq> NULL" "sz \<noteq> 0"
  shows "\<exists>s'. blk_list_create mal sz s = (mal (mallocs s), s') \<and> fresh_list s' (mal (mallocs s)) sz \<and>
    blocks s' = blocks s \<and> mallocs s' = Suc (mallocs s)"
  using assms by (simp add: blk_list_create_def malloc_def fresh_list_def)

lemma add_two:
  assumes "fresh_list s list sz" "blocks s NULL = None"
    and "p = mal (mallocs s)" "a = mal (mallocs s + 1)" "q = mal (mallocs s + 2)" "b = mal (mallocs s + 3)"
    and "p \<noteq> NULL" "a \<noteq> NULL" "q \<noteq> NULL" "b \<noteq> NULL" "p \<noteq> q"
  shows "\<exists>s'. blk_list_add_block mal list 1 s = Some (-2, s') \<and> two_blocks s' list sz p a q b"
  using assms
  by (simp add: blk_list_add_block_def add_loop_def fresh_list_def two_blocks_def block_create_def
      block_alloc_memory_def malloc_def eval_nat_numeral)

lemma add_to_two:
  assumes "two_blocks s list sz p a q b" "1 \<le> n"
  shows "blk_list_add_block mal list n s = Some (n - 1, s)"
  using assms by (simp add: blk_list_add_block_def add_loop_def two_blocks_def)

lemma find_in_two:
  assumes "two_blocks s list sz p a q b" "unat key < 2048"
  shows "blk_list_find mal list key s =
    Some ((if unat key < 1024 then a else b) + unat key mod 1024 * unat sz, s)"
proof -
  have l: "lists s list = Some \<lparr>b_head = p, b_tail = q, blk_nums = 0, blk_array_item_size = sz\<rparr>" "list \<noteq> NULL" "p \<noteq> NULL" "q \<noteq> NULL"
    using assms(1) by (simp_all add: two_blocks_def)
  have n: "unat key div 1024 mod 65536 = (if unat key < 1024 then 0 else 1)"
    using assms(2) by auto
  show ?thesis
    using assms(1) l n
    by (cases "unat key < 1024")
      (simp_all add: find_simps add_to_two [OF assms(1)] block_isvalid_def block_find_def two_blocks_def)
qed

lemma find_beyond_two:
  assumes "two_blocks s list sz p a q b" "2 \<le> unat key div 1024 mod 65536"
  shows "blk_list_find mal list key s = None"
proof -
  have l: "lists s list = Some \<lparr>b_head = p, b_tail = q, blk_nums = 0, blk_array_item_size = sz\<rparr>" "list \<noteq> NULL"
    using assms(1) by (simp_all add: two_blocks_def)
  obtain n where n: "unat key div 1024 mod 65536 = Suc (Suc n)" using assms(2) by (metis add_2_eq_Suc le_Suc_ex)
  have "walk_blocks (Suc (Suc n)) p s = walk_blocks n NULL s" using assms(1) by (simp add: two_blocks_def)
  moreover have "walk_blocks n NULL s \<bind> (\<lambda>c. block_isvalid s c \<bind> f c) = None" for f :: "ptr \<Rightarrow> bool \<Rightarrow> (ptr \<times> bsys) option"
    using assms(1) by (cases n) (simp_all add: two_blocks_def block_isvalid_def)
  ultimately show ?thesis
    using l n by (simp add: find_simps add_to_two [OF assms(1)])
qed

lemma find_first:
  assumes "fresh_list s list sz" "blocks s NULL = None"
    and "p = mal (mallocs s)" "a = mal (mallocs s + 1)" "q = mal (mallocs s + 2)" "b = mal (mallocs s + 3)"
    and "p \<noteq> NULL" "a \<noteq> NULL" "q \<noteq> NULL" "b \<noteq> NULL" "p \<noteq> q" "unat key < 1024"
  shows "\<exists>s'. blk_list_find mal list key s = Some (a + unat key * unat sz, s') \<and> two_blocks s' list sz p a q b"
proof -
  obtain s' where s': "blk_list_add_block mal list 1 s = Some (-2, s')" "two_blocks s' list sz p a q b"
    using add_two [OF assms(1-11)] by blast
  have l: "lists s list = Some \<lparr>b_head = NULL, b_tail = NULL, blk_nums = 0, blk_array_item_size = sz\<rparr>" "list \<noteq> NULL"
    using assms(1) by (simp_all add: fresh_list_def)
  have n: "unat key div 1024 mod 65536 = 0" "unat key mod 1024 = unat key" using assms(12) by simp_all
  have "blk_list_find mal list key s = Some (a + unat key * unat sz, s')"
    using l assms(12) s' by (simp add: find_simps block_isvalid_def block_find_def two_blocks_def)
  then show ?thesis using s'(2) by blast
qed

text \<open>A first item of a later block is looked up behind the end of the list.\<close>

lemma find_later_first:
  assumes "fresh_list s list sz" "blocks s NULL = None" "1 \<le> unat key div 1024 mod 65536"
    and "p = mal (mallocs s)" "a = mal (mallocs s + 1)" "p \<noteq> NULL" "a \<noteq> NULL"
  shows "blk_list_find mal list key s = None"
proof -
  obtain n where n: "unat key div 1024 mod 65536 = Suc n" using assms(3) by (metis Suc_le_D One_nat_def)
  let ?l = "\<lparr>b_head = p, b_tail = p, blk_nums = 0, blk_array_item_size = sz\<rparr>"
  obtain s' where s': "blk_list_add_block mal list (int (Suc n) + 1) s = Some (int n, s')"
    "lists s' list = Some ?l" "blocks s' p = Some \<lparr>b_next = NULL, valid_nums = 0, shutdown = False, array = a\<rparr>"
    "blocks s' NULL = None"
    using assms by (simp add: blk_list_add_block_def add_loop_def fresh_list_def block_create_def
        block_alloc_memory_def malloc_def)
  have "walk_blocks n NULL s' \<bind> (\<lambda>c. block_isvalid s' c \<bind> f c) = None" for f :: "ptr \<Rightarrow> bool \<Rightarrow> (ptr \<times> bsys) option"
    using s'(4) by (cases n) (simp_all add: block_isvalid_def)
  moreover have "lists s list = Some \<lparr>b_head = NULL, b_tail = NULL, blk_nums = 0, blk_array_item_size = sz\<rparr>" "list \<noteq> NULL"
    using assms(1) by (simp_all add: fresh_list_def)
  ultimately show ?thesis using n s'(1-3) by (simp add: find_simps)
qed

section \<open>Destroying\<close>

fun block_chain :: "bsys \<Rightarrow> ptr \<Rightarrow> ptr list \<Rightarrow> bool" where
  "block_chain s p [] \<longleftrightarrow> p = NULL"
| "block_chain s p (c # cs) \<longleftrightarrow> p = c \<and> c \<noteq> NULL \<and>
     (\<exists>b. blocks s c = Some b \<and> (array b = NULL \<or> arrays s (array b) \<noteq> None) \<and> block_chain s (b_next b) cs)"

definition arrays_apart :: "bsys \<Rightarrow> bool" where
  "arrays_apart s \<longleftrightarrow> (\<forall>c d b b'. blocks s c = Some b \<longrightarrow> blocks s d = Some b' \<longrightarrow> c \<noteq> d \<longrightarrow> array b \<noteq> NULL \<longrightarrow> array b \<noteq> array b')"

lemma block_destroy_ok:
  assumes "blocks s c = Some b" "array b = NULL \<or> arrays s (array b) \<noteq> None" "c \<noteq> NULL"
  shows "block_destroy c s = Some (0, s\<lparr>blocks := (blocks s)(c := None), arrays := (arrays s)(array b := None)\<rparr>)"
  using assms by (auto simp: block_destroy_def block_free_memory_def)

lemma chain_after:
  assumes "block_chain s p cs" "arrays_apart s" "blocks s c = Some b" "c \<notin> set cs"
  shows "block_chain (s\<lparr>blocks := (blocks s)(c := None), arrays := (arrays s)(array b := None)\<rparr>) p cs"
  using assms
proof (induction cs arbitrary: p)
  case (Cons d cs)
  then obtain b' where b': "p = d" "d \<noteq> NULL" "blocks s d = Some b'" "array b' = NULL \<or> arrays s (array b') \<noteq> None"
    "block_chain s (b_next b') cs" by auto
  have "c \<noteq> d" using Cons.prems(4) by auto
  then have "array b' = NULL \<or> array b' \<noteq> array b" using Cons.prems(2,3) b'(3) by (metis arrays_apart_def)
  then show ?case using Cons.IH [OF b'(5)] Cons.prems b' by auto
qed simp

lemma destroy_all_but_last:
  assumes "block_chain s c (c # cs)" "distinct (c # cs)" "arrays_apart s" "blocks s NULL = None" "blocks s c = Some b"
  shows "destroy_loop c (b_next b) s = None"
  using assms
proof (induction cs arbitrary: c b s)
  case Nil
  let ?s = "s\<lparr>blocks := (blocks s)(c := None), arrays := (arrays s)(array b := None)\<rparr>"
  have "block_destroy c s = Some (0, ?s)" "b_next b = NULL" "c \<noteq> NULL"
    using Nil block_destroy_ok [of s c b] by auto
  then have "destroy_turn c (b_next b) s = None" using Nil(4) by (simp add: destroy_turn_def)
  then show ?case using \<open>c \<noteq> NULL\<close> by (subst destroy_loop.simps) simp
next
  case (Cons d cs)
  let ?s = "s\<lparr>blocks := (blocks s)(c := None), arrays := (arrays s)(array b := None)\<rparr>"
  have c: "block_destroy c s = Some (0, ?s)" "b_next b = d" "c \<noteq> NULL" "block_chain s d (d # cs)"
    using Cons.prems block_destroy_ok [of s c b] by auto
  obtain b' where b': "blocks s d = Some b'" using c(4) by auto
  have d: "c \<noteq> d" using Cons.prems(2) by auto
  have "destroy_turn c (b_next b) s = Some (d, b_next b', ?s)" using c d b' by (simp add: destroy_turn_def)
  then have "destroy_loop c (b_next b) s = destroy_loop d (b_next b') ?s"
    using c(3) by (subst destroy_loop.simps) simp
  moreover have "destroy_loop d (b_next b') ?s = None"
  proof (rule Cons.IH)
    show "block_chain ?s d (d # cs)" using chain_after [OF c(4) Cons.prems(3,5)] Cons.prems(2) by simp
    show "arrays_apart ?s" using Cons.prems(3) by (simp add: arrays_apart_def)
  qed (use Cons.prems b' d in auto)
  ultimately show ?case by simp
qed


text \<open>Where the items of two blocks lie.\<close>

definition item_at :: "ptr \<Rightarrow> ptr \<Rightarrow> u16 \<Rightarrow> u64 \<Rightarrow> ptr" where
  "item_at a b sz key = (if unat key < 1024 then a else b) + unat key mod 1024 * unat sz"

lemma low_item: "unat key mod 1024 * unat sz + unat sz \<le> 1024 * unat sz" for key :: u64 and sz :: u16
proof -
  have "Suc (unat key mod 1024) \<le> 1024" by (simp add: Suc_le_eq)
  then have "Suc (unat key mod 1024) * unat sz \<le> 1024 * unat sz" by (rule mult_le_mono1)
  then show ?thesis by simp
qed

lemma items_apart:
  assumes "unat key < 2048" "unat key' < 2048" "key \<noteq> key'"
    and "a + 1024 * unat sz \<le> b \<or> b + 1024 * unat sz \<le> a"
  shows "item_at a b sz key + unat sz \<le> item_at a b sz key' \<or> item_at a b sz key' + unat sz \<le> item_at a b sz key"
proof (cases "unat key < 1024 \<longleftrightarrow> unat key' < 1024")
  case True
  have ne: "unat key \<noteq> unat key'" using assms(3) by (simp add: word_unat_eq_iff)
  have mods: "unat key = (if unat key < 1024 then 0 else 1024) + unat key mod 1024"
    "unat key' = (if unat key' < 1024 then 0 else 1024) + unat key' mod 1024"
    using assms(1,2) by (auto simp: mod_if)
  then have "unat key mod 1024 \<noteq> unat key' mod 1024" using ne True by auto
  then have "Suc (unat key mod 1024) \<le> unat key' mod 1024 \<or> Suc (unat key' mod 1024) \<le> unat key mod 1024" by linarith
  then have "Suc (unat key mod 1024) * unat sz \<le> unat key' mod 1024 * unat sz \<or>
    Suc (unat key' mod 1024) * unat sz \<le> unat key mod 1024 * unat sz"
    using mult_le_mono1 by blast
  then show ?thesis using True by (auto simp: item_at_def)
next
  case False
  then have "item_at a b sz key = a + unat key mod 1024 * unat sz \<and> item_at a b sz key' = b + unat key' mod 1024 * unat sz \<or>
    item_at a b sz key = b + unat key mod 1024 * unat sz \<and> item_at a b sz key' = a + unat key' mod 1024 * unat sz" by (auto simp: item_at_def)
  moreover have "a + 1024 * unat sz \<le> b \<or> b + 1024 * unat sz \<le> a" by (rule assms(4))
  ultimately show ?thesis using low_item [of key sz] low_item [of key' sz] by linarith
qed

section \<open>Properties\<close>

text \<open>
  C27. On a list that was just created, looking up an item of the first block makes two blocks if the memory is
  there. From then on every item of the two blocks is found at the same address again and again, without any
  effect; different items get addresses that are at least the size of an item apart, inside the array of
  their block; an item of a later block is looked up through the null pointer.
\<close>
theorem blk_list_find_items:
  assumes "fresh_list s list sz" "blocks s NULL = None" "unat first < 1024"
    and "\<forall>i < 4. mal (mallocs s + i) \<noteq> NULL" "mal (mallocs s) \<noteq> mal (mallocs s + 2)"
    and "mal (mallocs s + 1) + 1024 * unat sz \<le> mal (mallocs s + 3) \<or> mal (mallocs s + 3) + 1024 * unat sz \<le> mal (mallocs s + 1)"
  shows "\<exists>s' at. blk_list_find mal list first s = Some (at first, s') \<and>
    (\<forall>key. unat key < 2048 \<longrightarrow> blk_list_find mal list key s' = Some (at key, s')) \<and>
    (\<forall>key. unat key < 2048 \<longrightarrow> (\<exists>i \<in> {1, 3}. mal (mallocs s + i) \<le> at key \<and> at key + unat sz \<le> mal (mallocs s + i) + 1024 * unat sz)) \<and>
    (\<forall>key key'. unat key < 2048 \<longrightarrow> unat key' < 2048 \<longrightarrow> key \<noteq> key' \<longrightarrow>
       at key + unat sz \<le> at key' \<or> at key' + unat sz \<le> at key) \<and>
    (\<forall>key. 2048 \<le> unat key \<longrightarrow> unat key < 1024 * 65536 \<longrightarrow> blk_list_find mal list key s' = None)"
proof -
  define a b where "a = mal (mallocs s + 1)" and "b = mal (mallocs s + 3)"
  let ?at = "item_at a b sz"
  have nonnull: "mal (mallocs s) \<noteq> NULL" "mal (mallocs s + 1) \<noteq> NULL" "mal (mallocs s + 2) \<noteq> NULL" "mal (mallocs s + 3) \<noteq> NULL"
    using assms(4) [rule_format, of 0] assms(4) [rule_format, of 1] assms(4) [rule_format, of 2] assms(4) [rule_format, of 3] by simp_all
  obtain s' where s': "blk_list_find mal list first s = Some (a + unat first * unat sz, s')"
    "two_blocks s' list sz (mal (mallocs s)) a (mal (mallocs s + 2)) b"
    using find_first [OF assms(1,2) refl refl refl refl nonnull assms(5,3)] by (auto simp: a_def b_def)
  have first: "?at first = a + unat first * unat sz" using assms(3) by (simp add: item_at_def)
  have inside: "\<exists>i \<in> {1, 3}. mal (mallocs s + i) \<le> ?at key \<and> ?at key + unat sz \<le> mal (mallocs s + i) + 1024 * unat sz"
    if "unat key < 2048" for key
    using low_item [of key sz] by (cases "unat key < 1024") (auto simp: item_at_def a_def b_def)
  have "a + 1024 * unat sz \<le> b \<or> b + 1024 * unat sz \<le> a" using assms(6) by (simp only: a_def b_def)
  note apart = items_apart [OF _ _ _ this]
  have beyond: "blk_list_find mal list key s' = None" if "2048 \<le> unat key" "unat key < 1024 * 65536" for key
  proof (rule find_beyond_two [OF s'(2)])
    have "unat key div 1024 < 65536" using that(2) by (simp add: less_mult_imp_div_less mult.commute)
    then show "2 \<le> unat key div 1024 mod 65536" using that(1) by (simp add: less_eq_div_iff_mult_less_eq)
  qed
  show ?thesis
    using s'(1) first find_in_two [OF s'(2), folded item_at_def] inside apart beyond
    by (intro exI [of _ s'] exI [of _ ?at]) simp
qed

definition sample_malloc :: "nat \<Rightarrow> ptr" where
  "sample_malloc n = 1000 + 20000 * n"

definition sample_blk :: bsys where
  "sample_blk = snd (blk_list_create sample_malloc 8 \<lparr>lists = Map.empty, blocks = Map.empty, arrays = Map.empty, mallocs = 0\<rparr>)"

theorem blk_list_find_items_witness:
  "\<exists>s' at. blk_list_find sample_malloc 1000 5 sample_blk = Some (at 5, s') \<and>
     blk_list_find sample_malloc 1000 1024 s' = Some (at 1024, s') \<and> (at 5 + 8 \<le> at 1024 \<or> at 1024 + 8 \<le> at (5 :: u64))"
proof -
  have s: "fresh_list sample_blk 1000 8" "blocks sample_blk NULL = None" "mallocs sample_blk = 1"
    by (simp_all add: sample_blk_def blk_list_create_def malloc_def sample_malloc_def fresh_list_def)
  obtain s' at where s': "blk_list_find sample_malloc 1000 5 sample_blk = Some (at 5, s')"
    "\<forall>key. unat key < 2048 \<longrightarrow> blk_list_find sample_malloc 1000 key s' = Some (at key, s')"
    "\<forall>key key'. unat key < 2048 \<longrightarrow> unat key' < 2048 \<longrightarrow> key \<noteq> key' \<longrightarrow> at key + unat (8 :: u16) \<le> at key' \<or> at key' + unat (8 :: u16) \<le> at key"
    using blk_list_find_items [OF s(1,2), of 5 sample_malloc] s(3) by (auto simp: sample_malloc_def)
  have "blk_list_find sample_malloc 1000 1024 s' = Some (at 1024, s')" using s'(2) by simp
  moreover have "at 5 + 8 \<le> at 1024 \<or> at 1024 + 8 \<le> at (5 :: u64)" using s'(3) [rule_format, of 5 1024] by simp
  ultimately show ?thesis using s'(1) by blast
qed

text \<open>
  Destroying a list fails for every list there is, empty or not: all its blocks are freed, and then the
  successor of the null pointer behind the last one is read.
\<close>
theorem blk_list_destroy_fails:
  assumes "list \<noteq> NULL" "lists s list = Some l" "block_chain s (b_head l) cs" "distinct cs" "arrays_apart s" "blocks s NULL = None"
  shows "blk_list_destroy list s = None"
proof (cases cs)
  case Nil
  then show ?thesis using assms by (simp add: blk_list_destroy_def)
next
  case (Cons c cs')
  then obtain b where b: "b_head l = c" "blocks s c = Some b" using assms(3) by auto
  then have "destroy_loop c (b_next b) s = None"
    using destroy_all_but_last [of s c cs' b] assms(3-6) Cons by simp
  then show ?thesis using b assms(1,2) by (simp add: blk_list_destroy_def)
qed

theorem blk_list_destroy_fails_witness: "blk_list_destroy 1000 sample_blk = None"
proof -
  have "lists sample_blk 1000 = Some \<lparr>b_head = NULL, b_tail = NULL, blk_nums = 0, blk_array_item_size = 8\<rparr>"
    "blocks sample_blk = Map.empty"
    by (simp_all add: sample_blk_def blk_list_create_def malloc_def sample_malloc_def)
  then show ?thesis
    using blk_list_destroy_fails [of 1000 sample_blk _ "[]"] by (simp add: arrays_apart_def)
qed

end
