(* ===== verification/Btree.thy ===== *)
theory Btree
  imports Prelude
begin

text \<open>
  The beginnings of a B-tree in \<open>util/btree.c\<close>: nodes with arrays of keys and children, creating one, splitting a
  child and the walk of the insertion. \<open>mal n\<close> is what the n-th call of \<open>malloc\<close> returns; \<open>None\<close> is an access
  outside of the objects there are, or a loop that does not end.
\<close>

definition M :: u32 where "M = 6"
definition DEGREES :: nat where "DEGREES = 3"

record btree_node =
  keys :: ptr
  children :: ptr
  num :: u32
  leaf :: int

record btree =
  root :: ptr
  nodes :: "btree_node heap"
  key_arrays :: "int list heap"
  child_arrays :: "ptr list heap"
  mallocs :: nat

section \<open>Memory\<close>

definition key_at :: "btree \<Rightarrow> ptr \<Rightarrow> nat \<Rightarrow> int option" where
  "key_at T a i = do { ks \<leftarrow> key_arrays T a; if i < length ks then Some (ks ! i) else None }"

definition set_key :: "ptr \<Rightarrow> nat \<Rightarrow> int \<Rightarrow> btree \<Rightarrow> btree option" where
  "set_key a i k T = do {
     ks \<leftarrow> key_arrays T a;
     if i < length ks then Some (T\<lparr>key_arrays := (key_arrays T)(a \<mapsto> ks[i := k])\<rparr>) else None
   }"

definition child_at :: "btree \<Rightarrow> ptr \<Rightarrow> nat \<Rightarrow> ptr option" where
  "child_at T a i = do { cs \<leftarrow> child_arrays T a; if i < length cs then Some (cs ! i) else None }"

definition set_child :: "ptr \<Rightarrow> nat \<Rightarrow> ptr \<Rightarrow> btree \<Rightarrow> btree option" where
  "set_child a i c T = do {
     cs \<leftarrow> child_arrays T a;
     if i < length cs then Some (T\<lparr>child_arrays := (child_arrays T)(a \<mapsto> cs[i := c])\<rparr>) else None
   }"

section \<open>Nodes\<close>

text \<open>The node is zeroed without a look at whether there is one; it has no arrays.\<close>

definition btree_create_node :: "(nat \<Rightarrow> ptr) \<Rightarrow> btree \<Rightarrow> (ptr \<times> btree) option" where
  "btree_create_node mal T =
     (let p = mal (mallocs T); T = T\<lparr>mallocs := Suc (mallocs T)\<rparr> in
      if p = NULL then None
      else Some (p, T\<lparr>nodes := (nodes T)(p \<mapsto> \<lparr>keys = NULL, children = NULL, num = 0, leaf = 0\<rparr>)\<rparr>))"

fun move_keys :: "nat list \<Rightarrow> nat \<Rightarrow> ptr \<Rightarrow> ptr \<Rightarrow> btree \<Rightarrow> btree option" where
  "move_keys [] j new child T = Some T"
| "move_keys (i # is) j new child T = do {
     c \<leftarrow> nodes T child;
     k \<leftarrow> key_at T (keys c) i;
     n \<leftarrow> nodes T new;
     T \<leftarrow> set_key (keys n) j k T;
     move_keys is (j + 1) new child T
   }"

fun move_children :: "nat list \<Rightarrow> nat \<Rightarrow> ptr \<Rightarrow> ptr \<Rightarrow> btree \<Rightarrow> btree option" where
  "move_children [] j new child T = Some T"
| "move_children (i # is) j new child T = do {
     c \<leftarrow> nodes T child;
     p \<leftarrow> child_at T (children c) j;
     n \<leftarrow> nodes T new;
     T \<leftarrow> set_child (children n) i p T;
     T \<leftarrow> set_child (children c) i NULL T;
     move_children is (j + 1) new child T
   }"

definition btree_split_child :: "(nat \<Rightarrow> ptr) \<Rightarrow> ptr \<Rightarrow> nat \<Rightarrow> btree \<Rightarrow> btree option" where
  "btree_split_child mal parent idx T = do {
     p \<leftarrow> nodes T parent;
     child \<leftarrow> child_at T (children p) idx;
     (new_node, T) \<leftarrow> btree_create_node mal T;
     c \<leftarrow> nodes T child;
     T \<leftarrow> move_keys [DEGREES..<unat (num c)] 0 new_node child T;
     T \<leftarrow> (if leaf c = 0 then do {
         n \<leftarrow> nodes T new_node;
         move_children [DEGREES..<unat (num c + 1)] 0 new_node child (T\<lparr>nodes := (nodes T)(new_node \<mapsto> n\<lparr>leaf := 0\<rparr>)\<rparr>)
       } else Some T);
     p \<leftarrow> nodes T parent;
     k \<leftarrow> key_at T (keys c) (DEGREES - 1);
     T \<leftarrow> set_key (keys p) (unat (num p)) k T;
     let T = T\<lparr>nodes := (nodes T)(child \<mapsto> c\<lparr>num := of_nat (DEGREES - 1)\<rparr>)\<rparr>;
     p \<leftarrow> nodes T parent;
     T \<leftarrow> set_child (children p) (unat (num p)) new_node T;
     Some (T\<lparr>nodes := (nodes T)(parent \<mapsto> p\<lparr>num := num p + 1\<rparr>)\<rparr>)
   }"

section \<open>The insertion\<close>

text \<open>The index is an \<open>unsigned char\<close>.\<close>

partial_function (option) find_branch :: "btree \<Rightarrow> btree_node \<Rightarrow> int \<Rightarrow> u8 \<Rightarrow> u8 option" where
  "find_branch T node key i =
     (if ucast i < num node then do {
        k \<leftarrow> key_at T (keys node) (unat i);
        if key < k then find_branch T node key (i + 1) else Some i
      } else Some i)"

partial_function (option) to_leaf :: "btree \<Rightarrow> ptr \<Rightarrow> int \<Rightarrow> ptr option" where
  "to_leaf T node key = do {
     n \<leftarrow> nodes T node;
     if leaf n \<noteq> 0 then Some node
     else do {
       i \<leftarrow> find_branch T n key 0;
       c \<leftarrow> child_at T (children n) (unat i);
       to_leaf T c key
     }
   }"

definition btree_insert :: "(nat \<Rightarrow> ptr) \<Rightarrow> int \<Rightarrow> btree \<Rightarrow> btree option" where
  "btree_insert mal key T = do {
     r \<leftarrow> nodes T (root T);
     T \<leftarrow> (if num r = M - 1 then do {
         (new_node, T') \<leftarrow> btree_create_node mal T;
         let T' = T'\<lparr>root := new_node\<rparr>;
         n \<leftarrow> nodes T' new_node;
         T' \<leftarrow> set_child (children n) 0 (root T) T';
         btree_split_child mal new_node 0 T'
       } else Some T);
     node \<leftarrow> to_leaf T (root T) key;
     Some T
   }"

end
