(* ===== verification/Btree_Correct.thy ===== *)
theory Btree_Correct
  imports Btree
begin

text \<open>
  What the unfinished insertion of the B-tree does: it walks to a leaf and leaves the tree as it is, and fails when
  the root is full.
\<close>

text \<open>A tree of height \<open>h\<close>: an inner node has one child more than keys, and its arrays hold them.\<close>

fun tree_ok :: "btree \<Rightarrow> nat \<Rightarrow> ptr \<Rightarrow> bool" where
  "tree_ok T 0 p \<longleftrightarrow> (\<exists>n. nodes T p = Some n \<and> leaf n \<noteq> 0)"
| "tree_ok T (Suc h) p \<longleftrightarrow> (\<exists>n ks cs. nodes T p = Some n \<and> leaf n = 0 \<and> unat (num n) < 6 \<and>
     key_arrays T (keys n) = Some ks \<and> unat (num n) \<le> length ks \<and>
     child_arrays T (children n) = Some cs \<and> unat (num n) < length cs \<and> (\<forall>c \<in> set (take (Suc (unat (num n))) cs). tree_ok T h c))"

lemma find_branch_ends:
  assumes "unat (num n) < 6" "key_arrays T (keys n) = Some ks" "unat (num n) \<le> length ks" "unat i \<le> unat (num n)"
  shows "\<exists>j. find_branch T n key i = Some j \<and> unat j \<le> unat (num n)"
  using assms(4)
proof (induction "unat (num n) - unat i" arbitrary: i rule: less_induct)
  case less
  have "unat i mod 4294967296 = unat i" using less.prems assms(1) by simp
  then have lt: "ucast i < num n \<longleftrightarrow> unat i < unat (num n)"
    by (simp add: word_less_nat_alt unsigned_ucast_eq take_bit_nat_def)
  show ?case
  proof (cases "unat i < unat (num n)")
    case True
    then have inc: "unat (i + 1) = unat i + 1" using assms(1) by (simp add: unat_plus_if')
    have k: "key_at T (keys n) (unat i) = Some (ks ! unat i)" using assms(2,3) True by (simp add: key_at_def)
    show ?thesis
    proof (cases "key < ks ! unat i")
      case True
      then have "find_branch T n key i = find_branch T n key (i + 1)"
        using \<open>unat i < unat (num n)\<close> k lt by (subst find_branch.simps) simp
      then show ?thesis using less.hyps [of "i + 1"] inc \<open>unat i < unat (num n)\<close> by simp
    next
      case False
      then have "find_branch T n key i = Some i" using \<open>unat i < unat (num n)\<close> k lt by (subst find_branch.simps) simp
      then show ?thesis using less.prems by simp
    qed
  next
    case False
    then have "find_branch T n key i = Some i" using lt by (subst find_branch.simps) simp
    then show ?thesis using less.prems by simp
  qed
qed

lemma to_leaf_ends: "tree_ok T h p \<Longrightarrow> \<exists>l. to_leaf T p key = Some l"
proof (induction h arbitrary: p)
  case 0
  then show ?case by (subst to_leaf.simps) auto
next
  case (Suc h)
  then obtain n ks cs where n: "nodes T p = Some n" "leaf n = 0" "unat (num n) < 6" "key_arrays T (keys n) = Some ks"
    "unat (num n) \<le> length ks" "child_arrays T (children n) = Some cs" "unat (num n) < length cs"
    "\<forall>c \<in> set (take (Suc (unat (num n))) cs). tree_ok T h c" by auto
  obtain j where j: "find_branch T n key 0 = Some j" "unat j \<le> unat (num n)"
    using find_branch_ends [OF n(3,4,5), of 0 key] by auto
  have "cs ! unat j \<in> set (take (Suc (unat (num n))) cs)"
    using j(2) n(7) by (metis le_imp_less_Suc length_take min.absorb2 nth_mem nth_take Suc_leI)
  then obtain l where "to_leaf T (cs ! unat j) key = Some l" using Suc.IH n(8) by blast
  moreover have "child_at T (children n) (unat j) = Some (cs ! unat j)" using n(6,7) j(2) by (simp add: child_at_def)
  ultimately show ?case using n(1,2) j(1) by (subst to_leaf.simps) simp
qed

text \<open>
  C28. Inserting a key does not insert it. If the root has five keys, the insertion fails, since the new root has no
  array of children to put the old root into. If it has fewer, the walk ends at a leaf, and the tree, with
  all nodes and arrays, is what it was before.
\<close>
theorem btree_insert_inserts_nothing:
  assumes "tree_ok T h (root T)" "child_arrays T NULL = None" "nodes T (root T) = Some r"
  shows "btree_insert mal key T = (if num r = 5 then None else Some T)"
proof (cases "num r = 5")
  case True
  have "num r = M - 1" using True by (simp add: M_def)
  then show ?thesis
    using assms True by (auto simp: btree_insert_def btree_create_node_def set_child_def Let_def)
next
  case False
  then have "num r \<noteq> M - 1" by (simp add: M_def)
  then show ?thesis using to_leaf_ends [OF assms(1), of key] assms(3) False by (auto simp: btree_insert_def)
qed

definition sample_btree :: btree where
  "sample_btree = \<lparr>root = 1, nodes = [1 \<mapsto> \<lparr>keys = 10, children = 20, num = 1, leaf = 0\<rparr>,
     2 \<mapsto> \<lparr>keys = 11, children = NULL, num = 1, leaf = 1\<rparr>, 3 \<mapsto> \<lparr>keys = 12, children = NULL, num = 0, leaf = 1\<rparr>],
     key_arrays = [10 \<mapsto> [5], 11 \<mapsto> [7], 12 \<mapsto> []], child_arrays = [20 \<mapsto> [2, 3]], mallocs = 0\<rparr>"

theorem btree_insert_inserts_nothing_witness: "btree_insert (\<lambda>n. 100 + n) 4 sample_btree = Some sample_btree"
proof -
  have "tree_ok sample_btree 1 (root sample_btree)" by (simp add: sample_btree_def)
  then show ?thesis using btree_insert_inserts_nothing [of sample_btree 1 _ "\<lambda>n. 100 + n" 4] by (simp add: sample_btree_def)
qed

end
