(* ===== verification/Cpool.thy ===== *)
theory Cpool
  imports Queue
begin

text \<open>
  The thread pool of \<open>pool/thread_pool.c\<close> on the linked queue of \<open>util/queue.c\<close>. The file does not compile; the
  model takes what its names stand for: \<open>pool->task\<close> for \<open>pool->taskq\<close>, \<open>thread_task_cycyle\<close> for the function below
  it, \<open>PRINT\<close> for printing, which is left out, and in \<open>thread_pool_setup\<close> the pool for the pointer to it. \<open>mal n\<close> is
  what the n-th call of \<open>malloc\<close> returns, and \<open>stale\<close> what the memory of a freed node holds. A turn of a worker
  and a call of \<open>add_task\<close> are one step each.
\<close>

record 'f task_entity =
  handler :: 'f
  arg :: ptr

record 'f tpool =
  taskq :: queue
  threadq :: queue
  tasks :: "'f task_entity heap"
  entities :: "ptr \<rightharpoonup> bool"
  mallocs :: nat
  handled :: "('f \<times> ptr) list"

text \<open>\<open>entities\<close> maps the \<open>thread_entity\<close> of each thread to its flag \<open>shutdown\<close>.\<close>

definition malloc :: "(nat \<Rightarrow> ptr) \<Rightarrow> 'f tpool \<Rightarrow> ptr \<times> 'f tpool" where
  "malloc mal s = (mal (mallocs s), s\<lparr>mallocs := Suc (mallocs s)\<rparr>)"

section \<open>Tasks\<close>

definition is_empty_taskq :: "'f tpool \<Rightarrow> bool option" where
  "is_empty_taskq s = queue_is_empty (taskq s)"

text \<open>The result of \<open>queue_push\<close> is not looked at.\<close>

definition push_taskq :: "(nat \<Rightarrow> ptr) \<Rightarrow> ptr \<Rightarrow> 'f tpool \<Rightarrow> 'f tpool option" where
  "push_taskq mal entity s =
     (case malloc mal s of (node, s) \<Rightarrow> do {
        (ret, q) \<leftarrow> queue_push node entity (taskq s);
        Some (s\<lparr>taskq := q\<rparr>)
      })"

definition add_task :: "(nat \<Rightarrow> ptr) \<Rightarrow> 'f \<Rightarrow> ptr \<Rightarrow> 'f tpool \<Rightarrow> (int \<times> 'f tpool) option" where
  "add_task mal func a s =
     (case malloc mal s of (pTask, s) \<Rightarrow>
        if pTask = NULL then Some (-1, s)
        else do {
          s \<leftarrow> push_taskq mal pTask (s\<lparr>tasks := (tasks s)(pTask \<mapsto> \<lparr>handler = func, arg = a\<rparr>)\<rparr>);
          Some (0, s)
        })"

definition del_task :: "ptr \<Rightarrow> 'f tpool \<Rightarrow> 'f tpool option" where
  "del_task task s =
     (if task = NULL then Some s else do { t \<leftarrow> tasks s task; Some (s\<lparr>tasks := (tasks s)(task := None)\<rparr>) })"

definition pop_taskq :: "(qnode \<Rightarrow> ptr) \<Rightarrow> 'f tpool \<Rightarrow> (ptr \<times> 'f tpool) option" where
  "pop_taskq stale s = do {
     e \<leftarrow> is_empty_taskq s;
     if e then Some (NULL, s)
     else do { (task, q) \<leftarrow> queue_pop stale (taskq s); Some (task, s\<lparr>taskq := q\<rparr>) }
   }"

section \<open>Threads\<close>

text \<open>One turn of the loop of thread \<open>w\<close>. The first component says whether it made one: it ends with
  \<open>shutdown\<close> and waits while there is no task.\<close>

definition thread_task_cycle :: "(qnode \<Rightarrow> ptr) \<Rightarrow> ptr \<Rightarrow> 'f tpool \<Rightarrow> (bool \<times> 'f tpool) option" where
  "thread_task_cycle stale w s = do {
     shutdown \<leftarrow> entities s w;
     if shutdown then Some (False, s)
     else do {
       e \<leftarrow> is_empty_taskq s;
       if e then Some (False, s)
       else do {
         (task, s) \<leftarrow> pop_taskq stale s;
         s \<leftarrow> (if task \<noteq> NULL then do { t \<leftarrow> tasks s task; Some (s\<lparr>handled := handled s @ [(handler t, arg t)]\<rparr>) } else Some s);
         s \<leftarrow> del_task task s;
         Some (True, s)
       }
     }
   }"

definition push_threadq :: "(nat \<Rightarrow> ptr) \<Rightarrow> ptr \<Rightarrow> 'f tpool \<Rightarrow> 'f tpool option" where
  "push_threadq mal entity s =
     (case malloc mal s of (node, s) \<Rightarrow> do {
        (ret, q) \<leftarrow> queue_push node entity (threadq s);
        Some (s\<lparr>threadq := q\<rparr>)
      })"

definition add_thread :: "(nat \<Rightarrow> ptr) \<Rightarrow> 'f tpool \<Rightarrow> (int \<times> 'f tpool) option" where
  "add_thread mal s =
     (case malloc mal s of (pTread, s) \<Rightarrow>
        if pTread = NULL then Some (-1, s)
        else do {
          s \<leftarrow> push_threadq mal pTread (s\<lparr>entities := (entities s)(pTread \<mapsto> False)\<rparr>);
          Some (0, s)
        })"

fun add_threads :: "(nat \<Rightarrow> ptr) \<Rightarrow> nat \<Rightarrow> 'f tpool \<Rightarrow> 'f tpool option" where
  "add_threads mal 0 s = Some s"
| "add_threads mal (Suc n) s = do { (ret, s) \<leftarrow> add_thread mal s; add_threads mal n s }"

section \<open>The pool\<close>

text \<open>The calls of \<open>malloc\<close>: the pool, then the head node and the structure of each queue.\<close>

definition thread_pool_setup :: "(nat \<Rightarrow> ptr) \<Rightarrow> nat \<Rightarrow> (int \<times> 'f tpool option) option" where
  "thread_pool_setup mal n =
     (if mal 0 = NULL then Some (-1, None)
      else do {
        (ret, tq) \<leftarrow> queue_create (mal 1) (mal 2);
        (ret, wq) \<leftarrow> queue_create (mal 3) (mal 4);
        tq \<leftarrow> tq;
        wq \<leftarrow> wq;
        let s = \<lparr>taskq = tq, threadq = wq, tasks = Map.empty, entities = Map.empty, mallocs = 5, handled = []\<rparr>;
        s \<leftarrow> (if n > 0 then add_threads mal n s else do { (ret, s) \<leftarrow> add_thread mal s; Some s });
        Some (0, Some s)
      })"

text \<open>What is left in memory: the nodes of the queues, the tasks and the threads.\<close>

definition thread_pool_destroy :: "(qnode \<Rightarrow> ptr) \<Rightarrow> 'f tpool \<Rightarrow> (qnode heap \<times> qnode heap) option" where
  "thread_pool_destroy stale s = do {
     a \<leftarrow> queue_destroy stale (taskq s);
     b \<leftarrow> queue_destroy stale (threadq s);
     Some (a, b)
   }"

section \<open>Runs\<close>

fun add_tasks :: "(nat \<Rightarrow> ptr) \<Rightarrow> ('f \<times> ptr) list \<Rightarrow> 'f tpool \<Rightarrow> 'f tpool option" where
  "add_tasks mal [] s = Some s"
| "add_tasks mal ((f, a) # fs) s = do { (ret, s) \<leftarrow> add_task mal f a s; add_tasks mal fs s }"

text \<open>The turns of the workers in the order in which they get the mutex.\<close>

fun turns :: "(qnode \<Rightarrow> ptr) \<Rightarrow> ptr list \<Rightarrow> 'f tpool \<Rightarrow> 'f tpool option" where
  "turns stale [] s = Some s"
| "turns stale (w # ws) s = do { (b, s) \<leftarrow> thread_task_cycle stale w s; turns stale ws s }"

end
