(* ===== verification/Cpool_Correct.thy ===== *)
theory Cpool_Correct
  imports Cpool Queue_Correct
begin

text \<open>
  The pool as a client of the queue: a batch of tasks is run in order by whichever workers, as the contract
  \<open>batch_queue\<close> gives it; after a single task the next turn of a worker follows a freed node.
\<close>

section \<open>Setting the pool up\<close>

definition fresh_alloc :: "(nat \<Rightarrow> ptr) \<Rightarrow> bool" where
  "fresh_alloc mal \<longleftrightarrow> inj mal \<and> (\<forall>n. mal n \<noteq> NULL)"

definition used :: "(nat \<Rightarrow> ptr) \<Rightarrow> nat \<Rightarrow> ptr set" where
  "used mal n = mal ` {..<n}"

lemma used_Suc: "used mal (Suc n) = insert (mal n) (used mal n)"
  by (auto simp: used_def less_Suc_eq)

lemma fresh_used: "fresh_alloc mal \<Longrightarrow> mal n \<in> used mal m \<longleftrightarrow> n < m"
  by (auto simp: fresh_alloc_def used_def inj_def)

lemma queue_create_ring:
  assumes "h \<noteq> NULL" "r \<noteq> NULL"
  shows "queue_create h r = Some (0, Some \<lparr>qhead = h, nodes = [h \<mapsto> \<lparr>prev = h, nxt = h, data = NULL\<rparr>]\<rparr>)"
  using assms by (simp add: queue_create_def set_prev_def set_nxt_def Let_def)

text \<open>Adding threads keeps the queue of threads in the state of being filled.\<close>

definition threads_ok :: "(nat \<Rightarrow> ptr) \<Rightarrow> 'f tpool \<Rightarrow> (ptr \<times> ptr) list \<Rightarrow> bool" where
  "threads_ok mal s ys \<longleftrightarrow> filling (threadq s) ys \<and> dom (nodes (threadq s)) \<subseteq> used mal (mallocs s) \<and>
     finite (dom (entities s)) \<and> card (dom (entities s)) = length ys \<and>
     (\<forall>w b. entities s w = Some b \<longrightarrow> \<not> b) \<and> dom (entities s) \<subseteq> used mal (mallocs s)"

lemma add_thread_ok:
  assumes "fresh_alloc mal" "threads_ok mal s ys"
  shows "\<exists>s' y. add_thread mal s = Some (0, s') \<and> threads_ok mal s' (ys @ [y]) \<and> taskq s' = taskq s \<and>
    tasks s' = tasks s \<and> handled s' = handled s \<and> mallocs s \<le> mallocs s'"
proof -
  let ?t = "mal (mallocs s)" and ?n = "mal (Suc (mallocs s))"
  have n: "?n \<noteq> NULL" "?t \<noteq> NULL" using assms(1) by (simp_all add: fresh_alloc_def)
  have "?n \<notin> used mal (mallocs s)" using fresh_used [OF assms(1)] by simp
  then have "nodes (threadq s) ?n = None" using assms(2) by (auto simp: threads_ok_def)
  then obtain q where q: "queue_push ?n ?t (threadq s) = Some (0, q)" "filling q (ys @ [(?n, ?t)])"
    "dom (nodes q) = insert ?n (dom (nodes (threadq s)))"
    using push_filling [of "threadq s" ys ?n ?t] n assms(2) by (auto simp: threads_ok_def)
  have new: "?t \<notin> dom (entities s)" using fresh_used [OF assms(1)] assms(2) by (auto simp: threads_ok_def)
  let ?s = "s\<lparr>entities := (entities s)(?t \<mapsto> False), mallocs := Suc (Suc (mallocs s)), threadq := q\<rparr>"
  have "add_thread mal s = Some (0, ?s)" using n q(1) by (simp add: add_thread_def push_threadq_def malloc_def)
  moreover have "threads_ok mal ?s (ys @ [(?n, ?t)])"
    using q(2,3) assms(2) new by (auto simp: threads_ok_def used_Suc)
  ultimately show ?thesis by (intro exI [of _ ?s] exI [of _ "(?n, ?t)"]) simp
qed


lemma add_threads_ok:
  assumes "fresh_alloc mal" "threads_ok mal s ys"
  shows "\<exists>s' ys'. add_threads mal n s = Some s' \<and> threads_ok mal s' ys' \<and> length ys' = length ys + n \<and> taskq s' = taskq s \<and>
    tasks s' = tasks s \<and> handled s' = handled s \<and> mallocs s \<le> mallocs s'"
  using assms(2)
proof (induction n arbitrary: s ys)
  case 0
  then show ?case by auto
next
  case (Suc n)
  obtain s1 y where s1: "add_thread mal s = Some (0, s1)" "threads_ok mal s1 (ys @ [y])" "taskq s1 = taskq s"
    "tasks s1 = tasks s" "handled s1 = handled s" "mallocs s \<le> mallocs s1"
    using add_thread_ok [OF assms(1) Suc.prems] by blast
  obtain s' ys' where s': "add_threads mal n s1 = Some s'" "threads_ok mal s' ys'" "length ys' = length (ys @ [y]) + n"
    "taskq s' = taskq s1" "tasks s' = tasks s1" "handled s' = handled s1" "mallocs s1 \<le> mallocs s'"
    using Suc.IH [OF s1(2)] by blast
  have "add_threads mal (Suc n) s = Some s'" using s1(1) s'(1) by simp
  then show ?case using s1 s' by (intro exI [of _ s'] exI [of _ ys']) simp
qed

text \<open>A pool without tasks: its queue of tasks is as created.\<close>

definition new_pool :: "(nat \<Rightarrow> ptr) \<Rightarrow> nat \<Rightarrow> 'f tpool \<Rightarrow> bool" where
  "new_pool mal n s \<longleftrightarrow> taskq s = \<lparr>qhead = mal 1, nodes = [mal 1 \<mapsto> \<lparr>prev = mal 1, nxt = mal 1, data = NULL\<rparr>]\<rparr> \<and>
     tasks s = Map.empty \<and> handled s = [] \<and> 5 \<le> mallocs s \<and> card (dom (entities s)) = n \<and>
     (\<forall>w \<in> dom (entities s). entities s w = Some False)"

lemma setup_ok:
  assumes "fresh_alloc mal"
  shows "\<exists>s :: 'f tpool. thread_pool_setup mal n = Some (0, Some s) \<and> new_pool mal (max n 1) s"
proof -
  have nn: "mal i \<noteq> NULL" for i using assms by (simp add: fresh_alloc_def)
  let ?tq = "\<lambda>h. \<lparr>qhead = h, nodes = [h \<mapsto> \<lparr>prev = h, nxt = h, data = NULL\<rparr>]\<rparr> :: queue"
  let ?s = "\<lparr>taskq = ?tq (mal 1), threadq = ?tq (mal 3), tasks = Map.empty, entities = Map.empty, mallocs = 5, handled = []\<rparr> :: 'f tpool"
  have "filling (?tq (mal 3)) []"
    using queue_create_filling [OF nn [of 3] nn [of 4]] by (auto simp: queue_create_ring [OF nn nn])
  then have "threads_ok mal ?s []" using fresh_used [OF assms] by (auto simp: threads_ok_def)
  then obtain s' ys' where s': "add_threads mal (max n 1) ?s = Some s'" "threads_ok mal s' ys'" "length ys' = max n 1"
    "taskq s' = taskq ?s" "tasks s' = tasks ?s" "handled s' = handled ?s" "mallocs ?s \<le> mallocs s'"
    using add_threads_ok [OF assms, of ?s "[]" "max n 1"] by auto
  have "thread_pool_setup mal n = Some (0, Some s')"
  proof (cases "n = 0")
    case True
    then show ?thesis using nn s'(1) by (auto simp: thread_pool_setup_def queue_create_ring Let_def bind_simps)
  next
    case False
    then have "max n 1 = n" by simp
    then show ?thesis using nn s'(1) False by (simp add: thread_pool_setup_def queue_create_ring Let_def)
  qed
  moreover have "entities s' w = Some False" if "w \<in> dom (entities s')" for w
  proof -
    obtain b where b: "entities s' w = Some b" using domD [OF \<open>w \<in> dom (entities s')\<close>] by auto
    then have "\<not> b" using s'(2) unfolding threads_ok_def by blast
    then show ?thesis using b by simp
  qed
  then have "new_pool mal (max n 1) s'" using s' by (simp add: new_pool_def threads_ok_def)
  ultimately show ?thesis by blast
qed

section \<open>Adding tasks\<close>

lemma map_upd_snd [simp]: "p \<notin> snd ` set xs \<Longrightarrow> map (m(p := v) \<circ> snd) xs = map (m \<circ> snd) xs"
  by (induction xs) auto

text \<open>The queue holds the tasks with the given functions and arguments, in order; there are no others.\<close>

definition holds_tasks :: "'f tpool \<Rightarrow> (ptr \<times> ptr) list \<Rightarrow> ('f \<times> ptr) list \<Rightarrow> bool" where
  "holds_tasks s xs fs \<longleftrightarrow> distinct (map snd xs) \<and> NULL \<notin> snd ` set xs \<and> dom (tasks s) = snd ` set xs \<and>
     map (tasks s) (map snd xs) = map (\<lambda>(f, a). Some \<lparr>handler = f, arg = a\<rparr>) fs"

definition tasks_ok :: "(nat \<Rightarrow> ptr) \<Rightarrow> 'f tpool \<Rightarrow> (ptr \<times> ptr) list \<Rightarrow> ('f \<times> ptr) list \<Rightarrow> bool" where
  "tasks_ok mal s xs fs \<longleftrightarrow> filling (taskq s) xs \<and> holds_tasks s xs fs \<and>
     dom (nodes (taskq s)) \<subseteq> used mal (mallocs s) \<and> dom (tasks s) \<subseteq> used mal (mallocs s)"

lemma add_task_ok:
  assumes "fresh_alloc mal" "tasks_ok mal s xs fs"
  shows "\<exists>s' x. add_task mal f a s = Some (0, s') \<and> tasks_ok mal s' (xs @ [x]) (fs @ [(f, a)]) \<and>
    entities s' = entities s \<and> handled s' = handled s"
proof -
  let ?t = "mal (mallocs s)" and ?n = "mal (Suc (mallocs s))"
  have n: "?n \<noteq> NULL" "?t \<noteq> NULL" using assms(1) by (simp_all add: fresh_alloc_def)
  have "?n \<notin> used mal (mallocs s)" using fresh_used [OF assms(1)] by simp
  then have "nodes (taskq s) ?n = None" using assms(2) by (auto simp: tasks_ok_def)
  then obtain q where q: "queue_push ?n ?t (taskq s) = Some (0, q)" "filling q (xs @ [(?n, ?t)])"
    "dom (nodes q) = insert ?n (dom (nodes (taskq s)))"
    using push_filling [of "taskq s" xs ?n ?t] n assms(2) by (auto simp: tasks_ok_def)
  have new: "?t \<notin> dom (tasks s)" using fresh_used [OF assms(1)] assms(2) by (auto simp: tasks_ok_def)
  let ?s = "s\<lparr>tasks := (tasks s)(?t \<mapsto> \<lparr>handler = f, arg = a\<rparr>), mallocs := Suc (Suc (mallocs s)), taskq := q\<rparr>"
  have h: "holds_tasks s xs fs" using assms(2) by (simp add: tasks_ok_def)
  then have x: "?t \<notin> snd ` set xs" using new by (simp add: holds_tasks_def)
  then have "holds_tasks ?s (xs @ [(?n, ?t)]) (fs @ [(f, a)])"
    using h x n(2) by (auto simp: holds_tasks_def)
  moreover have "add_task mal f a s = Some (0, ?s)" using n q(1) by (simp add: add_task_def push_taskq_def malloc_def)
  ultimately show ?thesis using q(2,3) assms(2)
    by (intro exI [of _ ?s] exI [of _ "(?n, ?t)"]) (auto simp: tasks_ok_def used_Suc)
qed

lemma add_tasks_ok:
  assumes "fresh_alloc mal" "tasks_ok mal s xs fs"
  shows "\<exists>s' xs'. add_tasks mal gs s = Some s' \<and> tasks_ok mal s' xs' (fs @ gs) \<and> entities s' = entities s \<and> handled s' = handled s"
  using assms(2)
proof (induction gs arbitrary: s xs fs)
  case Nil
  then show ?case by auto
next
  case (Cons g gs)
  obtain f a where g: "g = (f, a)" by fastforce
  obtain s1 x where s1: "add_task mal f a s = Some (0, s1)" "tasks_ok mal s1 (xs @ [x]) (fs @ [(f, a)])"
    "entities s1 = entities s" "handled s1 = handled s"
    using add_task_ok [OF assms(1) Cons.prems] by blast
  obtain s' xs' where "add_tasks mal gs s1 = Some s'" "tasks_ok mal s' xs' ((fs @ [(f, a)]) @ gs)"
    "entities s' = entities s1" "handled s' = handled s1"
    using Cons.IH [OF s1(2)] by blast
  then show ?case using s1 g by (intro exI [of _ s'] exI [of _ xs']) simp
qed

lemma new_pool_tasks_ok: "new_pool mal n s \<Longrightarrow> tasks_ok mal s [] []"
proof -
  assume new: "new_pool mal n s"
  then have "filling (taskq s) []" by (simp add: new_pool_def filling_def ring_head_def newest_def)
  moreover have "mal 1 \<in> used mal (mallocs s)" using new by (simp add: new_pool_def used_def)
  ultimately show ?thesis using new by (simp add: tasks_ok_def holds_tasks_def new_pool_def)
qed

section \<open>Running tasks\<close>

lemma turn_draining:
  assumes "draining (taskq s) (x # xs)" "holds_tasks s (x # xs) ((f, a) # fs)" "entities s w = Some False"
  shows "\<exists>s'. thread_task_cycle data w s = Some (True, s') \<and> draining (taskq s') xs \<and> holds_tasks s' xs fs \<and>
    entities s' = entities s \<and> handled s' = handled s @ [(f, a)]"
proof -
  obtain q where q: "queue_pop data (taskq s) = Some (snd x, q)" "draining q xs" using qb.deq_ok [OF assms(1)] by blast
  have e: "queue_is_empty (taskq s) = Some False" using qb.emp_ok [OF assms(1)] by simp
  have t: "tasks s (snd x) = Some \<lparr>handler = f, arg = a\<rparr>" "snd x \<noteq> NULL" "snd x \<notin> snd ` set xs"
    using assms(2) by (auto simp: holds_tasks_def)
  let ?s = "s\<lparr>taskq := q, handled := handled s @ [(f, a)], tasks := (tasks s)(snd x := None)\<rparr>"
  have "thread_task_cycle data w s = Some (True, ?s)"
    using assms(3) q(1) e t by (simp add: thread_task_cycle_def is_empty_taskq_def pop_taskq_def del_task_def)
  moreover have "holds_tasks ?s xs fs" using assms(2) t(3) by (auto simp: holds_tasks_def)
  ultimately show ?thesis using q(2) by (intro exI [of _ ?s]) simp
qed

lemma turns_draining:
  assumes "draining (taskq s) xs" "holds_tasks s xs fs" "\<forall>w \<in> set ws. entities s w = Some False" "length ws = length fs"
  shows "\<exists>s'. turns data ws s = Some s' \<and> draining (taskq s') [] \<and> tasks s' = Map.empty \<and> handled s' = handled s @ fs"
  using assms
proof (induction ws arbitrary: s xs fs)
  case Nil
  then have "xs = []" by (auto simp: holds_tasks_def dest: map_eq_imp_length_eq)
  then show ?case using Nil by (auto simp: holds_tasks_def)
next
  case (Cons w ws)
  then obtain f a fs' where fs: "fs = (f, a) # fs'" by (cases fs) auto
  then obtain x xs' where xs: "xs = x # xs'" using Cons.prems(2) by (cases xs) (auto simp: holds_tasks_def)
  obtain s1 where s1: "thread_task_cycle data w s = Some (True, s1)" "draining (taskq s1) xs'" "holds_tasks s1 xs' fs'"
    "entities s1 = entities s" "handled s1 = handled s @ [(f, a)]"
    using turn_draining [of s x xs' f a fs' w] Cons.prems fs xs by auto
  obtain s' where "turns data ws s1 = Some s'" "draining (taskq s') []" "tasks s' = Map.empty" "handled s' = handled s1 @ fs'"
    using Cons.IH [OF s1(2,3)] Cons.prems(3,4) s1(4) fs by auto
  then show ?case using s1 fs by (intro exI [of _ s']) simp
qed


section \<open>Properties\<close>



text \<open>
  A single task is run, but then the queue is not empty for the pool although nothing is in it: the next turn
  of a worker follows the pointer to the freed node.
\<close>
theorem cpool_single_task_fails:
  fixes f :: 'f
  assumes "inj mal" "\<forall>n. mal n \<noteq> NULL"
  shows "\<exists>s s'. thread_pool_setup mal n = Some (0, Some s) \<and> add_task mal f a s = Some (0, s') \<and> dom (entities s) \<noteq> {} \<and>
    (\<forall>w \<in> dom (entities s). \<exists>s''. thread_task_cycle data w s' = Some (True, s'') \<and> handled s'' = [(f, a)] \<and>
       (\<forall>v \<in> dom (entities s). thread_task_cycle data v s'' = None))"
proof -
  have mal: "fresh_alloc mal" using assms by (simp add: fresh_alloc_def)
  obtain s :: "'f tpool" where s: "thread_pool_setup mal n = Some (0, Some s)" "new_pool mal (max n 1) s"
    using setup_ok [OF mal] by blast
  let ?p = "mal (mallocs s)" and ?q = "mal (Suc (mallocs s))"
  have ne: "?q \<noteq> mal 1" "mal 1 \<noteq> NULL" "?p \<noteq> NULL" "?q \<noteq> NULL" using s(2) assms by (simp_all add: new_pool_def inj_eq)
  have tq: "taskq s = \<lparr>qhead = mal 1, nodes = [mal 1 \<mapsto> \<lparr>prev = mal 1, nxt = mal 1, data = NULL\<rparr>]\<rparr>"
    and w: "\<And>w. w \<in> dom (entities s) \<Longrightarrow> entities s w = Some False" and h: "handled s = []"
    using s(2) by (simp_all add: new_pool_def)
  obtain q1 q2 where q: "queue_push ?q ?p (taskq s) = Some (0, q1)" "queue_is_empty q1 = Some False"
    "queue_pop data q1 = Some (?p, q2)" "queue_is_empty q2 = Some False" "queue_pop data q2 = None"
    using ne unfolding tq
    by (simp add: queue_push_def queue_pop_def queue_is_empty_def set_prev_def set_nxt_def get_prev_def get_nxt_def Let_def)
  let ?s' = "s\<lparr>tasks := (tasks s)(?p \<mapsto> \<lparr>handler = f, arg = a\<rparr>), mallocs := Suc (Suc (mallocs s)), taskq := q1\<rparr>"
  let ?s'' = "?s'\<lparr>taskq := q2, handled := [(f, a)], tasks := (tasks s)(?p := None)\<rparr>"
  have "add_task mal f a s = Some (0, ?s')" using ne q(1) by (simp add: add_task_def push_taskq_def malloc_def)
  moreover have "thread_task_cycle data v ?s' = Some (True, ?s'')" if "v \<in> dom (entities s)" for v
    using q(2,3) w [OF that] h ne by (simp add: thread_task_cycle_def is_empty_taskq_def pop_taskq_def del_task_def)
  moreover have "thread_task_cycle data v ?s'' = None" if "v \<in> dom (entities s)" for v
    using q(4,5) w [OF that] by (simp add: thread_task_cycle_def is_empty_taskq_def pop_taskq_def)
  moreover have "dom (entities s) \<noteq> {}" using s(2) by (auto simp: new_pool_def)
  ultimately show ?thesis using s(1) by (intro exI [of _ s] exI [of _ ?s']) (auto intro!: exI [of _ ?s''])
qed

theorem cpool_single_task_fails_witness:
  "\<exists>s s' w s''. thread_pool_setup (\<lambda>n. 8 * n + 8) 3 = Some (0, Some s) \<and> add_task (\<lambda>n. 8 * n + 8) ''a'' NULL s = Some (0, s') \<and>
     thread_task_cycle data w s' = Some (True, s'') \<and> handled s'' = [(''a'', NULL)] \<and> thread_task_cycle data w s'' = None"
  using cpool_single_task_fails [of "\<lambda>n. 8 * n + 8" 3 "''a''" NULL] by (fastforce simp: inj_def)

end
