(* ===== verification/Memleak.thy ===== *)
theory Memleak
  imports Prelude
begin

text \<open>
  The leak detector of \<open>src/memleak.c\<close> in the variant that overrides \<open>malloc\<close> and \<open>free\<close>
  (\<open>__USE_MALLOC_HOOK_OVERRIDE\<close>): each allocation writes a \<open>.mem\<close> file named after its address, and freeing deletes it.
  The library itself allocates while it opens a file or prints, and its calls reach the same
  functions. A result is \<open>Undef\<close> where the code is undefined, with the state that is reached.
\<close>

section \<open>The process\<close>

record mem_line =
  line_caller :: ptr
  line_addr :: ptr
  line_size :: u64

datatype message = Double_free ptr | Free_done ptr

text \<open>\<open>heap\<close> has the blocks of \<open>__libc_malloc\<close>, \<open>files\<close> the \<open>.mem\<close> files by the address in their names; \<open>room\<close>
  is the number of files that can still be opened.\<close>

record mproc =
  enable_malloc_hook :: int
  enable_free_hook :: int
  heap :: "u64 heap"
  files :: "ptr \<rightharpoonup> mem_line"
  room :: nat
  printed :: "message list"

datatype 'a res = Ret 'a mproc | Undef mproc

fun res_bind :: "'a res \<Rightarrow> ('a \<Rightarrow> mproc \<Rightarrow> 'b res) \<Rightarrow> 'b res" where
  "res_bind (Ret a s) f = f a s"
| "res_bind (Undef s) f = Undef s"

text \<open>\<open>a\<close> is the address that the allocator finds, null when there is none.\<close>

definition libc_malloc :: "ptr \<Rightarrow> u64 \<Rightarrow> mproc \<Rightarrow> ptr res" where
  "libc_malloc a n s = Ret a (if a = NULL then s else s\<lparr>heap := (heap s)(a \<mapsto> n)\<rparr>)"

definition libc_free :: "ptr \<Rightarrow> mproc \<Rightarrow> unit res" where
  "libc_free p s =
     (if p = NULL then Ret () s
      else if heap s p = None then Undef s
      else Ret () (s\<lparr>heap := (heap s)(p := None)\<rparr>))"

section \<open>malloc\<close>

text \<open>
  \<open>lib\<close> is what the library does inside \<open>fopen\<close> and \<open>fprintf\<close>. The stream is used without a look at it, and never
  closed.
\<close>

definition malloc_with :: "(mproc \<Rightarrow> unit res) \<Rightarrow> ptr \<Rightarrow> u64 \<Rightarrow> ptr \<Rightarrow> mproc \<Rightarrow> ptr res" where
  "malloc_with lib a n caller s =
     (if enable_malloc_hook s \<noteq> 0 then
        res_bind (libc_malloc a n (s\<lparr>enable_malloc_hook := 0\<rparr>)) (\<lambda>p s.
        res_bind (lib s) (\<lambda>u s.
          if room s = 0 then Undef s
          else Ret p (s\<lparr>room := room s - 1,
              files := (files s)(p \<mapsto> \<lparr>line_caller = caller, line_addr = p, line_size = n\<rparr>), enable_malloc_hook := 1\<rparr>)))
      else libc_malloc a n s)"

text \<open>The calls of the library are calls of the same function, with the hook off; inside them the library does nothing
  more.\<close>

fun library :: "(ptr \<times> u64) list \<Rightarrow> mproc \<Rightarrow> unit res" where
  "library [] s = Ret () s"
| "library ((a, n) # as) s = res_bind (malloc_with (\<lambda>s. Ret () s) a n NULL s) (\<lambda>p s. library as s)"

datatype alloc = Alloc (at: ptr) (bytes: u64) (caller: ptr) (inner: "(ptr \<times> u64) list")

definition malloc :: "alloc \<Rightarrow> mproc \<Rightarrow> ptr res" where
  "malloc al s = malloc_with (library (inner al)) (at al) (bytes al) (caller al) s"

section \<open>free\<close>

fun mallocs :: "alloc list \<Rightarrow> mproc \<Rightarrow> unit res" where
  "mallocs [] s = Ret () s"
| "mallocs (al # als) s = res_bind (malloc al s) (\<lambda>p s. mallocs als s)"

text \<open>Printing may allocate the buffer of the stream, with the hook of \<open>malloc\<close> on.\<close>

definition printf :: "alloc list \<Rightarrow> message \<Rightarrow> mproc \<Rightarrow> unit res" where
  "printf als m s = res_bind (mallocs als s) (\<lambda>u s. Ret () (s\<lparr>printed := printed s @ [m]\<rparr>))"

definition free :: "alloc list \<Rightarrow> alloc list \<Rightarrow> ptr \<Rightarrow> mproc \<Rightarrow> unit res" where
  "free als1 als2 p s =
     (if enable_free_hook s \<noteq> 0 then
        let s = s\<lparr>enable_free_hook := 0\<rparr> in
        res_bind
          (if files s p = None then printf als1 (Double_free p) s else Ret () (s\<lparr>files := (files s)(p := None)\<rparr>)) (\<lambda>u s.
        res_bind (printf als2 (Free_done p) s) (\<lambda>u s.
        res_bind (libc_free p s) (\<lambda>u s.
          Ret () (s\<lparr>enable_free_hook := 1\<rparr>))))
      else libc_free p s)"

section \<open>Programs\<close>

datatype request = Malloc_call alloc | Free_call ptr "alloc list" "alloc list"

fun program :: "request list \<Rightarrow> mproc \<Rightarrow> unit res" where
  "program [] s = Ret () s"
| "program (Malloc_call al # rs) s = res_bind (malloc al s) (\<lambda>p s. program rs s)"
| "program (Free_call p als1 als2 # rs) s = res_bind (free als1 als2 p s) (\<lambda>u s. program rs s)"

text \<open>\<open>main\<close>, for the addresses of the two blocks and what the library allocates.\<close>

definition leak_main :: "alloc \<Rightarrow> alloc \<Rightarrow> alloc list \<Rightarrow> alloc list \<Rightarrow> mproc \<Rightarrow> unit res" where
  "leak_main al1 al2 als1 als2 s =
     res_bind (malloc al1 s) (\<lambda>p1 s. res_bind (malloc al2 s) (\<lambda>p2 s. free als1 als2 p1 s))"

end
