(* ===== verification/Memleak_Correct.thy ===== *)
theory Memleak_Correct
  imports Memleak
begin

text \<open>
  The \<open>.mem\<close> files are the blocks in use: the invariant that relates the two, that every call keeps it, and the limit
  set by the files that are never closed.
\<close>

section \<open>The invariant\<close>

text \<open>Both hooks are on; the blocks in use are those with a file, which tells their sizes, and those of the library.\<close>

definition tracked :: "ptr set \<Rightarrow> mproc \<Rightarrow> bool" where
  "tracked L s \<longleftrightarrow> enable_malloc_hook s = 1 \<and> L \<inter> dom (files s) = {} \<and> dom (heap s) = dom (files s) \<union> L \<and>
     NULL \<notin> dom (heap s) \<and> (\<forall>p l. files s p = Some l \<longrightarrow> line_addr l = p \<and> heap s p = Some (line_size l))"

text \<open>The allocator finds memory, and gives no address twice.\<close>

definition fresh :: "alloc \<Rightarrow> mproc \<Rightarrow> bool" where
  "fresh al s \<longleftrightarrow> NULL \<notin> set (at al # map fst (inner al)) \<and> set (at al # map fst (inner al)) \<inter> dom (heap s) = {} \<and>
     at al \<notin> fst ` set (inner al)"

definition logged :: "alloc \<Rightarrow> (ptr \<rightharpoonup> mem_line) \<Rightarrow> ptr \<rightharpoonup> mem_line" where
  "logged al m = m(at al \<mapsto> \<lparr>line_caller = caller al, line_addr = at al, line_size = bytes al\<rparr>)"

definition with_heap :: "(ptr \<times> u64) list \<Rightarrow> mproc \<Rightarrow> mproc" where
  "with_heap as s = s\<lparr>heap := heap s ++ map_of (rev as)\<rparr>"

lemma library_off:
  "enable_malloc_hook s = 0 \<Longrightarrow> NULL \<notin> fst ` set as \<Longrightarrow> library as s = Ret () (with_heap as s)"
proof (induction "as" arbitrary: s)
  case (Cons x "as")
  obtain a n where x: "x = (a, n)" by (cases x)
  then have "library as (s\<lparr>heap := (heap s)(a \<mapsto> n)\<rparr>) = Ret () (with_heap as (s\<lparr>heap := (heap s)(a \<mapsto> n)\<rparr>))"
    using Cons.IH [of "s\<lparr>heap := (heap s)(a \<mapsto> n)\<rparr>"] Cons.prems by simp
  then show ?case using Cons.prems x
    by (simp add: malloc_with_def libc_malloc_def with_heap_def)
qed (simp add: with_heap_def)

text \<open>\<open>malloc\<close> with the hook on.\<close>

lemma malloc_eq:
  assumes "enable_malloc_hook s = 1" "fresh al s"
  shows "malloc al s =
    (if room s = 0 then Undef (with_heap ((at al, bytes al) # inner al) (s\<lparr>enable_malloc_hook := 0\<rparr>))
     else Ret (at al) (with_heap ((at al, bytes al) # inner al) s\<lparr>room := room s - 1, files := logged al (files s)\<rparr>))"
  using assms
  by (simp add: malloc_def malloc_with_def libc_malloc_def fresh_def library_off with_heap_def logged_def)

lemma with_heap_new:
  assumes "fresh al s"
  shows "dom (heap (with_heap ((at al, bytes al) # inner al) s)) = insert (at al) (dom (heap s) \<union> fst ` set (inner al))"
    "heap (with_heap ((at al, bytes al) # inner al) s) (at al) = Some (bytes al)"
    "heap s p \<noteq> None \<Longrightarrow> heap (with_heap ((at al, bytes al) # inner al) s) p = heap s p"
proof -
  have "map_of (rev (inner al)) (at al) = None" using assms by (simp add: fresh_def map_of_eq_None_iff)
  then show "heap (with_heap ((at al, bytes al) # inner al) s) (at al) = Some (bytes al)"
    by (simp add: with_heap_def map_add_def)
  show "dom (heap (with_heap ((at al, bytes al) # inner al) s)) = insert (at al) (dom (heap s) \<union> fst ` set (inner al))"
    by (auto simp: with_heap_def dom_map_of_conv_image_fst)
  assume "heap s p \<noteq> None"
  then have "p \<notin> fst ` set (inner al)" "p \<noteq> at al" using assms by (auto simp: fresh_def)
  then have "map_of (rev (inner al)) p = None" "p \<noteq> at al" by (simp_all add: map_of_eq_None_iff)
  then show "heap (with_heap ((at al, bytes al) # inner al) s) p = heap s p" by (simp add: with_heap_def map_add_def)
qed

lemma malloc_tracked:
  assumes "tracked L s" "fresh al s" "0 < room s"
  shows "\<exists>s' L'. malloc al s = Ret (at al) s' \<and> tracked L' s' \<and> L \<subseteq> L' \<and> files s' = logged al (files s) \<and>
    room s' = room s - 1 \<and> printed s' = printed s \<and> enable_free_hook s' = enable_free_hook s"
proof -
  let ?s' = "with_heap ((at al, bytes al) # inner al) s\<lparr>room := room s - 1, files := logged al (files s)\<rparr>"
  let ?L' = "L \<union> fst ` set (inner al)"
  note h = with_heap_new [OF assms(2)]
  have s: "L \<inter> dom (files s) = {}" "dom (heap s) = dom (files s) \<union> L" "NULL \<notin> dom (heap s)"
    "\<And>p l. files s p = Some l \<Longrightarrow> line_addr l = p \<and> heap s p = Some (line_size l)"
    "enable_malloc_hook s = 1" using assms(1) unfolding tracked_def by blast+
  have f: "NULL \<noteq> at al" "NULL \<notin> fst ` set (inner al)" "at al \<notin> dom (heap s)" "fst ` set (inner al) \<inter> dom (heap s) = {}"
    "at al \<notin> fst ` set (inner al)" using assms(2) by (auto simp: fresh_def)
  have "malloc al s = Ret (at al) ?s'" using malloc_eq [OF s(5) assms(2)] assms(3) by simp
  moreover have "tracked ?L' ?s'"
  proof -
    have "?L' \<inter> dom (files ?s') = {}" using s(1,2) f by (auto simp: logged_def)
    moreover have "dom (heap ?s') = dom (files ?s') \<union> ?L'" using h(1) s(2) by (auto simp: logged_def)
    moreover have "NULL \<notin> dom (heap ?s')" using h(1) s(3) f(1,2) by simp
    moreover have "line_addr l = p \<and> heap ?s' p = Some (line_size l)" if "files ?s' p = Some l" for p l
    proof (cases "p = at al")
      case True
      then show ?thesis using that h(2) by (auto simp: logged_def)
    next
      case False
      then have "line_addr l = p" "heap s p = Some (line_size l)" using that s(4) [of p l] by (simp_all add: logged_def)
      then show ?thesis using h(3) [of p] by simp
    qed
    ultimately show ?thesis using s(5) by (simp add: tracked_def with_heap_def)
  qed
  ultimately show ?thesis by (intro exI [of _ ?s'] exI [of _ ?L']) (simp add: with_heap_def)
qed

fun legal_allocs :: "alloc list \<Rightarrow> mproc \<Rightarrow> bool" where
  "legal_allocs [] s = True"
| "legal_allocs (al # als) s =
     (fresh al s \<and> (case malloc al s of Ret p s \<Rightarrow> legal_allocs als s | Undef s \<Rightarrow> True))"

lemma mallocs_tracked:
  assumes "tracked L s" "legal_allocs als s" "length als \<le> room s"
  shows "\<exists>s' L'. mallocs als s = Ret () s' \<and> tracked L' s' \<and> L \<subseteq> L' \<and> files s' = fold logged als (files s) \<and>
    room s' = room s - length als \<and> printed s' = printed s \<and> enable_free_hook s' = enable_free_hook s"
  using assms
proof (induction als arbitrary: s L)
  case (Cons al als)
  then have "fresh al s" "0 < room s" by simp_all
  from malloc_tracked [OF Cons.prems(1) this] obtain s1 L1 where s1: "malloc al s = Ret (at al) s1" "tracked L1 s1" "L \<subseteq> L1"
    "files s1 = logged al (files s)" "room s1 = room s - 1" "printed s1 = printed s" "enable_free_hook s1 = enable_free_hook s"
    by blast
  have "legal_allocs als s1" "length als \<le> room s1" using Cons.prems(2,3) s1(1,5) by simp_all
  from Cons.IH [OF s1(2) this] s1 show ?case by auto
qed auto

lemma free_tracked:
  assumes "tracked L s" "enable_free_hook s = 1" "files s p \<noteq> None" "length als2 \<le> room s"
    "legal_allocs als2 (s\<lparr>enable_free_hook := 0, files := (files s)(p := None)\<rparr>)"
  shows "\<exists>s' L'. free als1 als2 p s = Ret () s' \<and> tracked L' s' \<and>
    files s' = fold logged als2 ((files s)(p := None)) \<and> room s' = room s - length als2 \<and>
    printed s' = printed s @ [Free_done p] \<and> enable_free_hook s' = 1"
proof -
  let ?s = "s\<lparr>enable_free_hook := 0, files := (files s)(p := None)\<rparr>"
  have "tracked (insert p L) ?s" using assms(1,3) by (auto simp: tracked_def)
  from mallocs_tracked [OF this assms(5)] assms(4) obtain s1 L1 where s1: "mallocs als2 ?s = Ret () s1" "tracked L1 s1"
    "insert p L \<subseteq> L1" "files s1 = fold logged als2 ((files s)(p := None))" "room s1 = room s - length als2" "printed s1 = printed s"
    by auto
  let ?s' = "s1\<lparr>printed := printed s1 @ [Free_done p], heap := (heap s1)(p := None), enable_free_hook := 1\<rparr>"
  have p: "p \<in> dom (heap s1)" "p \<notin> dom (files s1)" "p \<noteq> NULL" using s1(2,3) by (auto simp: tracked_def)
  then have "libc_free p (s1\<lparr>printed := printed s1 @ [Free_done p]\<rparr>) =
      Ret () (s1\<lparr>printed := printed s1 @ [Free_done p], heap := (heap s1)(p := None)\<rparr>)" by (auto simp: libc_free_def)
  then have "free als1 als2 p s = Ret () ?s'" using s1(1) assms(2) by (simp add: free_def printf_def Let_def assms(3) del: not_None_eq)
  moreover have "tracked (L1 - {p}) ?s'"
  proof -
    have "line_addr l = q \<and> heap ?s' q = Some (line_size l)" if "files ?s' q = Some l" for q l
      using that s1(2) p(2) by (cases "q = p") (auto simp: tracked_def)
    moreover have "dom (heap ?s') = dom (files ?s') \<union> (L1 - {p})" "(L1 - {p}) \<inter> dom (files ?s') = {}" "NULL \<notin> dom (heap ?s')"
      using s1(2) p(2) unfolding tracked_def by auto
    ultimately show ?thesis using s1(2) by (simp add: tracked_def)
  qed
  ultimately show ?thesis using s1 by (intro exI [of _ ?s'] exI [of _ "L1 - {p}"]) simp
qed

section \<open>Programs\<close>

text \<open>The program frees only what it got from \<open>malloc\<close> and has not freed.\<close>

fun legal_program :: "request list \<Rightarrow> mproc \<Rightarrow> bool" where
  "legal_program [] s = True"
| "legal_program (Malloc_call al # rs) s =
     (fresh al s \<and> (case malloc al s of Ret p s \<Rightarrow> legal_program rs s | Undef s \<Rightarrow> True))"
| "legal_program (Free_call p als1 als2 # rs) s =
     (files s p \<noteq> None \<and> legal_allocs als2 (s\<lparr>enable_free_hook := 0, files := (files s)(p := None)\<rparr>) \<and>
      (case free als1 als2 p s of Ret u s \<Rightarrow> legal_program rs s | Undef s \<Rightarrow> True))"

fun opens :: "request \<Rightarrow> nat" where
  "opens (Malloc_call al) = 1"
| "opens (Free_call p als1 als2) = length als2"

fun effect :: "request \<Rightarrow> (ptr \<rightharpoonup> mem_line) \<Rightarrow> ptr \<rightharpoonup> mem_line" where
  "effect (Malloc_call al) m = logged al m"
| "effect (Free_call p als1 als2) m = fold logged als2 (m(p := None))"

fun freed :: "request list \<Rightarrow> ptr list" where
  "freed [] = []"
| "freed (Malloc_call al # rs) = freed rs"
| "freed (Free_call p als1 als2 # rs) = p # freed rs"

lemma program_tracked:
  assumes "tracked L s" "enable_free_hook s = 1" "legal_program rs s" "sum_list (map opens rs) \<le> room s"
  shows "\<exists>s' L'. program rs s = Ret () s' \<and> tracked L' s' \<and> files s' = fold effect rs (files s) \<and>
    printed s' = printed s @ map Free_done (freed rs)"
  using assms
proof (induction rs arbitrary: s L)
  case (Cons r rs)
  show ?case
  proof (cases r)
    case (Malloc_call al)
    then have "fresh al s" "0 < room s" using Cons.prems by simp_all
    from malloc_tracked [OF Cons.prems(1) this] obtain s1 L1 where s1: "malloc al s = Ret (at al) s1" "tracked L1 s1"
      "files s1 = logged al (files s)" "room s1 = room s - 1" "printed s1 = printed s" "enable_free_hook s1 = 1"
      using Cons.prems(2) by metis
    have "legal_program rs s1" "sum_list (map opens rs) \<le> room s1" using Cons.prems(3,4) s1(1,4) Malloc_call by simp_all
    from Cons.IH [OF s1(2,6) this] s1 Malloc_call show ?thesis by auto
  next
    case (Free_call p als1 als2)
    then have p: "files s p \<noteq> None" "length als2 \<le> room s"
      "legal_allocs als2 (s\<lparr>enable_free_hook := 0, files := (files s)(p := None)\<rparr>)" using Cons.prems by simp_all
    from free_tracked [OF Cons.prems(1,2) this] obtain s1 L1 where s1: "free als1 als2 p s = Ret () s1" "tracked L1 s1"
      "files s1 = fold logged als2 ((files s)(p := None))" "room s1 = room s - length als2"
      "printed s1 = printed s @ [Free_done p]" "enable_free_hook s1 = 1" by blast
    have "legal_program rs s1" "sum_list (map opens rs) \<le> room s1" using Cons.prems(3,4) s1(1,4) Free_call by simp_all
    from Cons.IH [OF s1(2,6) this] s1 Free_call show ?thesis by auto
  qed
qed auto

section \<open>The files that stay open\<close>

lemma library_room:
  assumes "enable_malloc_hook s = 0"
  shows "\<exists>s'. library as s = Ret () s' \<and> enable_malloc_hook s' = 0 \<and> room s' = room s"
  using assms
proof (induction "as" arbitrary: s)
  case (Cons x "as")
  obtain a n where x: "x = (a, n)" by (cases x)
  obtain s1 where s1: "libc_malloc a n s = Ret a s1" "enable_malloc_hook s1 = 0" "room s1 = room s"
    using Cons.prems by (simp add: libc_malloc_def)
  from Cons.IH [OF s1(2)] s1 x Cons.prems show ?case by (simp add: malloc_with_def)
qed simp

lemma malloc_room:
  assumes "enable_malloc_hook s \<noteq> 0"
  shows "(\<exists>s'. malloc al s = Undef s') \<or> 0 < room s \<and> (\<exists>p s'. malloc al s = Ret p s' \<and> enable_malloc_hook s' \<noteq> 0 \<and> room s' = room s - 1)"
proof -
  obtain s1 where s1: "libc_malloc (at al) (bytes al) (s\<lparr>enable_malloc_hook := 0\<rparr>) = Ret (at al) s1" "enable_malloc_hook s1 = 0"
    "room s1 = room s" by (simp add: libc_malloc_def)
  from library_room [OF s1(2), of "inner al"] s1 assms show ?thesis
    by (cases "room s = 0") (auto simp: malloc_def malloc_with_def)
qed

lemma mallocs_room:
  assumes "enable_malloc_hook s \<noteq> 0"
  shows "(\<exists>s'. mallocs als s = Undef s') \<or> (\<exists>s'. mallocs als s = Ret () s' \<and> enable_malloc_hook s' \<noteq> 0 \<and> room s' \<le> room s)"
  using assms
proof (induction als arbitrary: s)
  case (Cons al als)
  from malloc_room [OF Cons.prems, of al] show ?case
  proof (elim disjE exE conjE)
    fix p s' assume s': "malloc al s = Ret p s'" "enable_malloc_hook s' \<noteq> 0" "room s' = room s - 1"
    from Cons.IH [OF s'(2)] s'(1,3) show ?thesis by fastforce
  qed simp
qed simp

lemma printf_room:
  assumes "enable_malloc_hook s \<noteq> 0"
  shows "(\<exists>s'. printf als m s = Undef s') \<or> (\<exists>s'. printf als m s = Ret () s' \<and> enable_malloc_hook s' \<noteq> 0 \<and> room s' \<le> room s)"
  using mallocs_room [OF assms, of als] by (auto simp: printf_def)

lemma libc_free_room:
  "(\<exists>s'. libc_free p s = Undef s') \<or>
    (\<exists>s'. libc_free p s = Ret () s' \<and> enable_malloc_hook s' = enable_malloc_hook s \<and> room s' = room s)"
  by (simp add: libc_free_def)

lemma free_room:
  assumes "enable_malloc_hook s \<noteq> 0"
  shows "(\<exists>s'. free als1 als2 p s = Undef s') \<or>
    (\<exists>s'. free als1 als2 p s = Ret () s' \<and> enable_malloc_hook s' \<noteq> 0 \<and> room s' \<le> room s)"
proof (cases "enable_free_hook s = 0")
  case True
  then show ?thesis using libc_free_room [of p s] assms by (auto simp: free_def)
next
  case False
  let ?s = "s\<lparr>enable_free_hook := 0\<rparr>"
  let ?r = "if files ?s p = None then printf als1 (Double_free p) ?s else Ret () (?s\<lparr>files := (files ?s)(p := None)\<rparr>)"
  have eq: "free als1 als2 p s = res_bind ?r (\<lambda>u s. res_bind (printf als2 (Free_done p) s) (\<lambda>u s.
      res_bind (libc_free p s) (\<lambda>u s. Ret () (s\<lparr>enable_free_hook := 1\<rparr>))))" using False by (simp add: free_def Let_def)
  have "(\<exists>s'. ?r = Undef s') \<or> (\<exists>s'. ?r = Ret () s' \<and> enable_malloc_hook s' \<noteq> 0 \<and> room s' \<le> room s)"
    using printf_room [of ?s als1 "Double_free p"] assms by auto
  then show ?thesis
  proof (elim disjE exE conjE)
    fix s1 assume s1: "?r = Ret () s1" "enable_malloc_hook s1 \<noteq> 0" "room s1 \<le> room s"
    from printf_room [OF s1(2), of als2 "Free_done p"] show ?thesis
    proof (elim disjE exE conjE)
      fix s2 assume s2: "printf als2 (Free_done p) s1 = Ret () s2" "enable_malloc_hook s2 \<noteq> 0" "room s2 \<le> room s1"
      from libc_free_room [of p s2] show ?thesis
      proof (elim disjE exE conjE)
        fix s3 assume "libc_free p s2 = Ret () s3" "enable_malloc_hook s3 = enable_malloc_hook s2" "room s3 = room s2"
        then show ?thesis unfolding eq s1(1) using s2 s1(3) by simp
      qed (use s2 in \<open>unfold eq s1(1), simp\<close>)
    qed (unfold eq s1(1), simp)
  qed (unfold eq, simp)
qed

fun is_malloc :: "request \<Rightarrow> bool" where
  "is_malloc (Malloc_call al) = True"
| "is_malloc (Free_call p als1 als2) = False"

section \<open>The properties\<close>

definition leak_start :: "nat \<Rightarrow> mproc" where
  "leak_start n = \<lparr>enable_malloc_hook = 1, enable_free_hook = 1, heap = Map.empty, files = Map.empty, room = n, printed = []\<rparr>"

lemma leak_start_tracked: "tracked {} (leak_start n)"
  by (simp add: tracked_def leak_start_def)

text \<open>
  C32. At every point of a program that frees only blocks it got and has not freed, and has not used up the files it may
  have open, the \<open>.mem\<close> files are those of the allocations that are not freed: each tells the address and the size of a
  block in use, and no free has been reported as a double one. What printing allocates is reported with them.
\<close>
theorem memleak_files_are_live:
  assumes "legal_program rs (leak_start n)" "sum_list (map opens rs) \<le> n"
  shows "\<exists>s. program rs (leak_start n) = Ret () s \<and> files s = fold effect rs Map.empty \<and>
    printed s = map Free_done (freed rs) \<and> (\<forall>p l. files s p = Some l \<longrightarrow> line_addr l = p \<and> heap s p = Some (line_size l))"
proof -
  have "enable_free_hook (leak_start n) = 1" "sum_list (map opens rs) \<le> room (leak_start n)"
    using assms(2) by (simp_all add: leak_start_def)
  from program_tracked [OF leak_start_tracked this(1) assms(1) this(2)] obtain s L where
    "program rs (leak_start n) = Ret () s" "tracked L s" "files s = fold effect rs (files (leak_start n))"
    "printed s = printed (leak_start n) @ map Free_done (freed rs)" by blast
  then show ?thesis by (intro exI [of _ s]) (simp add: tracked_def leak_start_def)
qed

text \<open>
  C33. The streams are never closed: a program that allocates more often than files can be open ends in undefined behaviour,
  even when it frees each block at once.
\<close>
theorem memleak_runs_out_of_files:
  assumes "enable_malloc_hook s \<noteq> 0" "room s < length (filter is_malloc rs)"
  shows "\<exists>s'. program rs s = Undef s'"
  using assms
proof (induction rs arbitrary: s)
  case (Cons r rs)
  show ?case
  proof (cases r)
    case (Malloc_call al)
    from malloc_room [OF Cons.prems(1), of al] show ?thesis
    proof (elim disjE exE conjE)
      fix p s1 assume s1: "0 < room s" "malloc al s = Ret p s1" "enable_malloc_hook s1 \<noteq> 0" "room s1 = room s - 1"
      then have "room s1 < length (filter is_malloc rs)" using Cons.prems(2) Malloc_call by auto
      from Cons.IH [OF s1(3) this] s1(2) Malloc_call show ?thesis by simp
    qed (simp add: Malloc_call)
  next
    case (Free_call p als1 als2)
    from free_room [OF Cons.prems(1), of als1 als2 p] show ?thesis
    proof (elim disjE exE conjE)
      fix s1 assume s1: "free als1 als2 p s = Ret () s1" "enable_malloc_hook s1 \<noteq> 0" "room s1 \<le> room s"
      then have "room s1 < length (filter is_malloc rs)" using Cons.prems(2) Free_call by simp
      from Cons.IH [OF s1(2) this] s1(1) Free_call show ?thesis by simp
    qed (simp add: Free_call)
  qed
qed simp

text \<open>A second free of a block is reported before it has its effect, but so is the free of the null pointer and of a block
  of the library, which are legal.\<close>

lemma double_free_reported:
  assumes "tracked L s" "enable_free_hook s = 1" "files s p = None"
  shows "free [] [] p s =
    (if p = NULL \<or> p \<in> L
     then Ret () (s\<lparr>printed := printed s @ [Double_free p, Free_done p], heap := (heap s)(p := None)\<rparr>)
     else Undef (s\<lparr>enable_free_hook := 0, printed := printed s @ [Double_free p, Free_done p]\<rparr>))"
proof -
  have "heap s p = None \<longleftrightarrow> p \<notin> L" using assms(1,3) by (auto simp: tracked_def)
  moreover have "heap s NULL = None" using assms(1) by (auto simp: tracked_def)
  ultimately show ?thesis using assms(2,3) by (auto simp: free_def printf_def libc_free_def Let_def fun_upd_idem)
qed

section \<open>Instances\<close>

text \<open>\<open>main\<close> leaves one file, of the second block.\<close>

theorem memleak_files_are_live_witness:
  "\<exists>s. program [Malloc_call (Alloc 16 10 1 [(100, 552)]), Malloc_call (Alloc 48 20 2 [(200, 552)]), Free_call 16 [] []]
      (leak_start 1020) = Ret () s \<and> files s = [48 \<mapsto> \<lparr>line_caller = 2, line_addr = 48, line_size = 20\<rparr>] \<and> printed s = [Free_done 16]"
proof -
  let ?rs = "[Malloc_call (Alloc 16 10 1 [(100, 552)]), Malloc_call (Alloc 48 20 2 [(200, 552)]), Free_call 16 [] []]"
  have "legal_program ?rs (leak_start 1020)"
    by (simp add: leak_start_def fresh_def malloc_def malloc_with_def libc_malloc_def free_def printf_def libc_free_def Let_def)
  from memleak_files_are_live [OF this] show ?thesis by (auto simp: logged_def)
qed

theorem memleak_runs_out_of_files_witness:
  "\<exists>s'. program [Malloc_call (Alloc 16 10 1 []), Free_call 16 [] [], Malloc_call (Alloc 16 10 1 [])] (leak_start 1) = Undef s'"
  using memleak_runs_out_of_files [of "leak_start 1"
      "[Malloc_call (Alloc 16 10 1 []), Free_call 16 [] [], Malloc_call (Alloc 16 10 1 [])]"]
  by (simp add: leak_start_def)

lemma res_bind_Ret [simp]: "res_bind r Ret = r"
  by (cases r) simp_all

lemma leak_main_program:
  assumes "fresh al1 s" "enable_malloc_hook s = 1"
  shows "leak_main al1 al2 als1 als2 s = program [Malloc_call al1, Malloc_call al2, Free_call (at al1) als1 als2] s"
proof -
  have "program [] = Ret ()" by (rule ext) simp
  then have "program [Free_call (at al1) als1 als2] = free als1 als2 (at al1)" by (intro ext) simp
  then show ?thesis using assms by (simp add: leak_main_def malloc_eq)
qed

end
