(* ===== verification/Skiplist_Program.thy ===== *)
theory Skiplist_Program
  imports Skiplist_Correct
begin

text \<open>
  The sample program \<open>sample/skiplist_test.c\<close>: nineteen timers are inserted, the levels are printed, the list is
  destroyed. \<open>mal i\<close> and \<open>rnd i\<close> are the address and the random numbers that the i-th insertion gets.
\<close>

section \<open>The program\<close>

fun insert_range ::
  "(nat \<Rightarrow> ptr) \<Rightarrow> (nat \<Rightarrow> u32 list) \<Rightarrow> ptr \<Rightarrow> nat list \<Rightarrow> skplist \<Rightarrow> skplist option"
where
  "insert_range mal rnd f [] s = Some s"
| "insert_range mal rnd f (i # is) s = do {
     (ret, s) \<leftarrow> skplist_insert (mal i) (rnd i) (of_nat i) f s;
     insert_range mal rnd f is s
   }"

text \<open>The result is the printed lines and what is left in memory.\<close>

definition skiplist_test ::
  "ptr \<Rightarrow> (nat \<Rightarrow> ptr) \<Rightarrow> (nat \<Rightarrow> u32 list) \<Rightarrow> ptr \<Rightarrow> ptr \<Rightarrow> (u64 list list \<times> skplist) option"
where
  "skiplist_test h mal rnd f default_func = do {
     let list = skplist_create h default_func;
     list \<leftarrow> insert_range mal rnd f [1..<20] list;
     printed \<leftarrow> skplist_print list;
     (ret, list) \<leftarrow> skplist_destroy list;
     Some (printed, list)
   }"

section \<open>What it does\<close>

lemma insert_range_ok:
  assumes "skp_inv s L" "\<forall>i \<in> set is. mal i \<noteq> NULL \<and> mem s (mal i) = None" "inj_on mal (set is)" "distinct is"
  shows "\<exists>s' L'. insert_range mal rnd f is s = Some s' \<and> skp_inv s' L' \<and> head s' = head s \<and>
    dom (mem s') = dom (mem s) \<union> mal ` set is \<and> set (L' 0) = set (L 0) \<union> mal ` set is \<and>
    mset (map (key_of s') (L' 0)) = mset (map (key_of s) (L 0)) + mset (map of_nat is)"
  using assms
proof (induction "is" arbitrary: s L)
  case Nil
  then show ?case by (intro exI [of _ s] exI [of _ L]) simp
next
  case (Cons i "is")
  let ?p = "mal i"
  have p: "?p \<noteq> NULL" "mem s ?p = None" using Cons.prems(2) by simp_all
  obtain s1 L1 where s1: "skplist_insert ?p (rnd i) (of_nat i) f s = Some (0, s1)" "skp_inv s1 L1"
    "L1 = (\<lambda>j. if j < random_leve (rnd i) then place (key_of s1) (of_nat i) ?p (L j) else L j)"
    "head s1 = head s" "dom (mem s1) = insert ?p (dom (mem s))" "key_of s1 = (key_of s)(?p := of_nat i)"
    using skplist_insert_spec [OF Cons.prems(1) p, of "rnd i" "of_nat i" f] by blast
  have L1: "L1 0 = place (key_of s1) (of_nat i) ?p (L 0)" using s1(3) random_leve_bounds [of "rnd i"] by simp
  have "lev_ok s (head s) L 0" using Cons.prems(1) by (simp add: skp_inv_def)
  then have "?p \<notin> set (L 0)" using chain_ts [of s 0 "head s" "head s # L 0" ?p] p(2) by (auto simp: lev_ok_def)
  then have "map (key_of s1) (L 0) = map (key_of s) (L 0)" by (auto simp: s1(6))
  moreover have "key_of s1 ?p = of_nat i" by (simp add: s1(6))
  ultimately have keys: "mset (map (key_of s1) (L1 0)) = add_mset (of_nat i) (mset (map (key_of s) (L 0)))"
    by (metis L1 mset_map mset_place image_mset_add_mset)
  have "\<forall>j \<in> set is. mal j \<noteq> NULL \<and> mem s1 (mal j) = None"
  proof
    fix j assume j: "j \<in> set is"
    then have "mal j \<noteq> mal i" using Cons.prems(3,4) by (auto simp: inj_on_def)
    then have "mal j \<notin> dom (mem s1)" using Cons.prems(2) j s1(5) by auto
    then show "mal j \<noteq> NULL \<and> mem s1 (mal j) = None" using Cons.prems(2) j by auto
  qed
  then obtain s' L' where s': "insert_range mal rnd f is s1 = Some s'" "skp_inv s' L'" "head s' = head s1"
    "dom (mem s') = dom (mem s1) \<union> mal ` set is" "set (L' 0) = set (L1 0) \<union> mal ` set is"
    "mset (map (key_of s') (L' 0)) = mset (map (key_of s1) (L1 0)) + mset (map of_nat is)"
    using Cons.IH [OF s1(2)] Cons.prems(3,4) by auto
  have "insert_range mal rnd f (i # is) s = Some s'" using s1(1) s'(1) by simp
  moreover have "dom (mem s') = dom (mem s) \<union> mal ` set (i # is)" "set (L' 0) = set (L 0) \<union> mal ` set (i # is)"
    using s1(5) s'(4,5) L1 by auto
  moreover have "mset (map (key_of s') (L' 0)) = mset (map (key_of s) (L 0)) + mset (map of_nat (i # is))"
    using s'(6) keys by simp
  ultimately show ?case using s'(2,3) s1(4) by (intro exI [of _ s'] exI [of _ L']) simp
qed

text \<open>The printed lines are sorted, and each holds a part of the next.\<close>

lemma printed_levels:
  assumes "skp_inv s L" "0 < height s" "printed = map (\<lambda>i. map (key_of s) (L i)) (rev [0..<height s])"
  shows "\<forall>l \<in> set printed. sorted l" "sorted_wrt (\<lambda>a b. set a \<subseteq> set b) printed" "last printed = map (key_of s) (L 0)"
proof -
  have lev: "lev_ok s (head s) L i" if "i < height s" for i using skp_levels(1) [OF assms(1)] that by simp
  then show "\<forall>l \<in> set printed. sorted l" by (auto simp: assms(3) lev_ok_def sorted_map)
  have sub: "set (L j) \<subseteq> set (L i)" if "i \<le> j" "j < height s" for i j
    using that
  proof (induction rule: dec_induct)
    case (step k)
    then show ?case using skp_levels(2) [OF assms(1)] by auto
  qed simp
  show "sorted_wrt (\<lambda>a b. set a \<subseteq> set b) printed"
    unfolding assms(3) sorted_wrt_map sorted_wrt_rev
  proof (rule sorted_wrt_mono_rel [OF _ sorted_wrt_upt])
    fix i j assume "i \<in> set [0..<height s]" "j \<in> set [0..<height s]" "i < j"
    then show "set (map (key_of s) (L j)) \<subseteq> set (map (key_of s) (L i))" using sub [of i j] by auto
  qed
  show "last printed = map (key_of s) (L 0)" using assms(2) by (simp add: assms(3) last_map last_rev)
qed

text \<open>
  Whatever random numbers it gets, the sample program ends. The lowest line it prints lists the nineteen timestamps in
  increasing order, every line is sorted, and every line is a part of the one below; after the list is destroyed
  all its nodes are freed, except the head node, which leaks.
\<close>
theorem skiplist_test_runs:
  assumes "h \<noteq> NULL" "\<forall>i. mal i \<noteq> NULL \<and> mal i \<noteq> h" "inj mal"
  shows "\<exists>printed s. skiplist_test h mal rnd f default_func = Some (printed, s) \<and> last printed = map of_nat [1..<20] \<and>
    (\<forall>l \<in> set printed. sorted l) \<and> sorted_wrt (\<lambda>a b. set a \<subseteq> set b) printed \<and> freed s \<and> dom (mem s) = {h}"
proof -
  let ?s = "skplist_create h default_func"
  have inv: "skp_inv ?s (\<lambda>i. [])" by (rule skplist_create_inv [OF assms(1)])
  have "\<forall>i \<in> set [1..<20]. mal i \<noteq> NULL \<and> mem ?s (mal i) = None" using assms(2) by (simp add: skplist_create_def)
  from insert_range_ok [OF inv this inj_on_subset [OF assms(3) subset_UNIV] distinct_upt, of rnd f]
  obtain s L where s: "insert_range mal rnd f [1..<20] ?s = Some s" "skp_inv s L"
    "dom (mem s) = dom (mem ?s) \<union> mal ` set [1..<20]" "set (L 0) = mal ` set [1..<20]"
    "mset (map (key_of s) (L 0)) = mset (map of_nat [1..<20])" by auto
  have ne: "L 0 \<noteq> []" using s(4) by auto
  then have h: "0 < height s" using s(2) by (auto simp: skp_inv_def)
  define printed where "printed = map (\<lambda>i. map (key_of s) (L i)) (rev [0..<height s])"
  let ?s' = "s\<lparr>mem := mem s |` (- set (L 0)), freed := True\<rparr>"
  have "skiplist_test h mal rnd f default_func = Some (printed, ?s')"
    using s(1) skplist_print_spec [OF s(2)] skplist_destroy_spec [OF s(2) ne]
    by (simp add: skiplist_test_def Let_def printed_def)
  moreover have p: "\<forall>l \<in> set printed. sorted l" "sorted_wrt (\<lambda>a b. set a \<subseteq> set b) printed" "last printed = map (key_of s) (L 0)"
    using printed_levels [OF s(2) h printed_def] by simp_all
  moreover have "last printed = map of_nat [1..<20]"
  proof -
    have "sorted (last printed)" using p(1,3) h by (simp add: printed_def)
    moreover have "sorted (map of_nat [1..<20] :: u64 list)" by (simp add: upt_rec)
    moreover have "mset (last printed) = mset (map of_nat [1..<20])" using s(5) p(3) by simp
    ultimately show ?thesis by (metis properties_for_sort)
  qed
  moreover have "dom (mem ?s') = {h}"
    using s(3,4) assms(2) by (auto simp: skplist_create_def)
  ultimately show ?thesis by (intro exI [of _ printed] exI [of _ ?s']) simp
qed

theorem skiplist_test_runs_witness:
  "\<exists>printed s. skiplist_test 1 (\<lambda>i. i + 2) (\<lambda>i. [of_nat i * 4000]) 0 0 = Some (printed, s) \<and> last printed = map of_nat [1..<20] \<and>
    dom (mem s) = {1}"
  using skiplist_test_runs [of 1 "\<lambda>i. i + 2" "\<lambda>i. [of_nat i * 4000]" 0 0] by (auto simp: inj_def)

end
