(* ===== verification/Queue_Program.thy ===== *)
theory Queue_Program
  imports Queue_Correct
begin

text \<open>
  The program that tries out \<open>util/queue.c\<close>. What it prints is its result.
\<close>

fun pop_times :: "nat \<Rightarrow> queue \<Rightarrow> (ptr list \<times> queue) option" where
  "pop_times 0 q = Some ([], q)"
| "pop_times (Suc n) q = do { (str, q) \<leftarrow> queue_pop data q; (out, q) \<leftarrow> pop_times n q; Some (str # out, q) }"

text \<open>The pointers printed and the nodes left in memory; \<open>p1\<close> and \<open>p2\<close> are the nodes, a queue that was not made is
  used all the same.\<close>

definition queue_main :: "ptr \<Rightarrow> ptr \<Rightarrow> ptr \<Rightarrow> ptr \<Rightarrow> ptr \<Rightarrow> ptr \<Rightarrow> (ptr list \<times> qnode heap) option" where
  "queue_main h r p1 p2 str1 str2 = do {
     (ret, q) \<leftarrow> queue_create h r;
     q \<leftarrow> q;
     (ret, q) \<leftarrow> queue_push p1 str1 q;
     (ret, q) \<leftarrow> queue_push p2 str2 q;
     (out, q) \<leftarrow> pop_times 3 q;
     left \<leftarrow> queue_destroy data q;
     Some (out, left)
   }"

text \<open>Two strings are printed in order, and the third time a null pointer; the head node is never freed.\<close>

lemma queue_main_runs:
  assumes "h \<noteq> NULL" "r \<noteq> NULL" "p1 \<noteq> NULL" "p2 \<noteq> NULL" "distinct [h, p1, p2]"
  shows "\<exists>left. queue_main h r p1 p2 str1 str2 = Some ([str1, str2, NULL], left) \<and> dom left = {h}"
  using assms
  by (simp add: queue_main_def queue_create_def queue_push_def queue_pop_def queue_is_empty_def queue_destroy_def
      set_prev_def set_nxt_def get_prev_def get_nxt_def Let_def numeral_3_eq_3 destroy_loop.simps)

end
