(* ===== verification/Dns_Program.thy ===== *)
theory Dns_Program
  imports Dns_Correct
begin

text \<open>
  The program of \<open>pool/asyn_dns_client.c\<close>: the names it looks up, the callback that prints, \<open>main\<close> while the thread of the
  client answers, and the memory of a response, from \<open>dns_parse_response\<close> to \<open>dns_async_client_free_domains\<close>.
\<close>

section \<open>The callback\<close>

definition text_bytes :: "string \<Rightarrow> u8 list" where
  "text_bytes s = map of_char s"

text \<open>The lines printed; a read behind the list is \<open>None\<close>.\<close>

fun print_items :: "dns_item list \<Rightarrow> nat \<Rightarrow> nat \<Rightarrow> u8 list list option" where
  "print_items list i 0 = Some []"
| "print_items list i (Suc k) = do {
     item \<leftarrow> (if i < length list then Some (list ! i) else None);
     out \<leftarrow> print_items list (i + 1) k;
     Some ((text_bytes ''name:'' @ domain item @ text_bytes '', ip:'' @ ip item) # out)
   }"

definition dns_async_client_result_callback :: "dns_item list \<Rightarrow> int \<Rightarrow> u8 list list option" where
  "dns_async_client_result_callback list n = print_items list 0 (nat n)"

section \<open>The program\<close>

definition domain_table :: "string list" where
  "domain_table =
    [''www.ntytcp.com'', ''bojing.wang'', ''www.baidu.com'', ''tieba.baidu.com'', ''news.baidu.com'',
     ''zhidao.baidu.com'', ''music.baidu.com'', ''image.baidu.com'', ''v.baidu.com'', ''map.baidu.com'',
     ''baijiahao.baidu.com'', ''xueshu.baidu.com'', ''cloud.baidu.com'', ''www.163.com'', ''open.163.com'',
     ''auto.163.com'', ''gov.163.com'', ''money.163.com'', ''sports.163.com'', ''tech.163.com'',
     ''edu.163.com'', ''www.taobao.com'', ''q.taobao.com'', ''sf.taobao.com'', ''yun.taobao.com'',
     ''baoxian.taobao.com'', ''www.tmall.com'', ''suning.tmall.com'', ''www.tencent.com'', ''www.qq.com'',
     ''www.aliyun.com'', ''www.ctrip.com'', ''hotels.ctrip.com'', ''hotels.ctrip.com'', ''vacations.ctrip.com'',
     ''flights.ctrip.com'', ''trains.ctrip.com'', ''bus.ctrip.com'', ''car.ctrip.com'', ''piao.ctrip.com'',
     ''tuan.ctrip.com'', ''you.ctrip.com'', ''g.ctrip.com'', ''lipin.ctrip.com'', ''ct.ctrip.com'']"

text \<open>What the calls of one turn of the loop give, and the batches of datagrams that the thread handles before the next
  turn; the return value of the commit is not looked at.\<close>

record turn =
  sockfd :: int
  eparg :: bool
  ctl_ret :: int
  random :: u16
  fresh :: "u8 list"
  batches :: "(int \<times> u8 list) list list"

fun dns_main_loop :: "(turn \<times> string) list \<Rightarrow> async_client \<Rightarrow> async_client option" where
  "dns_main_loop [] c = Some c"
| "dns_main_loop ((t, name) # xs) c = do {
     (ret, c) \<leftarrow> dns_async_client_commit (sockfd t) (eparg t) (ctl_ret t) (random t) (fresh t) (text_bytes name) 0 c;
     c \<leftarrow> dns_async_client_proc (map Ready (batches t)) c;
     dns_main_loop xs c
   }"

text \<open>The lines that the calls of the callback print.\<close>

fun print_calls :: "(nat \<times> dns_item list \<times> int) list \<Rightarrow> u8 list list option" where
  "print_calls [] = Some []"
| "print_calls ((f, list, n) # xs) = do {
     l \<leftarrow> dns_async_client_result_callback list n;
     ls \<leftarrow> print_calls xs;
     Some (l @ ls)
   }"

text \<open>\<open>main\<close>: what it returns, what it prints, and what the client has done. Without a context it returns -2.\<close>

definition dns_main ::
  "int \<Rightarrow> bool \<Rightarrow> int \<Rightarrow> turn list \<Rightarrow> async_client \<Rightarrow> (int \<times> u8 list list \<times> async_client) option"
where
  "dns_main epfd mem thread ts c = (case dns_async_client_init epfd mem thread of
       (None, fds) \<Rightarrow> Some (- 2, [], c\<lparr>closed := closed c @ fds\<rparr>)
     | (Some ctx, fds) \<Rightarrow> do {
         c \<leftarrow> dns_main_loop (zip ts domain_table) c;
         out \<leftarrow> print_calls (called c);
         Some (0, out, c)
       })"

section \<open>Interleavings\<close>

lemma print_items_all:
  "k + i = length list \<Longrightarrow> print_items list i k =
    Some (map (\<lambda>x. text_bytes ''name:'' @ domain x @ text_bytes '', ip:'' @ ip x) (drop i list))"
proof (induction list i k rule: print_items.induct)
  case (2 list i k)
  then have "i < length list" "k + (i + 1) = length list" by simp_all
  with "2.IH" show ?case by (simp add: Cons_nth_drop_Suc [symmetric])
qed simp

definition printed :: "lookup \<Rightarrow> u8 list list" where
  "printed j = map (\<lambda>x. text_bytes ''name:'' @ domain x @ text_bytes '', ip:'' @ ip x) (map (item_of (labels j)) (answers j))"

lemma print_calls_ok: "print_calls (map call js) = Some (concat (map printed js))"
  by (induction js)
    (simp_all add: call_def dns_async_client_result_callback_def print_items_all printed_def)

text \<open>The lookups whose answers have not come.\<close>

definition waiting :: "lookup set \<Rightarrow> async_client \<Rightarrow> bool" where
  "waiting W c \<longleftrightarrow> inj_on sock W \<and> (\<forall>j \<in> W. lookup_ok j \<and> watched c (sock j) = Some (cb j)) \<and> dom (watched c) = sock ` W"

lemma batch_handled:
  assumes "waiting W c" "distinct js" "set js \<subseteq> W"
  shows "\<exists>c'. handle_all (map arrival js) c = Some c' \<and> waiting (W - set js) c' \<and> called c' = called c @ map call js \<and>
    closed c' = closed c @ map sock js \<and> sent c' = sent c"
proof -
  have w: "inj_on sock W" "\<forall>j \<in> W. lookup_ok j \<and> watched c (sock j) = Some (cb j)" "dom (watched c) = sock ` W"
    using assms(1) by (simp_all add: waiting_def)
  have "distinct (map sock js)" using assms(2,3) w(1) by (simp add: distinct_map inj_on_subset)
  moreover have "\<forall>j \<in> set js. lookup_ok j \<and> watched c (sock j) = Some (cb j)" using assms(3) w(2) by blast
  ultimately have h: "handle_all (map arrival js) c = Some (c\<lparr>called := called c @ map call js,
      watched := watched c |` (- sock ` set js), closed := closed c @ map sock js\<rparr>)" (is "_ = Some ?c")
    by (intro handle_all_ok) simp_all
  have n: "sock j \<notin> sock ` set js" if "j \<in> W - set js" for j
    using that w(1) assms(3) by (auto simp: inj_on_def)
  have "waiting (W - set js) ?c"
    unfolding waiting_def
  proof (intro conjI)
    show "inj_on sock (W - set js)" using w(1) by (rule inj_on_diff)
    show "\<forall>j \<in> W - set js. lookup_ok j \<and> watched ?c (sock j) = Some (cb j)" using w(2) n by simp
    have "sock ` (W - set js) = sock ` W - sock ` set js" using inj_on_image_set_diff [OF w(1), of W "set js"] assms(3) by auto
    then show "dom (watched ?c) = sock ` (W - set js)" using w(3) by auto
  qed
  then show ?thesis using h by auto
qed

lemma batches_handled:
  assumes "waiting W c" "distinct (concat jss)" "set (concat jss) \<subseteq> W"
  shows "\<exists>c'. dns_async_client_proc (map Ready (map (map arrival) jss)) c = Some c' \<and> waiting (W - set (concat jss)) c' \<and>
    called c' = called c @ map call (concat jss) \<and> closed c' = closed c @ map sock (concat jss) \<and> sent c' = sent c"
  using assms
proof (induction jss arbitrary: W c)
  case (Cons js jss)
  have "distinct js" "set js \<subseteq> W" using Cons.prems(2,3) by simp_all
  from batch_handled [OF Cons.prems(1) this] obtain c1 where c1: "handle_all (map arrival js) c = Some c1" "waiting (W - set js) c1"
    "called c1 = called c @ map call js" "closed c1 = closed c @ map sock js" "sent c1 = sent c" by blast
  have "distinct (concat jss)" "set (concat jss) \<subseteq> W - set js" using Cons.prems(2,3) by auto
  from Cons.IH [OF c1(2) this] obtain c' where "dns_async_client_proc (map Ready (map (map arrival) jss)) c1 = Some c'"
    "waiting (W - set js - set (concat jss)) c'" "called c' = called c1 @ map call (concat jss)"
    "closed c' = closed c1 @ map sock (concat jss)" "sent c' = sent c1" by blast
  moreover have "W - set js - set (concat jss) = W - set (concat (js # jss))" by auto
  ultimately show ?case using c1 by (intro exI [of _ c']) simp
qed simp

text \<open>A turn for a lookup whose calls succeed.\<close>

definition turn_of :: "u16 \<Rightarrow> lookup \<Rightarrow> lookup list list \<Rightarrow> turn" where
  "turn_of r j jss = \<lparr>sockfd = sock j, eparg = True, ctl_ret = 0, random = r,
     fresh = replicate (length (dotted (labels j)) + 2) 0, batches = map (map arrival) jss\<rparr>"

text \<open>Each lookup has a socket that no waiting one has, and answers come once, for lookups that wait.\<close>

fun arrivals_legal :: "lookup set \<Rightarrow> (u16 \<times> lookup \<times> lookup list list) list \<Rightarrow> bool" where
  "arrivals_legal W [] = True"
| "arrivals_legal W ((r, j, jss) # xs) =
     (lookup_ok j \<and> cb j = 0 \<and> sock j \<notin> sock ` W \<and> distinct (concat jss) \<and> set (concat jss) \<subseteq> insert j W \<and>
      arrivals_legal (insert j W - set (concat jss)) xs)"

fun still_waiting :: "lookup set \<Rightarrow> (u16 \<times> lookup \<times> lookup list list) list \<Rightarrow> lookup set" where
  "still_waiting W [] = W"
| "still_waiting W ((r, j, jss) # xs) = still_waiting (insert j W - set (concat jss)) xs"

definition turns_of :: "(u16 \<times> lookup \<times> lookup list list) list \<Rightarrow> turn list" where
  "turns_of xs = map (\<lambda>(r, j, jss). turn_of r j jss) xs"

definition answered :: "(u16 \<times> lookup \<times> lookup list list) list \<Rightarrow> lookup list" where
  "answered xs = concat (map (\<lambda>(r, j, jss). concat jss) xs)"

lemma commit_turn:
  assumes "lookup_ok j" "cb j = 0" "text_bytes name = dotted (labels j)" "waiting W c" "sock j \<notin> sock ` W"
  shows "\<exists>c'. dns_async_client_commit (sock j) True 0 r (replicate (length (dotted (labels j)) + 2) 0) (text_bytes name) 0 c =
      Some (0, c') \<and> waiting (insert j W) c' \<and> sent c' = sent c @ [(sock j, query r (labels j))] \<and>
    called c' = called c \<and> closed c' = closed c"
proof -
  let ?c = "c\<lparr>sent := sent c @ [(sock j, query r (labels j))], watched := (watched c)(sock j \<mapsto> 0)\<rparr>"
  have "dns_request r (replicate (length (dotted (labels j)) + 2) 0) (dotted (labels j)) = Some (query r (labels j))"
    by (rule dns_request_eq) (use assms(1) in \<open>simp_all add: lookup_ok_def\<close>)
  then have "dns_async_client_commit (sock j) True 0 r (replicate (length (dotted (labels j)) + 2) 0) (text_bytes name) 0 c = Some (0, ?c)"
    using assms(1,3) by (simp add: dns_async_client_commit_def lookup_ok_def)
  moreover have "waiting (insert j W) ?c"
  proof -
    have "sock i \<noteq> sock j" if "i \<in> W" for i using that assms(5) by (metis image_eqI)
    then have "watched ?c (sock i) = watched c (sock i)" if "i \<in> W" for i using that by simp
    then show ?thesis using assms(1,2,4,5) by (auto simp: waiting_def)
  qed
  ultimately show ?thesis by auto
qed

lemma main_loop_runs:
  assumes "waiting W c" "arrivals_legal W xs"
    "list_all2 (\<lambda>(r, j, jss) name. text_bytes name = dotted (labels j)) xs names"
  shows "\<exists>c'. dns_main_loop (zip (turns_of xs) names) c = Some c' \<and>
    sent c' = sent c @ map (\<lambda>(r, j, jss). (sock j, query r (labels j))) xs \<and>
    called c' = called c @ map call (answered xs) \<and> closed c' = closed c @ map sock (answered xs) \<and>
    waiting (still_waiting W xs) c'"
  using assms
proof (induction xs arbitrary: W c names)
  case (Cons x xs)
  obtain r j jss where x: "x = (r, j, jss)" by (cases x)
  obtain name names' where n: "names = name # names'" "text_bytes name = dotted (labels j)"
    "list_all2 (\<lambda>(r, j, jss) name. text_bytes name = dotted (labels j)) xs names'"
    using Cons.prems(3) x by (auto simp: list_all2_Cons1)
  have l: "lookup_ok j" "cb j = 0" "sock j \<notin> sock ` W" "distinct (concat jss)" "set (concat jss) \<subseteq> insert j W"
    "arrivals_legal (insert j W - set (concat jss)) xs" using Cons.prems(2) x by simp_all
  from commit_turn [OF l(1,2) n(2) Cons.prems(1) l(3), of r] obtain c1 where c1:
    "dns_async_client_commit (sock j) True 0 r (replicate (length (dotted (labels j)) + 2) 0) (text_bytes name) 0 c = Some (0, c1)"
    "waiting (insert j W) c1" "sent c1 = sent c @ [(sock j, query r (labels j))]" "called c1 = called c" "closed c1 = closed c" by blast
  from batches_handled [OF c1(2) l(4,5)] obtain c2 where c2: "dns_async_client_proc (map Ready (map (map arrival) jss)) c1 = Some c2"
    "waiting (insert j W - set (concat jss)) c2" "called c2 = called c1 @ map call (concat jss)"
    "closed c2 = closed c1 @ map sock (concat jss)" "sent c2 = sent c1" by blast
  from Cons.IH [OF c2(2) l(6) n(3)] obtain c' where c': "dns_main_loop (zip (turns_of xs) names') c2 = Some c'"
    "sent c' = sent c2 @ map (\<lambda>(r, j, jss). (sock j, query r (labels j))) xs" "called c' = called c2 @ map call (answered xs)"
    "closed c' = closed c2 @ map sock (answered xs)" "waiting (still_waiting (insert j W - set (concat jss)) xs) c'" by blast
  have "dns_main_loop (zip (turns_of (x # xs)) names) c = Some c'"
    using c1(1) c2(1) c'(1) by (simp add: x n(1) turns_of_def turn_of_def)
  moreover have "answered (x # xs) = concat jss @ answered xs" by (simp add: x answered_def)
  ultimately show ?case using c1 c2 c' x by (intro exI [of _ c']) simp
qed (simp add: answered_def turns_of_def)

section \<open>The memory of a response\<close>

text \<open>A list of items in memory has for each item the addresses of its two strings.\<close>

record item_ptrs =
  domain_ptr :: ptr
  ip_ptr :: ptr

record dmem =
  lists :: "item_ptrs list heap"
  strings :: "u8 list heap"

text \<open>
  What \<open>dns_parse_response\<close> allocates for a response with room for \<open>n\<close> answers: the list, then for each item a copy of its two
  texts, at the addresses that \<open>calloc\<close> gives; a copy to the null pointer is an error.
\<close>

fun fill_items :: "ptr \<Rightarrow> nat \<Rightarrow> (ptr \<times> ptr) list \<Rightarrow> dns_item list \<Rightarrow> dmem \<Rightarrow> dmem option" where
  "fill_items l cnt ps [] m = Some m"
| "fill_items l cnt [] (x # xs) m = None"
| "fill_items l cnt ((pd, pi) # ps) (x # xs) m = do {
     arr \<leftarrow> lists m l;
     (if cnt < length arr \<and> pd \<noteq> NULL \<and> pi \<noteq> NULL then Some () else None);
     let m = m\<lparr>lists := (lists m)(l \<mapsto> arr[cnt := \<lparr>domain_ptr = pd, ip_ptr = pi\<rparr>]),
       strings := (strings m)(pd \<mapsto> domain x @ [0], pi \<mapsto> ip x @ [0])\<rparr>;
     fill_items l (cnt + 1) ps xs m
   }"

definition store_items :: "ptr \<Rightarrow> (ptr \<times> ptr) list \<Rightarrow> nat \<Rightarrow> dns_item list \<Rightarrow> dmem \<Rightarrow> (ptr \<times> int \<times> dmem) option" where
  "store_items l ps n xs m =
     (if l = NULL then Some (NULL, - 1, m)
      else do {
        m \<leftarrow> fill_items l 0 ps xs (m\<lparr>lists := (lists m)(l \<mapsto> replicate n \<lparr>domain_ptr = NULL, ip_ptr = NULL\<rparr>)\<rparr>);
        Some (l, int (length xs), m)
      })"

definition free_string :: "ptr \<Rightarrow> dmem \<Rightarrow> dmem option" where
  "free_string p m =
     (if p = NULL then Some m
      else do { s \<leftarrow> strings m p; Some (m\<lparr>strings := (strings m)(p := None)\<rparr>) })"

fun free_items :: "ptr \<Rightarrow> nat \<Rightarrow> nat \<Rightarrow> dmem \<Rightarrow> dmem option" where
  "free_items l i 0 m = Some m"
| "free_items l i (Suc k) m = do {
     arr \<leftarrow> lists m l;
     x \<leftarrow> (if i < length arr then Some (arr ! i) else None);
     m \<leftarrow> free_string (domain_ptr x) m;
     m \<leftarrow> free_string (ip_ptr x) m;
     free_items l (i + 1) k m
   }"

definition dns_async_client_free_domains :: "ptr \<Rightarrow> int \<Rightarrow> dmem \<Rightarrow> dmem option" where
  "dns_async_client_free_domains l n m = do {
     m \<leftarrow> free_items l 0 (nat n) m;
     if l = NULL then Some m
     else do { arr \<leftarrow> lists m l; Some (m\<lparr>lists := (lists m)(l := None)\<rparr>) }
   }"

definition addresses :: "(ptr \<times> ptr) list \<Rightarrow> ptr list" where
  "addresses ps = concat (map (\<lambda>(pd, pi). [pd, pi]) ps)"

definition item_at :: "ptr \<times> ptr \<Rightarrow> item_ptrs" where
  "item_at p = \<lparr>domain_ptr = fst p, ip_ptr = snd p\<rparr>"

text \<open>Freeing undoes filling: the items from \<open>cnt\<close> on are stored, and then freed.\<close>

lemma fill_items_ok:
  assumes "lists m l = Some (pre @ replicate k z)" "length ps = length xs" "length xs \<le> k" "NULL \<notin> set (addresses ps)"
  shows "\<exists>m'. fill_items l (length pre) ps xs m = Some m' \<and>
    lists m' = (lists m)(l \<mapsto> pre @ map item_at ps @ replicate (k - length xs) z) \<and>
    dom (strings m') = dom (strings m) \<union> set (addresses ps) \<and> (\<forall>p. p \<notin> set (addresses ps) \<longrightarrow> strings m' p = strings m p)"
  using assms
proof (induction ps arbitrary: pre k m xs)
  case (Cons q ps)
  obtain pd pi where q: "q = (pd, pi)" by (cases q)
  obtain x xs' where x: "xs = x # xs'" using Cons.prems(2) by (cases xs) simp_all
  obtain k' where k: "k = Suc k'" using Cons.prems(3) x by (cases k) simp_all
  let ?m = "m\<lparr>lists := (lists m)(l \<mapsto> (pre @ replicate k z)[length pre := item_at q]),
    strings := (strings m)(pd \<mapsto> domain x @ [0], pi \<mapsto> ip x @ [0])\<rparr>"
  have "lists ?m l = Some ((pre @ [item_at q]) @ replicate k' z)" using k by simp
  moreover have "length ps = length xs'" "length xs' \<le> k'" "NULL \<notin> set (addresses ps)"
    using Cons.prems(2-4) x k by (simp_all add: addresses_def)
  ultimately obtain m' where m': "fill_items l (length (pre @ [item_at q])) ps xs' ?m = Some m'"
    "lists m' = (lists ?m)(l \<mapsto> (pre @ [item_at q]) @ map item_at ps @ replicate (k' - length xs') z)"
    "dom (strings m') = dom (strings ?m) \<union> set (addresses ps)" "\<forall>p. p \<notin> set (addresses ps) \<longrightarrow> strings m' p = strings ?m p"
    using Cons.IH by blast
  have "pd \<noteq> NULL" "pi \<noteq> NULL" using Cons.prems(4) by (simp_all add: addresses_def q)
  then have "fill_items l (length pre) (q # ps) xs m = Some m'"
    using m'(1) Cons.prems(1) k by (simp add: q x item_at_def)
  moreover have "set (addresses (q # ps)) = {pd, pi} \<union> set (addresses ps)" by (simp add: addresses_def q)
  ultimately show ?case using m'(2-4) x k by (intro exI [of _ m']) auto
qed (simp add: addresses_def fun_upd_idem)

lemma free_items_ok:
  assumes "lists m l = Some (pre @ map item_at ps @ post)" "distinct (addresses ps)" "NULL \<notin> set (addresses ps)"
    "set (addresses ps) \<subseteq> dom (strings m)"
  shows "free_items l (length pre) (length ps) m = Some (m\<lparr>strings := strings m |` (- set (addresses ps))\<rparr>)"
  using assms
proof (induction ps arbitrary: pre m)
  case Nil
  then show ?case by (simp add: addresses_def)
next
  case (Cons q ps)
  obtain pd pi where q: "q = (pd, pi)" by (cases q)
  have a: "addresses (q # ps) = pd # pi # addresses ps" by (simp add: addresses_def q)
  have p: "pd \<noteq> NULL" "pi \<noteq> NULL" "pd \<noteq> pi" "pd \<notin> set (addresses ps)" "pi \<notin> set (addresses ps)"
    using Cons.prems(2,3) by (auto simp: a)
  obtain u v where uv: "strings m pd = Some u" "strings m pi = Some v" using Cons.prems(4) by (auto simp: a)
  let ?m = "m\<lparr>strings := (strings m)(pd := None, pi := None)\<rparr>"
  have s: "set (addresses ps) \<subseteq> dom (strings ?m)" using Cons.prems(4) p(4,5) by (auto simp: a)
  have "free_items l (length (pre @ [item_at q])) (length ps) ?m =
      Some (?m\<lparr>strings := strings ?m |` (- set (addresses ps))\<rparr>)"
    by (rule Cons.IH [OF _ _ _ s]) (use Cons.prems(1-3) in \<open>simp_all add: a\<close>)
  moreover have "strings ?m |` (- set (addresses ps)) = strings m |` (- set (addresses (q # ps)))"
    by (auto simp: a fun_eq_iff restrict_map_def)
  moreover have "free_string pd m = Some (m\<lparr>strings := (strings m)(pd := None)\<rparr>)"
    "free_string pi (m\<lparr>strings := (strings m)(pd := None)\<rparr>) = Some ?m"
    using p uv by (simp_all add: free_string_def)
  ultimately show ?case using Cons.prems(1) by (simp add: q item_at_def)
qed

section \<open>The properties\<close>

lemma waiting_new: "waiting {} new_client"
  by (simp add: waiting_def new_client_def)


text \<open>
  What a response allocates is freed once after the callback, and nothing else: \<open>dns_async_client_free_domains\<close> leaves the
  memory as it was before \<open>dns_parse_response\<close> stored its items.
\<close>
theorem dns_free_domains_restores:
  assumes "l \<noteq> NULL" "lists m l = None" "length ps = length xs" "length xs \<le> n" "NULL \<notin> set (addresses ps)"
    "distinct (addresses ps)" "set (addresses ps) \<inter> dom (strings m) = {}"
  shows "\<exists>m'. store_items l ps n xs m = Some (l, int (length xs), m') \<and> set (addresses ps) \<subseteq> dom (strings m') \<and>
    dns_async_client_free_domains l (int (length xs)) m' = Some m"
proof -
  let ?z = "\<lparr>domain_ptr = NULL, ip_ptr = NULL\<rparr>" let ?m0 = "m\<lparr>lists := (lists m)(l \<mapsto> replicate n ?z)\<rparr>"
  have "lists ?m0 l = Some ([] @ replicate n ?z)" by simp
  from fill_items_ok [OF this assms(3-5)] obtain m' where m': "fill_items l 0 ps xs ?m0 = Some m'"
    "lists m' = (lists ?m0)(l \<mapsto> [] @ map item_at ps @ replicate (n - length xs) ?z)"
    "dom (strings m') = dom (strings m) \<union> set (addresses ps)" "\<forall>p. p \<notin> set (addresses ps) \<longrightarrow> strings m' p = strings m p"
    by auto
  have "lists m' l = Some ([] @ map item_at ps @ replicate (n - length xs) ?z)" using m'(2) by simp
  from free_items_ok [OF this assms(6,5)] m'(3)
  have f: "free_items l 0 (length ps) m' = Some (m'\<lparr>strings := strings m' |` (- set (addresses ps))\<rparr>)" by simp
  have "strings m' |` (- set (addresses ps)) = strings m"
  proof
    fix p
    have "strings m p = None" if "p \<in> set (addresses ps)" using assms(7) that by (metis disjoint_iff domIff)
    then show "(strings m' |` (- set (addresses ps))) p = strings m p" using m'(4) by (simp add: restrict_map_def)
  qed
  moreover have "(lists m')(l := None) = lists m" using m'(2) assms(2) by auto
  ultimately have "dns_async_client_free_domains l (int (length xs)) m' = Some m"
    using f assms(1,3) m'(2) by (simp add: dns_async_client_free_domains_def)
  moreover have "store_items l ps n xs m = Some (l, int (length xs), m')" using m'(1) assms(1) by (simp add: store_items_def)
  ultimately show ?thesis using m'(3) by auto
qed

section \<open>Instances\<close>

text \<open>The labels of a name, and a run in which every second lookup is answered at once.\<close>

fun labels_of :: "u8 list \<Rightarrow> u8 list list" where
  "labels_of [] = [[]]"
| "labels_of (c # cs) = (if c = dot then [] # labels_of cs else (c # hd (labels_of cs)) # tl (labels_of cs))"

definition sample_lookup :: "nat \<Rightarrow> string \<Rightarrow> lookup" where
  "sample_lookup k name = \<lparr>sock = int k, cb = 0, labels = labels_of (text_bytes name), tag = replicate 8 0, answers = []\<rparr>"

definition sample_turns :: "(u16 \<times> lookup \<times> lookup list list) list" where
  "sample_turns = map (\<lambda>name. (7, sample_lookup 5 name, [[sample_lookup 5 name]])) domain_table"

lemma labels_of_ne [simp]: "labels_of s \<noteq> []"
  by (induction s) auto

lemma dotted_labels_of: "dotted (labels_of s) = s"
proof (induction s)
  case (Cons c cs)
  obtain l ls where l: "labels_of cs = l # ls" by (cases "labels_of cs") auto
  then show ?case using Cons by (cases ls) auto
qed simp

lemma labels_of_part: "l \<in> set (labels_of s) \<Longrightarrow> length l \<le> length s \<and> dot \<notin> set l"
proof (induction s arbitrary: l)
  case (Cons c cs)
  have "hd (labels_of cs) \<in> set (labels_of cs)" by simp
  then show ?case using Cons.prems Cons.IH Cons.IH [of "hd (labels_of cs)"] list.set_sel(2) [of "labels_of cs" l]
    by (auto split: if_splits intro: le_SucI)
qed simp

fun string_labels :: "string \<Rightarrow> string list" where
  "string_labels [] = [[]]"
| "string_labels (c # cs) =
     (case string_labels cs of [] \<Rightarrow> [[c]] | l # ls \<Rightarrow> if c = CHR ''.'' then [] # l # ls else (c # l) # ls)"

lemma of_char_inj: "(of_char c :: u8) = of_char d \<longleftrightarrow> c = d"
proof
  assume "(of_char c :: u8) = of_char d"
  then have "(of_nat (of_char c) :: u8) = of_nat (of_char d)" by (simp only: of_nat_of_char)
  then have "unat (of_nat (of_char c) :: u8) = unat (of_nat (of_char d) :: u8)" by simp
  then show "c = d" by (simp add: unsigned_of_nat take_bit_nat_eq_self)
qed simp

lemma of_char_dot: "(of_char c :: u8) = dot \<longleftrightarrow> c = CHR ''.''"
  using of_char_inj [of c "CHR ''.''"] by (simp add: dot_def)

lemma of_char_zero: "(0 :: u8) = of_char c \<longleftrightarrow> c = CHR 0x00"
  using of_char_inj [of "CHR 0x00" c] by (auto simp: of_char_def)

lemma labels_of_text: "labels_of (text_bytes s) = map (map of_char) (string_labels s)"
proof (induction s)
  case (Cons c cs)
  have "string_labels cs \<noteq> []" by (cases cs) (auto split: list.splits)
  then show ?case using Cons by (cases "string_labels cs") (simp_all add: text_bytes_def of_char_dot)
qed (simp add: text_bytes_def)

lemma sample_table: "\<forall>name \<in> set domain_table. lookup_ok (sample_lookup 5 name) \<and> dotted (labels_of (text_bytes name)) = text_bytes name"
proof
  fix name assume n: "name \<in> set domain_table"
  let ?b = "text_bytes name"
  have "list_all (\<lambda>name. length name \<le> 20) domain_table" by (simp add: domain_table_def)
  then have c1: "length ?b \<le> 60" using n by (auto simp: list_all_iff text_bytes_def)
  have "list_all (\<lambda>name. list_all (\<lambda>l. l \<noteq> [] \<and> CHR 0x00 \<notin> set l) (string_labels name)) domain_table" by code_simp
  then have "\<forall>l \<in> set (string_labels name). l \<noteq> [] \<and> CHR 0x00 \<notin> set l" using n by (simp add: list_all_iff)
  then have c: "length ?b \<le> 60" "\<forall>l \<in> set (labels_of ?b). l \<noteq> [] \<and> 0 \<notin> set l"
    using c1 by (auto simp: labels_of_text of_char_zero)
  have "label_ok l" if "l \<in> set (labels_of ?b)" for l
    using c that labels_of_part [OF that] by (auto simp: label_ok_def)
  then have k: "name_ok (labels_of ?b)" using labels_of_ne by (simp add: name_ok_def)
  have "length (encoded (labels_of ?b)) = length ?b + 2" using length_encoded [OF labels_of_ne] by (simp add: dotted_labels_of)
  then have "length (reply (replicate 8 0) (labels_of ?b) []) \<le> 1024" using c(1) by (simp add: reply_def)
  then show "lookup_ok (sample_lookup 5 name) \<and> dotted (labels_of ?b) = ?b"
    using k c(1) by (simp add: lookup_ok_def sample_lookup_def dotted_labels_of)
qed

lemma sample_legal:
  "\<forall>name \<in> set names. lookup_ok (sample_lookup 5 name) \<Longrightarrow>
    arrivals_legal {} (map (\<lambda>name. (7, sample_lookup 5 name, [[sample_lookup 5 name]])) names)"
  by (induction names) (simp_all add: sample_lookup_def)


theorem dns_free_domains_restores_witness:
  "\<exists>m'. store_items 8 [(16, 24)] 2 [\<lparr>domain = [97], ip = [49]\<rparr>] \<lparr>lists = Map.empty, strings = Map.empty\<rparr> = Some (8, 1, m') \<and>
    dns_async_client_free_domains 8 1 m' = Some \<lparr>lists = Map.empty, strings = Map.empty\<rparr>"
  using dns_free_domains_restores [of 8 "\<lparr>lists = Map.empty, strings = Map.empty\<rparr>" "[(16, 24)]" "[\<lparr>domain = [97], ip = [49]\<rparr>]" 2]
  by (auto simp: addresses_def)

end
