(* ===== verification/Reactor_Start.thy ===== *)
theory Reactor_Start
  imports Reactor_Multi_Correct Sockets
begin

text \<open>
  How \<open>src/reactor.c\<close> starts: the only instance, which \<open>get_reactor_instance\<close> makes at its first call, the
  initialisation with its socket, and \<open>main\<close>. A call may return, end the process, or be undefined. The static
  pointer to the instance is null, points to an instance, or to one that was freed. \<open>process\<close> also has
  the descriptors that were opened and not closed, and the address that is listened on.
\<close>

section \<open>The process\<close>

definition ERROR_MALLOC :: int where "ERROR_MALLOC = - 1"
definition PORT :: u16 where "PORT = 8888"

datatype inst = Absent | Freed | Made reactor

record process =
  inst :: inst
  server_fd :: int
  ERROR :: int
  open_fds :: "int list"
  listening :: "sockaddr_in option"

datatype 'a run = Ret 'a process | Exit int process | Crash

fun run_bind :: "'a run \<Rightarrow> ('a \<Rightarrow> process \<Rightarrow> 'b run) \<Rightarrow> 'b run" where
  "run_bind (Ret a p) f = f a p"
| "run_bind (Exit n p) f = Exit n p"
| "run_bind Crash f = Crash"

text \<open>What the calls to the system give: \<open>malloc\<close> of the instance, \<open>epoll_create\<close>, the two calls of \<open>malloc\<close> for the block,
  \<open>socket\<close>, \<open>bind\<close>, \<open>listen\<close>.\<close>

record start_io =
  malloc_ok :: bool
  epoll_ret :: int
  block_mem :: "bool \<times> bool"
  socket_ret :: int
  bind_ret :: int
  listen_ret :: int

definition process_start :: process where
  "process_start = \<lparr>inst = Absent, server_fd = 0, ERROR = 0, open_fds = [], listening = None\<rparr>"

definition zero_reactor :: reactor where
  "zero_reactor = \<lparr>blocks = [], watch = Map.empty, sent = [], closed = []\<rparr>"

section \<open>The start\<close>

text \<open>\<open>reactor_set_event\<close> on what the static pointer has, which is what its call of \<open>get_reactor_instance\<close> returns
  once the pointer is set.\<close>

definition instance_set_event :: "int \<Rightarrow> handle \<Rightarrow> event \<Rightarrow> process \<Rightarrow> int run" where
  "instance_set_event d h ev p = (case inst p of
       Made r \<Rightarrow> (case reactor_set_event d h ev r of Some (ret, r) \<Rightarrow> Ret ret (p\<lparr>inst := Made r\<rparr>) | None \<Rightarrow> Crash)
     | _ \<Rightarrow> Crash)"

definition server_init :: "start_io \<Rightarrow> process \<Rightarrow> unit run" where
  "server_init io p =
     (let p = p\<lparr>server_fd := socket_ret io\<rparr> in
      if server_fd p < 0 then Exit 1 p
      else let p = p\<lparr>open_fds := socket_ret io # open_fds p\<rparr>; server_addr = any_address PORT in
        if bind_ret io < 0 then Exit 1 p
        else if listen_ret io = - 1 then Exit 1 p
        else run_bind (instance_set_event (server_fd p) Handle_accept ACCEPT_EVENT (p\<lparr>listening := Some server_addr\<rparr>))
          (\<lambda>ret p. Ret () p))"

text \<open>The argument is the static pointer.\<close>

definition reactor_init :: "start_io \<Rightarrow> process \<Rightarrow> int run" where
  "reactor_init io p = (case inst p of
       Absent \<Rightarrow> Ret (- 1) p
     | Freed \<Rightarrow> Crash
     | Made r \<Rightarrow>
         if epoll_ret io < 0 then Ret (- 1) p
         else let p = p\<lparr>open_fds := epoll_ret io # open_fds p\<rparr> in
           (case itemblock_create (block_mem io) of
              None \<Rightarrow> Ret (- 1) (p\<lparr>ERROR := ERROR_MALLOC\<rparr>)
            | Some block \<Rightarrow>
                run_bind (server_init io (p\<lparr>inst := Made (r\<lparr>blocks := [block]\<rparr>)\<rparr>)) (\<lambda>u p. Ret 0 p)))"

text \<open>The result tells whether the pointer returned is not null.\<close>

definition get_reactor_instance :: "start_io \<Rightarrow> process \<Rightarrow> bool run" where
  "get_reactor_instance io p = (case inst p of
       Absent \<Rightarrow>
         if \<not> malloc_ok io then Ret False (p\<lparr>ERROR := ERROR_MALLOC\<rparr>)
         else run_bind (reactor_init io (p\<lparr>inst := Made zero_reactor\<rparr>))
           (\<lambda>ret p. if ret < 0 then Ret False (p\<lparr>inst := Freed\<rparr>) else Ret True p)
     | _ \<Rightarrow> Ret True p)"

text \<open>\<open>reactor_set_event\<close> when it is called first: the pointer is used before it is compared with null.\<close>

definition call_set_event :: "start_io \<Rightarrow> int \<Rightarrow> handle \<Rightarrow> event \<Rightarrow> process \<Rightarrow> int run" where
  "call_set_event io d h ev p =
     run_bind (get_reactor_instance io p) (\<lambda>found p. if found then instance_set_event d h ev p else Crash)"

text \<open>\<open>main\<close>, which is \<open>reactor_run\<close>, for a list of reported events.\<close>

definition reactor_main :: "start_io \<Rightarrow> ((int \<times> u32) \<times> io) list \<Rightarrow> process \<Rightarrow> unit run" where
  "reactor_main io es p = run_bind (get_reactor_instance io p) (\<lambda>found p.
     if \<not> found then Ret () p
     else (case inst p of
         Made r \<Rightarrow> (case reactor_run (server_fd p) es r of Some r \<Rightarrow> Ret () (p\<lparr>inst := Made r\<rparr>) | None \<Rightarrow> Crash)
       | _ \<Rightarrow> Crash))"

section \<open>Each way the start can go\<close>

definition sockets_ok :: "start_io \<Rightarrow> bool" where
  "sockets_ok io \<longleftrightarrow> 0 \<le> socket_ret io \<and> 0 \<le> bind_ret io \<and> listen_ret io \<noteq> - 1"

lemma itemblock_create_cases:
  "itemblock_create mem = (if fst mem \<and> snd mem then Some new_block else None)"
  by (simp add: itemblock_create_def new_block_def)

lemma init_fails:
  assumes "malloc_ok io" "epoll_ret io < 0 \<or> \<not> fst (block_mem io) \<or> \<not> snd (block_mem io)"
  shows "\<exists>p. get_reactor_instance io process_start = Ret False p \<and> inst p = Freed \<and>
    open_fds p = (if epoll_ret io < 0 then [] else [epoll_ret io])"
  using assms
  by (cases "epoll_ret io < 0"; cases "block_mem io")
    (auto simp: get_reactor_instance_def process_start_def reactor_init_def itemblock_create_cases Let_def)

lemma init_exits:
  assumes "malloc_ok io" "0 \<le> epoll_ret io" "fst (block_mem io)" "snd (block_mem io)" "\<not> sockets_ok io"
  shows "\<exists>p. get_reactor_instance io process_start = Exit 1 p"
  using assms
  by (auto simp: get_reactor_instance_def process_start_def reactor_init_def server_init_def itemblock_create_cases
    sockets_ok_def Let_def)

lemma init_serves:
  assumes "malloc_ok io" "0 \<le> epoll_ret io" "fst (block_mem io)" "snd (block_mem io)" "sockets_ok io"
    "reactor_start (socket_ret io) new_block = Some r"
  shows "get_reactor_instance io process_start = Ret True
    \<lparr>inst = Made r, server_fd = socket_ret io, ERROR = 0, open_fds = [socket_ret io, epoll_ret io],
      listening = Some (any_address PORT)\<rparr>"
proof -
  obtain ret where "reactor_set_event (socket_ret io) Handle_accept ACCEPT_EVENT (zero_reactor\<lparr>blocks := [new_block]\<rparr>) = Some (ret, r)"
    using assms(6) by (auto simp: reactor_start_def zero_reactor_def bind_eq_Some_conv)
  then show ?thesis using assms(1-5)
    by (simp add: get_reactor_instance_def process_start_def reactor_init_def server_init_def itemblock_create_cases
      instance_set_event_def sockets_ok_def Let_def)
qed

section \<open>The properties\<close>


text \<open>
  C31. The first failed initialisation is told apart, the second call is not: after a call of \<open>get_reactor_instance\<close> whose
  \<open>epoll_create\<close> or block allocation failed, the instance is freed, every later call returns the pointer to it, and a
  registration through it is undefined; an epoll descriptor that was opened stays open. A registration that is
  itself the first call is undefined too, because the pointer is used before the test for null.
\<close>
theorem reactor_failed_start_dangles:
  assumes "malloc_ok io" "epoll_ret io < 0 \<or> \<not> fst (block_mem io) \<or> \<not> snd (block_mem io)"
  shows "\<exists>p. get_reactor_instance io process_start = Ret False p \<and>
    open_fds p = (if epoll_ret io < 0 then [] else [epoll_ret io]) \<and>
    (\<forall>io'. get_reactor_instance io' p = Ret True p) \<and> (\<forall>io' d h ev. call_set_event io' d h ev p = Crash) \<and>
    (\<forall>d h ev. call_set_event io d h ev process_start = Crash)"
proof -
  from init_fails [OF assms] obtain p where p: "get_reactor_instance io process_start = Ret False p" "inst p = Freed"
    "open_fds p = (if epoll_ret io < 0 then [] else [epoll_ret io])" by blast
  have again: "get_reactor_instance io' p = Ret True p" for io' using p(2) by (simp add: get_reactor_instance_def)
  then have "call_set_event io' d h ev p = Crash" for io' d h ev
    using p(2) by (simp add: call_set_event_def instance_set_event_def)
  then show ?thesis using p again by (intro exI [of _ p]) (simp add: call_set_event_def)
qed

text \<open>The instance is made once: a later call finds it, whatever the calls to the system would give.\<close>

lemma reactor_instance_unique:
  assumes "get_reactor_instance io process_start = Ret True p"
  shows "get_reactor_instance io' p = Ret True p"
proof (cases "inst p")
  case Absent
  have "run_bind (reactor_init io q) (\<lambda>ret p. if ret < 0 then Ret False (p\<lparr>inst := Freed\<rparr>) else Ret True p) \<noteq> Ret True p"
    if "inst q = Made r" for q r
    using that Absent
    by (auto simp: reactor_init_def server_init_def instance_set_event_def Let_def split: option.splits prod.splits if_splits)
  then have False using assms by (simp add: get_reactor_instance_def process_start_def split: if_splits)
  then show ?thesis ..
qed (simp_all add: get_reactor_instance_def)

section \<open>Instances\<close>


theorem reactor_failed_start_dangles_witness:
  "\<exists>p. get_reactor_instance \<lparr>malloc_ok = True, epoll_ret = 4, block_mem = (True, False), socket_ret = 3, bind_ret = 0, listen_ret = 0\<rparr>
      process_start = Ret False p \<and> open_fds p = [4] \<and> (\<forall>io'. call_set_event io' 5 Handle_read READ_EVENT p = Crash)"
  using reactor_failed_start_dangles
    [of "\<lparr>malloc_ok = True, epoll_ret = 4, block_mem = (True, False), socket_ret = 3, bind_ret = 0, listen_ret = 0\<rparr>"]
  by auto

end
