(* ===== verification/Reactor_Main.thy ===== *)
theory Reactor_Main
  imports Reactor_Correct Sockets
begin

text \<open>
  The program of \<open>src/reactor_single.c\<close>: \<open>init_sock\<close>, \<open>ntyreactor_destory\<close> and \<open>main\<close>, with every way the calls of its
  start can fail.
\<close>

section \<open>The program\<close>

definition SERVER_PORT :: u16 where "SERVER_PORT = 8888"

record sock_io =
  socket_ret :: int
  listen_ret :: int

text \<open>The results of \<open>socket\<close>, \<open>fcntl\<close> and \<open>bind\<close> are not looked at; a failure of \<open>listen\<close> is printed, which the last
  component tells. The second one is the address for \<open>bind\<close>; the port passes through a \<open>short\<close>, which keeps its bits.\<close>

definition init_sock :: "u16 \<Rightarrow> sock_io \<Rightarrow> int \<times> sockaddr_in \<times> bool" where
  "init_sock port s = (let fd = socket_ret s; server_addr = any_address port in (fd, server_addr, listen_ret s < 0))"

text \<open>The descriptors that were closed by the initialisation, which closes the one of epoll when there is no memory.\<close>

definition init_closes :: "int \<Rightarrow> ntyevent list option \<Rightarrow> int list" where
  "init_closes epfd mem = (if 0 < epfd \<and> mem = None then [epfd] else [])"

text \<open>What \<open>ntyreactor_destory\<close> closes; it frees the events, which may be null, and not the reactor.\<close>

definition ntyreactor_destory :: "int \<Rightarrow> int list" where
  "ntyreactor_destory epfd = [epfd]"

text \<open>
  \<open>argv1\<close> is what \<open>atoi\<close> reads from the argument, if there is one. \<open>main\<close> ends only when \<open>ntyreactor_run\<close> refuses to start. The events of a reactor whose initialisation has failed are
  null. Without memory for the reactor every function returns at once, up to \<open>ntyreactor_destory\<close>, which uses the null
  pointer.
\<close>

datatype outcome = Ended "int list" | Serving sockaddr_in nat ntyreactor

definition single_main ::
  "int option \<Rightarrow> bool \<Rightarrow> int \<Rightarrow> ntyevent list option \<Rightarrow> int \<Rightarrow> sock_io \<Rightarrow> (int \<times> (nat \<times> u32) list option \<times> io) list \<Rightarrow> outcome option"
where
  "single_main argv1 got epfd mem t s xs = (
     let port = (case argv1 of None \<Rightarrow> SERVER_PORT | Some n \<Rightarrow> word_of_int n); (sockfd, address, failed) = init_sock port s in
     if \<not> got then None
     else case ntyreactor_init epfd mem t of
         (ret, None) \<Rightarrow> Some (Ended (init_closes epfd mem @ ntyreactor_destory epfd @ [sockfd]))
       | (ret, Some r) \<Rightarrow> do {
           (ret, r) \<leftarrow> ntyreactor_addlistener sockfd Accept_cb r;
           (cp, r) \<leftarrow> ntyreactor_run xs (0, r);
           Some (Serving address cp r)
         })"

section \<open>The properties\<close>


text \<open>When the socket cannot be opened, the descriptor -1 is used as an index all the same.\<close>

lemma single_main_no_socket:
  assumes "socket_ret s < 0" "0 < epfd"
  shows "single_main argv1 True epfd (Some m) t s xs = None"
  using assms by (simp add: single_main_def init_sock_def Let_def ntyreactor_init_def ntyreactor_addlistener_def slot_of_def)

section \<open>Instances\<close>


end
