(* ===== verification/Webserver_Blocks.thy ===== *)
theory Webserver_Blocks
  imports Webserver_Table
begin

text \<open>
  The table of events of \<open>src/webserver.c\<close> in memory: a chain of blocks, each with the address of its array of events.
  This is the level of \<open>ntyreactor_alloc\<close>, \<open>ntyreactor_idx\<close> and \<open>ntyreactor_destory\<close>; the lists of
  theory \<open>Webserver\<close> are what the chain stands for.
\<close>

section \<open>The memory\<close>

record eventblock =
  next_blk :: ptr
  evs_ptr :: ptr

record table =
  blks :: "eventblock heap"
  arrays :: "ntyevent list heap"
  head_blk :: ptr
  cnt :: int
  epfd_open :: bool

text \<open>The pair has the results of the calls of \<open>malloc\<close> for the events and for the block.\<close>

definition table_init :: "int \<Rightarrow> ptr \<times> ptr \<Rightarrow> int \<times> table" where
  "table_init epfd mem = (
     let (pe, pb) = mem;
         m = \<lparr>blks = Map.empty, arrays = Map.empty, head_blk = NULL, cnt = 0, epfd_open = (0 \<le> epfd)\<rparr> in
     if epfd \<le> 0 then (- 2, m)
     else if pe = NULL then (- 2, m)
     else let m = m\<lparr>arrays := (arrays m)(pe \<mapsto> replicate MAX_EPOLL_EVENTS zero_event)\<rparr> in
       if pb = NULL then (- 2, m)
       else (0, m\<lparr>blks := (blks m)(pb \<mapsto> \<lparr>next_blk = NULL, evs_ptr = pe\<rparr>), head_blk := pb, cnt := 1\<rparr>))"

partial_function (option) last_blk :: "ptr \<Rightarrow> table \<Rightarrow> ptr option" where
  "last_blk b m = do {
     k \<leftarrow> blks m b;
     if next_blk k = NULL then Some b else last_blk (next_blk k) m
   }"

definition table_alloc :: "ptr \<times> ptr \<Rightarrow> table \<Rightarrow> (int \<times> table) option" where
  "table_alloc mem m = (
     let (pe, pb) = mem in
     if head_blk m = NULL then Some (- 1, m)
     else do {
       blk \<leftarrow> last_blk (head_blk m) m;
       if pe = NULL then Some (- 2, m)
       else do {
         let m = m\<lparr>arrays := (arrays m)(pe \<mapsto> replicate MAX_EPOLL_EVENTS zero_event)\<rparr>;
         if pb = NULL then Some (- 2, m)
         else do {
           let m = m\<lparr>blks := (blks m)(pb \<mapsto> \<lparr>next_blk = NULL, evs_ptr = pe\<rparr>)\<rparr>;
           k \<leftarrow> blks m blk;
           Some (0, m\<lparr>blks := (blks m)(blk \<mapsto> k\<lparr>next_blk := pb\<rparr>), cnt := cnt m + 1\<rparr>)
         }
       }
     })"

text \<open>The walk of \<open>ntyreactor_idx\<close> to a block.\<close>

fun walk_blocks :: "nat \<Rightarrow> ptr \<Rightarrow> table \<Rightarrow> ptr option" where
  "walk_blocks 0 b m = Some b"
| "walk_blocks (Suc k) b m =
     (if b = NULL then Some b else do { blk \<leftarrow> blks m b; walk_blocks k (next_blk blk) m })"

text \<open>To free a block or an array that is not allocated is an error.\<close>

partial_function (option) free_blocks :: "ptr \<Rightarrow> table \<Rightarrow> table option" where
  "free_blocks blk m =
     (if blk = NULL then Some m
      else do {
        k \<leftarrow> blks m blk;
        a \<leftarrow> arrays m (evs_ptr k);
        free_blocks (next_blk k)
          (m\<lparr>arrays := (arrays m)(evs_ptr k := None), blks := (blks m)(blk := None)\<rparr>)
      })"

definition table_destory :: "table \<Rightarrow> (int \<times> table) option" where
  "table_destory m = do {
     let m = m\<lparr>epfd_open := False\<rparr>;
     m \<leftarrow> free_blocks (head_blk m) m;
     Some (0, m)
   }"

fun table_allocs :: "(ptr \<times> ptr) list \<Rightarrow> table \<Rightarrow> table option" where
  "table_allocs [] m = Some m"
| "table_allocs (x # xs) m = do { (ret, m) \<leftarrow> table_alloc x m; table_allocs xs m }"

section \<open>The chain\<close>

fun chain :: "table \<Rightarrow> ptr \<Rightarrow> ptr list \<Rightarrow> bool" where
  "chain m b [] \<longleftrightarrow> b = NULL"
| "chain m b (p # ps) \<longleftrightarrow> p = b \<and> b \<noteq> NULL \<and> (\<exists>k. blks m b = Some k \<and> chain m (next_blk k) ps)"

definition events_of :: "table \<Rightarrow> ptr \<Rightarrow> ptr" where
  "events_of m p = (case blks m p of None \<Rightarrow> NULL | Some k \<Rightarrow> evs_ptr k)"

text \<open>The chain has the blocks \<open>ps\<close>, there are no others, and their arrays are apart; \<open>lost\<close> has the arrays no block knows.\<close>

definition table_rep :: "table \<Rightarrow> ptr list \<Rightarrow> ptr set \<Rightarrow> bool" where
  "table_rep m ps lost \<longleftrightarrow> chain m (head_blk m) ps \<and> distinct ps \<and> dom (blks m) = set ps \<and> cnt m = int (length ps) \<and>
     distinct (map (events_of m) ps) \<and> dom (arrays m) = events_of m ` set ps \<union> lost \<and> events_of m ` set ps \<inter> lost = {}"

text \<open>The lists of events that the chain stands for.\<close>

definition table_abs :: "table \<Rightarrow> ptr list \<Rightarrow> ntyevent list list" where
  "table_abs m ps = map (\<lambda>p. the (arrays m (events_of m p))) ps"

lemma blocks_cong: "\<forall>p \<in> set ps. blks m' p = blks m p \<Longrightarrow> chain m' b ps = chain m b ps"
proof (induction ps arbitrary: b)
  case (Cons p ps)
  then show ?case by (cases "p = b") simp_all
qed simp

lemma last_blk_chain: "chain m b ps \<Longrightarrow> ps \<noteq> [] \<Longrightarrow> last_blk b m = Some (last ps)"
proof (induction ps arbitrary: b)
  case (Cons p ps)
  then obtain k where k: "blks m b = Some k" "chain m (next_blk k) ps" "p = b" by auto
  show ?case
  proof (cases ps)
    case Nil
    then show ?thesis using k by (subst last_blk.simps) simp
  next
    case Cons': (Cons q qs)
    then have "next_blk k \<noteq> NULL" using k(2) by simp
    then show ?thesis using Cons.IH [OF k(2)] k Cons' by (subst last_blk.simps) simp
  qed
qed simp

lemma chain_extend:
  assumes "chain m b ps" "ps \<noteq> []" "distinct ps" "q \<notin> set ps" "q \<noteq> NULL" "blks m (last ps) = Some k"
    "blks m' q = Some \<lparr>next_blk = NULL, evs_ptr = e\<rparr>" "blks m' (last ps) = Some (k\<lparr>next_blk := q\<rparr>)"
    "\<forall>p \<in> set (butlast ps). blks m' p = blks m p"
  shows "chain m' b (ps @ [q])"
  using assms
proof (induction ps arbitrary: b)
  case (Cons p ps)
  obtain kp where kp: "blks m b = Some kp" "chain m (next_blk kp) ps" "p = b" using Cons.prems(1) by auto
  show ?case
  proof (cases "ps = []")
    case True
    then show ?thesis using Cons.prems kp by simp
  next
    case False
    then have "chain m' (next_blk kp) (ps @ [q])" using Cons.IH [OF kp(2) False] Cons.prems by simp
    moreover have "blks m' b = Some kp" using Cons.prems(9) False kp by simp
    ultimately show ?thesis using Cons.prems(1) by simp
  qed
qed simp

lemma chain_head: "chain m b ps \<Longrightarrow> b \<noteq> NULL \<Longrightarrow> ps \<noteq> []"
  by (cases ps) auto

lemma walk_chain: "chain m b ps \<Longrightarrow> k < length ps \<Longrightarrow> walk_blocks k b m = Some (ps ! k)"
proof (induction k arbitrary: b ps)
  case 0
  then show ?case by (cases ps) auto
next
  case (Suc k)
  then obtain p ps' blk where "ps = p # ps'" "p = b" "b \<noteq> NULL" "blks m b = Some blk" "chain m (next_blk blk) ps'"
    by (cases ps) auto
  then show ?case using Suc.IH [of "next_blk blk" ps'] Suc.prems(2) by simp
qed

section \<open>Allocation\<close>

lemma table_init_rep:
  assumes "0 < epfd" "pe \<noteq> NULL" "pb \<noteq> NULL"
  shows "\<exists>m. table_init epfd (pe, pb) = (0, m) \<and> table_rep m [pb] {} \<and> table_abs m [pb] = [empty_block] \<and> events_of m pb = pe \<and>
    head_blk m = pb"
  using assms by (simp add: table_init_def Let_def table_rep_def table_abs_def events_of_def empty_block_def)

text \<open>The array is lost when there is no memory for its block.\<close>

definition loses :: "ptr \<times> ptr \<Rightarrow> ptr set" where
  "loses x = (if fst x \<noteq> NULL \<and> snd x = NULL then {fst x} else {})"

lemma table_alloc_rep:
  assumes "table_rep m ps lost" "ps \<noteq> []" "pe \<noteq> NULL \<longrightarrow> pe \<notin> dom (arrays m)" "pb \<noteq> NULL \<longrightarrow> pb \<notin> set ps"
  shows "\<exists>ret m' ps'. table_alloc (pe, pb) m = Some (ret, m') \<and> table_rep m' ps' (lost \<union> loses (pe, pb)) \<and> head_blk m' = head_blk m \<and>
    ret = (if pe = NULL \<or> pb = NULL then - 2 else 0) \<and> ps' = ps @ (if pe = NULL \<or> pb = NULL then [] else [pb]) \<and>
    table_abs m' ps' = table_abs m ps @ (if pe = NULL \<or> pb = NULL then [] else [empty_block]) \<and>
    dom (arrays m') = dom (arrays m) \<union> ({pe} - {NULL})"
proof -
  have r: "chain m (head_blk m) ps" "distinct ps" "dom (blks m) = set ps" "cnt m = int (length ps)"
    "distinct (map (events_of m) ps)" "dom (arrays m) = events_of m ` set ps \<union> lost" "events_of m ` set ps \<inter> lost = {}"
    using assms(1) by (simp_all add: table_rep_def)
  have h: "head_blk m \<noteq> NULL" using r(1) assms(2) by (cases ps) auto
  have l: "last_blk (head_blk m) m = Some (last ps)" by (rule last_blk_chain [OF r(1) assms(2)])
  have "last ps \<in> dom (blks m)" using r(3) assms(2) by simp
  then obtain k where k: "blks m (last ps) = Some k" by blast
  consider "pe = NULL" | (lost) "pe \<noteq> NULL" "pb = NULL" | (full) "pe \<noteq> NULL" "pb \<noteq> NULL" by blast
  then show ?thesis
  proof cases
    case 1
    then show ?thesis using assms(1) h l by (intro exI [of _ "- 2"] exI [of _ m] exI [of _ ps]) (simp add: table_alloc_def loses_def)
  next
    case lost
    let ?m = "m\<lparr>arrays := (arrays m)(pe \<mapsto> replicate MAX_EPOLL_EVENTS zero_event)\<rparr>"
    have e: "events_of ?m = events_of m" by (rule ext) (simp add: events_of_def)
    have "pe \<notin> dom (arrays m)" using assms(3) lost(1) by simp
    then have pe: "pe \<notin> events_of m ` set ps" "pe \<notin> lost" using r(6) by auto
    have "chain ?m (head_blk m) ps = chain m (head_blk m) ps" by (rule blocks_cong) simp
    then have "table_rep ?m ps (insert pe lost)" using r pe by (simp add: table_rep_def e)
    moreover have "table_abs ?m ps = table_abs m ps" using pe(1) by (auto simp: table_abs_def e)
    ultimately show ?thesis using h l lost
      by (intro exI [of _ "- 2"] exI [of _ ?m] exI [of _ ps]) (simp add: table_alloc_def loses_def)
  next
    case full
    let ?m = "m\<lparr>arrays := (arrays m)(pe \<mapsto> replicate MAX_EPOLL_EVENTS zero_event),
      blks := (blks m)(pb \<mapsto> \<lparr>next_blk = NULL, evs_ptr = pe\<rparr>, last ps \<mapsto> k\<lparr>next_blk := pb\<rparr>), cnt := cnt m + 1\<rparr>"
    have pb: "pb \<notin> set ps" "pb \<noteq> last ps" using assms(2,4) full(2) by auto
    have "pe \<notin> dom (arrays m)" using assms(3) full(1) by simp
    then have pe: "pe \<notin> events_of m ` set ps" "pe \<notin> lost" using r(6) by auto
    have e: "events_of ?m p = events_of m p" if "p \<in> set ps" for p
      using that pb k by (auto simp: events_of_def)
    have epb: "events_of ?m pb = pe" using pb by (simp add: events_of_def)
    have es: "events_of ?m ` set ps = events_of m ` set ps" using e by auto
    have "p \<noteq> last ps" if "p \<in> set (butlast ps)" for p
      using that r(2) assms(2) by (metis append_butlast_last_id distinct_append disjoint_insert(1) list.simps(15))
    then have "chain ?m (head_blk m) (ps @ [pb])"
      using pb in_set_butlastD [of _ ps] by (intro chain_extend [OF r(1) assms(2) r(2) pb(1) full(2) k]) auto
    moreover have "map (events_of ?m) (ps @ [pb]) = map (events_of m) ps @ [pe]" using e epb by simp
    then have "distinct (map (events_of ?m) (ps @ [pb]))" using r(5) pe(1) by (simp only: distinct_append) simp
    moreover have "dom (arrays ?m) = events_of ?m ` set (ps @ [pb]) \<union> lost" using r(6) es epb by simp
    moreover have "events_of ?m ` set (ps @ [pb]) \<inter> lost = {}" using r(7) pe(2) es epb by simp
    moreover have "dom (blks ?m) = set (ps @ [pb])" using r(3) assms(2) by auto
    ultimately have "table_rep ?m (ps @ [pb]) lost" using r(2,4) pb(1) by (simp add: table_rep_def)
    moreover have "table_abs ?m (ps @ [pb]) = table_abs m ps @ [empty_block]"
    proof -
      have "the (arrays ?m (events_of ?m p)) = the (arrays m (events_of m p))" if "p \<in> set ps" for p
        using e [OF that] pe(1) that by auto
      then show ?thesis using epb by (simp add: table_abs_def empty_block_def)
    qed
    moreover have "table_alloc (pe, pb) m = Some (0, ?m)" using h l full pb(2) k by (simp add: table_alloc_def)
    ultimately show ?thesis using full
      by (intro exI [of _ 0] exI [of _ ?m] exI [of _ "ps @ [pb]"]) (simp add: loses_def)
  qed
qed

section \<open>Many allocations\<close>

definition fresh_mem :: "(ptr \<times> ptr) list \<Rightarrow> bool" where
  "fresh_mem xs \<longleftrightarrow> distinct (filter (\<lambda>p. p \<noteq> NULL) (map fst xs)) \<and> distinct (filter (\<lambda>p. p \<noteq> NULL) (map snd xs))"

definition has_mem :: "ptr \<times> ptr \<Rightarrow> bool \<times> bool" where
  "has_mem x = (fst x \<noteq> NULL, snd x \<noteq> NULL)"

fun allocs :: "(ptr \<times> ptr) list \<Rightarrow> ntyreactor \<Rightarrow> ntyreactor" where
  "allocs [] r = r"
| "allocs (x # xs) r = allocs xs (snd (ntyreactor_alloc (has_mem x) r))"

lemma table_allocs_rep:
  assumes "table_rep m ps lost" "ps \<noteq> []" "fresh_mem xs" "evblk r = table_abs m ps" "blkcnt r = cnt m"
    "\<forall>x \<in> set xs. (fst x \<noteq> NULL \<longrightarrow> fst x \<notin> dom (arrays m)) \<and> (snd x \<noteq> NULL \<longrightarrow> snd x \<notin> set ps)"
  shows "\<exists>m' ps'. table_allocs xs m = Some m' \<and> table_rep m' ps' (lost \<union> \<Union> (loses ` set xs)) \<and> ps' \<noteq> [] \<and>
    evblk (allocs xs r) = table_abs m' ps' \<and> blkcnt (allocs xs r) = cnt m'"
  using assms
proof (induction xs arbitrary: m ps lost r)
  case (Cons x xs)
  obtain pe pb where x: "x = (pe, pb)" by (cases x)
  from Cons.prems(6) have f: "pe \<noteq> NULL \<longrightarrow> pe \<notin> dom (arrays m)" "pb \<noteq> NULL \<longrightarrow> pb \<notin> set ps" by (simp_all add: x)
  from table_alloc_rep [OF Cons.prems(1,2) this] obtain ret m1 ps1 where m1: "table_alloc x m = Some (ret, m1)"
    "table_rep m1 ps1 (lost \<union> loses x)" "ps1 = ps @ (if pe = NULL \<or> pb = NULL then [] else [pb])"
    "table_abs m1 ps1 = table_abs m ps @ (if pe = NULL \<or> pb = NULL then [] else [empty_block])"
    "dom (arrays m1) = dom (arrays m) \<union> ({pe} - {NULL})" unfolding x by blast
  let ?r = "snd (ntyreactor_alloc (has_mem x) r)"
  have "evblk r \<noteq> []" using Cons.prems(2,4) by (simp add: table_abs_def)
  moreover have "cnt m = int (length ps)" "cnt m1 = int (length ps1)" using Cons.prems(1) m1(2) by (simp_all add: table_rep_def)
  ultimately have r: "evblk ?r = table_abs m1 ps1" "blkcnt ?r = cnt m1"
    using Cons.prems(4,5) m1(3,4) by (simp_all add: ntyreactor_alloc_def has_mem_def x empty_block_def)
  have "ps1 \<noteq> []" "fresh_mem xs" using Cons.prems(2,3) m1(3) by (auto simp: fresh_mem_def split: if_splits)
  moreover have "\<forall>y \<in> set xs. (fst y \<noteq> NULL \<longrightarrow> fst y \<notin> dom (arrays m1)) \<and> (snd y \<noteq> NULL \<longrightarrow> snd y \<notin> set ps1)"
  proof
    fix y assume y: "y \<in> set xs"
    have "fst y \<noteq> pe" if "fst y \<noteq> NULL" using Cons.prems(3) y that by (force simp: fresh_mem_def x split: if_splits)
    moreover have "snd y \<noteq> pb" if "snd y \<noteq> NULL" using Cons.prems(3) y that by (force simp: fresh_mem_def x split: if_splits)
    ultimately show "(fst y \<noteq> NULL \<longrightarrow> fst y \<notin> dom (arrays m1)) \<and> (snd y \<noteq> NULL \<longrightarrow> snd y \<notin> set ps1)"
      using Cons.prems(6) y m1(3,5) by auto
  qed
  ultimately obtain m' ps' where "table_allocs xs m1 = Some m'" "table_rep m' ps' (lost \<union> loses x \<union> \<Union> (loses ` set xs))" "ps' \<noteq> []"
    "evblk (allocs xs ?r) = table_abs m' ps'" "blkcnt (allocs xs ?r) = cnt m'"
    using Cons.IH [OF m1(2) _ _ r] by blast
  then show ?case using m1(1) by (intro exI [of _ m'] exI [of _ ps']) (simp add: Un_assoc)
qed auto

text \<open>From the start.\<close>

lemma table_started:
  assumes "0 < epfd" "fst x \<noteq> NULL" "snd x \<noteq> NULL" "fresh_mem (x # xs)"
  shows "\<exists>m0 m ps. table_init epfd x = (0, m0) \<and> table_allocs xs m0 = Some m \<and> table_rep m ps (\<Union> (loses ` set xs)) \<and>
    evblk (allocs xs (snd (ntyreactor_init epfd (has_mem x)))) = table_abs m ps \<and>
    blkcnt (allocs xs (snd (ntyreactor_init epfd (has_mem x)))) = cnt m"
proof -
  obtain pe pb where x: "x = (pe, pb)" by (cases x)
  from table_init_rep [OF assms(1)] assms(2,3) x obtain m where m: "table_init epfd x = (0, m)" "table_rep m [pb] {}"
    "table_abs m [pb] = [empty_block]" "events_of m pb = pe" by (metis fst_conv snd_conv)
  let ?r = "snd (ntyreactor_init epfd (has_mem x))"
  have "evblk ?r = table_abs m [pb]" "blkcnt ?r = cnt m"
    using assms(1-3) m(2,3) by (simp_all add: ntyreactor_init_def has_mem_def empty_block_def table_rep_def)
  moreover have "\<forall>y \<in> set xs. (fst y \<noteq> NULL \<longrightarrow> fst y \<notin> dom (arrays m)) \<and> (snd y \<noteq> NULL \<longrightarrow> snd y \<notin> set [pb])"
  proof
    fix y assume y: "y \<in> set xs"
    have "dom (arrays m) = {pe}" using m(2,4) by (simp add: table_rep_def)
    moreover have "fst y \<noteq> pe" if "fst y \<noteq> NULL" using assms(4) y that by (force simp: fresh_mem_def x split: if_splits)
    moreover have "snd y \<noteq> pb" if "snd y \<noteq> NULL" using assms(4) y that by (force simp: fresh_mem_def x split: if_splits)
    ultimately show "(fst y \<noteq> NULL \<longrightarrow> fst y \<notin> dom (arrays m)) \<and> (snd y \<noteq> NULL \<longrightarrow> snd y \<notin> set [pb])" by simp
  qed
  moreover have "fresh_mem xs" using assms(4) by (auto simp: fresh_mem_def split: if_splits)
  ultimately show ?thesis using table_allocs_rep [OF m(2), of xs ?r] m(1) by auto
qed

section \<open>Freeing the table\<close>

lemma free_blocks_ok:
  assumes "chain m b ps" "distinct ps" "distinct (map (events_of m) ps)" "events_of m ` set ps \<subseteq> dom (arrays m)"
  shows "free_blocks b m =
    Some (m\<lparr>arrays := arrays m |` (- (events_of m ` set ps)), blks := blks m |` (- set ps)\<rparr>)"
  using assms
proof (induction ps arbitrary: b m)
  case Nil
  then show ?case by (subst free_blocks.simps) simp
next
  case (Cons p ps)
  then obtain k where k: "blks m p = Some k" "chain m (next_blk k) ps" "p = b" "p \<noteq> NULL" by auto
  have e: "events_of m p = evs_ptr k" using k(1) by (simp add: events_of_def)
  then obtain a where a: "arrays m (evs_ptr k) = Some a" using Cons.prems(4) by auto
  define m1 where "m1 = m\<lparr>arrays := (arrays m)(evs_ptr k := None), blks := (blks m)(p := None)\<rparr>"
  have p: "p \<notin> set ps" using Cons.prems(2) by simp
  have es: "events_of m1 q = events_of m q" if "q \<in> set ps" for q
    using that p by (auto simp: events_of_def m1_def)
  have "chain m1 (next_blk k) ps" using k(2) p blocks_cong [of ps m1 m] by (auto simp: m1_def)
  moreover have "map (events_of m1) ps = map (events_of m) ps" "events_of m1 ` set ps = events_of m ` set ps" using es by auto
  moreover have "events_of m ` set ps \<subseteq> dom (arrays m1)"
  proof -
    have "evs_ptr k \<notin> events_of m ` set ps" using Cons.prems(3) e by simp
    moreover have "dom (arrays m1) = dom (arrays m) - {evs_ptr k}" by (simp add: m1_def)
    moreover have "events_of m ` set ps \<subseteq> dom (arrays m)" using Cons.prems(4) by simp
    ultimately show ?thesis by (simp add: subset_Diff_insert)
  qed
  moreover have "distinct ps" "distinct (map (events_of m) ps)" using Cons.prems(2,3) by simp_all
  ultimately have "free_blocks (next_blk k) m1 =
      Some (m1\<lparr>arrays := arrays m1 |` (- (events_of m ` set ps)), blks := blks m1 |` (- set ps)\<rparr>)"
    using Cons.IH [of m1 "next_blk k"] by metis
  moreover have "arrays m1 |` (- (events_of m ` set ps)) = arrays m |` (- (events_of m ` set (p # ps)))"
    "blks m1 |` (- set ps) = blks m |` (- set (p # ps))"
    by (auto simp: m1_def e restrict_map_def)
  ultimately show ?case using k a by (subst free_blocks.simps) (simp add: m1_def)
qed

section \<open>The properties\<close>


text \<open>
  C35. \<open>ntyreactor_destory\<close> frees every block and its events once and nothing else: after the start and any calls of
  \<open>ntyreactor_alloc\<close> what is left in memory are the arrays of the calls that found no memory for the block.
\<close>
theorem web_destory_frees:
  assumes "0 < epfd" "fst x \<noteq> NULL" "snd x \<noteq> NULL" "fresh_mem (x # xs)"
  shows "\<exists>m m'. table_allocs xs (snd (table_init epfd x)) = Some m \<and> table_destory m = Some (0, m') \<and>
    blks m' = Map.empty \<and> dom (arrays m') = \<Union> (loses ` set xs) \<and> \<not> epfd_open m'"
proof -
  from table_started [OF assms] obtain m0 m ps where m: "table_init epfd x = (0, m0)" "table_allocs xs m0 = Some m"
    "table_rep m ps (\<Union> (loses ` set xs))" by blast
  let ?m = "m\<lparr>epfd_open := False\<rparr>"
  have e: "events_of ?m = events_of m" by (rule ext) (simp add: events_of_def)
  have c: "chain ?m b ps = chain m b ps" for b by (rule blocks_cong) simp
  have r: "chain ?m (head_blk ?m) ps" "distinct ps" "distinct (map (events_of ?m) ps)" "events_of ?m ` set ps \<subseteq> dom (arrays ?m)"
    using m(3) unfolding table_rep_def c e by simp_all
  let ?m' = "?m\<lparr>arrays := arrays m |` (- (events_of m ` set ps)), blks := blks m |` (- set ps)\<rparr>"
  have "table_destory m = Some (0, ?m')" using free_blocks_ok [OF r] by (simp add: table_destory_def e)
  moreover have "blks ?m' = Map.empty" using m(3) by (auto simp: table_rep_def restrict_map_def fun_eq_iff)
  moreover have "dom (arrays ?m') = \<Union> (loses ` set xs)" using m(3) by (auto simp: table_rep_def)
  ultimately show ?thesis using m(1,2) by (intro exI [of _ m] exI [of _ ?m']) simp
qed

section \<open>Instances\<close>


theorem web_destory_frees_witness:
  "\<exists>m m'. table_allocs [(30, 40), (50, 0)] (snd (table_init 1 (10, 20))) = Some m \<and> table_destory m = Some (0, m') \<and>
    blks m' = Map.empty \<and> dom (arrays m') = {50}"
  using web_destory_frees [of 1 "(10, 20)" "[(30, 40), (50, 0)]"] by (auto simp: fresh_mem_def loses_def)

end
