(* ===== verification/Webserver_Main.thy ===== *)
theory Webserver_Main
  imports Webserver_Correct Sockets
begin

text \<open>
  The program of \<open>src/webserver.c\<close>: \<open>init_sock\<close>, \<open>main\<close> with its listeners, and a client that is served from
  the start of the program on.
\<close>

section \<open>The program\<close>

definition PORT_COUNT :: nat where "PORT_COUNT = 1"
definition SERVER_PORT :: u16 where "SERVER_PORT = 8888"

record sock_io =
  socket_ret :: int
  listen_ret :: int

text \<open>The results of \<open>socket\<close>, \<open>fcntl\<close> and \<open>bind\<close> are not looked at; a failure of \<open>listen\<close> is printed, which the last
  component tells. The second one is the address for \<open>bind\<close>; the port passes through a \<open>short\<close>, which keeps its bits.\<close>

definition init_sock :: "u16 \<Rightarrow> sock_io \<Rightarrow> int \<times> sockaddr_in \<times> bool" where
  "init_sock port s = (let fd = socket_ret s; server_addr = any_address port in (fd, server_addr, listen_ret s < 0))"

text \<open>The listeners from the i-th on.\<close>

fun add_listeners ::
  "(nat \<Rightarrow> bool \<times> bool) \<Rightarrow> u16 \<Rightarrow> nat \<Rightarrow> sock_io list \<Rightarrow> ntyreactor \<Rightarrow> ((int \<times> sockaddr_in) list \<times> ntyreactor) option"
where
  "add_listeners mem port i [] r = Some ([], r)"
| "add_listeners mem port i (s # ss) r = do {
     let (sockfd, address, failed) = init_sock (port + of_nat i) s;
     (ret, r) \<leftarrow> ntyreactor_addlistener mem sockfd Accept_cb r;
     (sockfds, r) \<leftarrow> add_listeners mem port (i + 1) ss r;
     Some ((sockfd, address) # sockfds, r)
   }"

text \<open>
  \<open>argv1\<close> is what \<open>atoi\<close> reads from the argument, if there is one. \<open>main\<close> ends only when \<open>ntyreactor_run\<close> refuses to start, with the descriptors it closes then. Without memory for the
  reactor every function returns at once, up to \<open>ntyreactor_destory\<close>, which uses the null pointer.
\<close>

datatype outcome = Ended "int list" | Serving "(int \<times> sockaddr_in) list" ntyreactor

definition server_port :: "int option \<Rightarrow> u16" where
  "server_port argv1 = (case argv1 of None \<Rightarrow> SERVER_PORT | Some n \<Rightarrow> word_of_int n)"

definition web_main ::
  "int option \<Rightarrow> bool \<Rightarrow> int \<Rightarrow> bool \<times> bool \<Rightarrow> (nat \<Rightarrow> bool \<times> bool) \<Rightarrow> sock_io list \<Rightarrow> (((nat \<times> nat) \<times> u32) list option \<times> io) list \<Rightarrow>
   outcome option"
where
  "web_main argv1 got epfd mem0 mem ss xs =
     (if \<not> got then None
      else do {
        let (ret, r) = ntyreactor_init epfd mem0;
        (sockfds, r) \<leftarrow> add_listeners mem (server_port argv1) 0 (take PORT_COUNT ss) r;
        if epfd < 0 \<or> evblk r = [] then Some (Ended (epfd # map fst sockfds))
        else do {
          r \<leftarrow> ntyreactor_run xs r;
          Some (Serving sockfds r)
        }
      })"

section \<open>The rounds of a connection\<close>

text \<open>An exchange: the calls of the round of its request, those of the round of its answer, and the file.\<close>

definition exchange_ok :: "int \<Rightarrow> io \<times> io \<times> u8 list \<Rightarrow> bool" where
  "exchange_ok fd x \<longleftrightarrow> (case x of (w1, w2, content) \<Rightarrow>
     \<exists>d path version rest. recv_got w1 fd = Some d \<and> d = get_line path version @ CR # LF # rest \<and> length d < BUFFER_LENGTH \<and>
       plain path \<and> blank \<notin> set path \<and> plain version \<and> length (get_line path version) < 1024 \<and>
       filesystem w2 (web_root @ path) = Some (Regular content) \<and> length content < 2 ^ 63 \<and>
       send_ret w2 fd = int (length (ok_head (length content))) \<and> sendfile_ret w2 fd = length content)"

fun exchange_rounds :: "int \<Rightarrow> (io \<times> io \<times> u8 list) list \<Rightarrow> (((nat \<times> nat) \<times> u32) list option \<times> io) list" where
  "exchange_rounds fd [] = []"
| "exchange_rounds fd ((w1, w2, content) # xs) =
     (Some [(place fd, EPOLLIN)], w1) # (Some [(place fd, EPOLLOUT)], w2) # exchange_rounds fd xs"

definition answers :: "int \<Rightarrow> (io \<times> io \<times> u8 list) list \<Rightarrow> (int \<times> u8 list) list" where
  "answers fd xs = concat (map (\<lambda>(w1, w2, content). [(fd, ok_head (length content)), (fd, content)]) xs)"

lemma masks: "EPOLLIN AND EPOLLOUT = 0" "EPOLLOUT AND EPOLLIN = 0" "EPOLLIN AND EPOLLIN \<noteq> 0" "EPOLLOUT AND EPOLLOUT \<noteq> 0"
  by (simp_all add: EPOLLIN_def EPOLLOUT_def)

text \<open>A round in which one descriptor is ready for what its event waits for.\<close>

lemma ready_round:
  assumes "up fd r ev" "events ev = m" "m = EPOLLIN \<or> m = EPOLLOUT" "call w (callback ev) fd r = Some r1" "up fd r1 ev1"
  shows "dispatch_all w [(place fd, m)] r = Some r1"
proof -
  have "get_ev r (place fd) = Some ev" "get_ev r1 (place fd) = Some ev1" "ev_fd ev = fd"
    using assms(1,5) by (simp_all add: up_def here_def)
  then show ?thesis using assms(2-4) masks by (auto simp: dispatch_def)
qed

lemma ready_twice:
  assumes "up fd r ev" "events ev = EPOLLOUT" "call w (callback ev) fd r = Some r1"
  shows "dispatch_all w [(place fd, EPOLLOUT)] r = Some r1"
proof -
  have "get_ev r (place fd) = Some ev" "ev_fd ev = fd" using assms(1) by (simp_all add: up_def here_def)
  then show ?thesis using assms(2,3) masks by (auto simp: dispatch_def)
qed

lemma exchanges_run:
  assumes "up fd r ev" "callback ev = Recv_cb" "events ev = EPOLLIN" "\<forall>x \<in> set xs. exchange_ok fd x"
  shows "\<exists>r'. ntyreactor_run (exchange_rounds fd xs) r = Some r' \<and> sent r' = sent r @ answers fd xs \<and> closed r' = closed r \<and>
    watch r' = watch r"
  using assms
proof (induction xs arbitrary: r ev)
  case (Cons x xs)
  obtain w1 w2 content where x: "x = (w1, w2, content)" by (cases x)
  have "exchange_ok fd (w1, w2, content)" using Cons.prems(4) x by simp
  then obtain d path version rest where q: "recv_got w1 fd = Some d" "d = get_line path version @ CR # LF # rest"
    "length d < BUFFER_LENGTH" "plain path" "blank \<notin> set path" "plain version" "length (get_line path version) < 1024"
    "filesystem w2 (web_root @ path) = Some (Regular content)" "length content < 2 ^ 63"
    "send_ret w2 fd = int (length (ok_head (length content)))" "sendfile_ret w2 fd = length content"
    unfolding exchange_ok_def by blast
  from serve_request [where mem = "memory w1" and mem' = "memory w2" and fs = "filesystem w2", OF Cons.prems(1) q(2-9) q(10)]
  obtain r1 ev1 r2 ev2 where r: "recv_cb (memory w1) (Some d) fd r = Some (int (length d), r1)" "up fd r1 ev1"
    "callback ev1 = Send_cb" "events ev1 = EPOLLOUT"
    "send_cb (memory w2) (filesystem w2) (send_ret w2 fd) (length content) fd r1 = Some (send_ret w2 fd, r2)"
    "up fd r2 ev2" "callback ev2 = Recv_cb" "events ev2 = EPOLLIN"
    "sent r2 = sent r @ [(fd, ok_head (length content)), (fd, content)]" "closed r2 = closed r" "\<forall>e. e \<noteq> fd \<longrightarrow> watch r2 e = watch r e"
    by blast
  have "call w1 (callback ev) fd r = Some r1" using r(1) q(1) Cons.prems(2) by (simp add: call_def)
  then have "dispatch_all w1 [(place fd, EPOLLIN)] r = Some r1"
    using ready_round [OF Cons.prems(1,3) _ _ r(2)] by simp
  moreover have "call w2 (callback ev1) fd r1 = Some r2" using r(3,5) q(11) by (simp add: call_def)
  then have "dispatch_all w2 [(place fd, EPOLLOUT)] r1 = Some r2" using ready_twice [OF r(2,4)] by simp
  moreover have "watch r2 = watch r"
  proof
    fix e show "watch r2 e = watch r e" using r(6,8,11) Cons.prems(1,3) by (cases "e = fd") (simp_all add: up_def)
  qed
  moreover obtain r' where "ntyreactor_run (exchange_rounds fd xs) r2 = Some r'" "sent r' = sent r2 @ answers fd xs"
    "closed r' = closed r2" "watch r' = watch r2" using Cons.IH [OF r(6-8)] Cons.prems(4) by auto
  ultimately show ?case using r(9,10) by (simp add: x answers_def)
qed (simp add: answers_def)

section \<open>The properties\<close>

lemma init_started:
  assumes "0 < epfd"
  shows "\<exists>r. ntyreactor_init epfd (True, True) = (0, r) \<and> table_ok r \<and> watch r = Map.empty \<and> sent r = [] \<and> closed r = [] \<and>
    (\<forall>l ev. get_ev r l = Some ev \<longrightarrow> ev = zero_event)"
  using assms by (auto simp: ntyreactor_init_def table_ok_def zero_event_def get_ev_def split: if_splits)

lemma add_listener_register:
  "evblk r \<noteq> [] \<Longrightarrow> ntyreactor_addlistener mem fd cb r = register mem fd cb r"
  by (simp add: ntyreactor_addlistener_def register_def)


text \<open>
  The start looks at no result: when there is no memory for the reactor the program crashes at its end, when epoll or the
  memory of its events fails it ends at once without a word, closing what it opened, and when the socket cannot be
  opened it writes before the table of events.
\<close>
theorem web_main_start_fails:
  assumes "ss \<noteq> []"
  shows "web_main argv1 False epfd mem0 mem ss xs = None \<and>
    (epfd \<le> 0 \<or> mem0 \<noteq> (True, True) \<longrightarrow> web_main argv1 True epfd mem0 mem ss xs = Some (Ended [epfd, socket_ret (hd ss)])) \<and>
    (0 < epfd \<and> mem0 = (True, True) \<and> socket_ret (hd ss) < 0 \<longrightarrow> web_main argv1 True epfd mem0 mem ss xs = None)"
proof -
  obtain s ss' where ss: "ss = s # ss'" using assms by (cases ss) auto
  have "web_main argv1 True epfd mem0 mem ss xs = Some (Ended [epfd, socket_ret s])" if "epfd \<le> 0 \<or> mem0 \<noteq> (True, True)"
    using that by (cases mem0)
      (auto simp: ss web_main_def PORT_COUNT_def init_sock_def ntyreactor_init_def ntyreactor_addlistener_def Let_def)
  moreover have "web_main argv1 True epfd mem0 mem ss xs = None" if "0 < epfd" "mem0 = (True, True)" "socket_ret s < 0"
    using that by (simp add: ss web_main_def PORT_COUNT_def init_sock_def ntyreactor_init_def ntyreactor_addlistener_def
      ntyreactor_idx_def Let_def)
  ultimately show ?thesis by (simp add: ss web_main_def)
qed

section \<open>Instances\<close>

definition io_request :: io where
  "io_request = \<lparr>memory = ample, filesystem = sample_files, recv_got = (\<lambda>d. Some sample_request), send_ret = (\<lambda>d. 0),
     sendfile_ret = (\<lambda>d. 0), accept_fd = (\<lambda>d. 5), fcntl_flag = 0\<rparr>"

definition io_answer :: io where
  "io_answer = io_request\<lparr>send_ret := (\<lambda>d. int (length (ok_head 2))), sendfile_ret := (\<lambda>d. 2)\<rparr>"

lemma sample_head: "ok_head (Suc (Suc 0)) = ok_head 2"
  by (simp add: numeral_2_eq_2)

lemma sample_exchange: "exchange_ok 5 (io_request, io_answer, [104, 105])"
proof -
  have q: "sample_request = get_line (chars ''a.txt'') (chars ''HTTP/1.1'') @ CR # LF # []" "length sample_request = 21"
    "length (get_line (chars ''a.txt'') (chars ''HTTP/1.1'')) = 19"
    by (simp_all add: sample_request_def get_line_def GET_def chars_def)
  have p: "plain (chars ''a.txt'')" "blank \<notin> set (chars ''a.txt'')" "plain (chars ''HTTP/1.1'')"
    by (simp_all add: plain_def chars_def CR_def blank_def)
  have "sample_files (web_root @ chars ''a.txt'') = Some (Regular [104, 105])" by (simp add: sample_files_def)
  moreover have "length [104 :: u8, 105] = 2" "(2::nat) < 2 ^ 63" "length sample_request < BUFFER_LENGTH"
    using q(2) by (simp_all add: BUFFER_LENGTH_def)
  ultimately show ?thesis unfolding exchange_ok_def prod.case using p q
    by (intro exI [of _ sample_request] exI [of _ "chars ''a.txt''"] exI [of _ "chars ''HTTP/1.1''"] exI [of _ "[]"])
      (simp only: io_request_def io_answer_def io.simps, simp)
qed


theorem web_main_start_fails_witness:
  "web_main None True 4 (True, True) ample [\<lparr>socket_ret = - 1, listen_ret = - 1\<rparr>] [] = None"
  using web_main_start_fails [of "[\<lparr>socket_ret = - 1, listen_ret = - 1\<rparr>]" None 4 "(True, True)" ample "[]"] by simp

end
