(* ===== verification/Cpool_Program.thy ===== *)
theory Cpool_Program
  imports Cpool_Correct
begin

text \<open>
  The rest of \<open>pool/thread_pool.c\<close>: the functions that take a thread out of the pool, and the program that tries the pool out,
  with the turns that the workers get between its two calls of \<open>add_task\<close> and after them.
\<close>

section \<open>Removing threads\<close>

definition pop_thread :: "(qnode \<Rightarrow> ptr) \<Rightarrow> 'f tpool \<Rightarrow> (ptr \<times> 'f tpool) option" where
  "pop_thread stale s = do { (entity, q) \<leftarrow> queue_pop stale (threadq s); Some (entity, s\<lparr>threadq := q\<rparr>) }"

definition del_thread :: "ptr \<Rightarrow> 'f tpool \<Rightarrow> 'f tpool option" where
  "del_thread entity s =
     (if entity = NULL then Some s
      else do { b \<leftarrow> entities s entity; Some (s\<lparr>entities := (entities s)(entity := None)\<rparr>) })"

text \<open>Nothing stops the thread: its next look at its flag reads freed memory.\<close>

lemma del_thread_dangles:
  assumes "entities s w = Some False" "w \<noteq> NULL"
  shows "\<exists>s'. del_thread w s = Some s' \<and> thread_task_cycle stale w s' = None"
  using assms by (simp add: del_thread_def thread_task_cycle_def)

section \<open>The program\<close>

datatype func = Task_func1 | Task_func2

fun print_loop :: "string \<Rightarrow> nat \<Rightarrow> string list" where
  "print_loop l 0 = []"
| "print_loop l (Suc n) = l # print_loop l n"

definition task_func1 :: "string list" where "task_func1 = print_loop ''I am task_func1'' 5"
definition task_func2 :: "string list" where "task_func2 = print_loop ''I am task_func2'' 5"

definition task_lines :: "func \<Rightarrow> string list" where
  "task_lines f = (case f of Task_func1 \<Rightarrow> task_func1 | Task_func2 \<Rightarrow> task_func2)"

text \<open>\<open>argc\<close> is the number that \<open>atoi\<close> reads from the argument, if there is one; the result are the lines printed by the
  tasks. The pool is used without a look at the result of its set-up.\<close>

definition cpool_main :: "(nat \<Rightarrow> ptr) \<Rightarrow> nat option \<Rightarrow> ptr list \<Rightarrow> ptr list \<Rightarrow> string list option" where
  "cpool_main mal argc ws1 ws2 = do {
     let thread_size = (case argc of None \<Rightarrow> 1 | Some n \<Rightarrow> n);
     (ret, pool) \<leftarrow> thread_pool_setup mal thread_size;
     s \<leftarrow> pool;
     (ret, s) \<leftarrow> add_task mal Task_func1 NULL s;
     s \<leftarrow> turns data ws1 s;
     (ret, s) \<leftarrow> add_task mal Task_func2 NULL s;
     s \<leftarrow> turns data ws2 s;
     Some (concat (map (\<lambda>(f, a). task_lines f) (handled s)))
   }"

section \<open>The property\<close>

text \<open>The task queue when a worker takes the only task, before another one is added: as it was made, with the first node, without
  it, with the second node, without it, and without the head node.\<close>

definition quick :: "ptr \<Rightarrow> (ptr \<rightharpoonup> qnode) \<Rightarrow> queue" where
  "quick h m = \<lparr>qhead = h, nodes = m\<rparr>"

lemma quick_pops:
  assumes "p \<noteq> h" "p' \<noteq> h" "p \<noteq> NULL" "p' \<noteq> NULL"
  shows "queue_push p d (quick h [h \<mapsto> \<lparr>prev = h, nxt = h, data = NULL\<rparr>]) =
      Some (0, quick h [h \<mapsto> \<lparr>prev = p, nxt = p, data = NULL\<rparr>, p \<mapsto> \<lparr>prev = p, nxt = p, data = d\<rparr>])"
    "queue_is_empty (quick h [h \<mapsto> \<lparr>prev = p, nxt = p, data = NULL\<rparr>, p \<mapsto> \<lparr>prev = p, nxt = p, data = d\<rparr>]) = Some False"
    "queue_pop data (quick h [h \<mapsto> \<lparr>prev = p, nxt = p, data = NULL\<rparr>, p \<mapsto> \<lparr>prev = p, nxt = p, data = d\<rparr>]) =
      Some (d, quick h [h \<mapsto> \<lparr>prev = p, nxt = h, data = NULL\<rparr>])"
    "queue_is_empty (quick h [h \<mapsto> \<lparr>prev = p, nxt = h, data = NULL\<rparr>]) = Some False"
    "queue_pop data (quick h [h \<mapsto> \<lparr>prev = p, nxt = h, data = NULL\<rparr>]) = None"
    "queue_push p' d' (quick h [h \<mapsto> \<lparr>prev = p, nxt = h, data = NULL\<rparr>]) =
      Some (0, quick h [h \<mapsto> \<lparr>prev = p', nxt = p', data = NULL\<rparr>, p' \<mapsto> \<lparr>prev = h, nxt = h, data = d'\<rparr>])"
    "queue_is_empty (quick h [h \<mapsto> \<lparr>prev = p', nxt = p', data = NULL\<rparr>, p' \<mapsto> \<lparr>prev = h, nxt = h, data = d'\<rparr>]) = Some False"
    "queue_pop data (quick h [h \<mapsto> \<lparr>prev = p', nxt = p', data = NULL\<rparr>, p' \<mapsto> \<lparr>prev = h, nxt = h, data = d'\<rparr>]) =
      Some (d', quick h [h \<mapsto> \<lparr>prev = h, nxt = p', data = NULL\<rparr>])"
    "queue_is_empty (quick h [h \<mapsto> \<lparr>prev = h, nxt = p', data = NULL\<rparr>]) = Some False"
    "queue_pop data (quick h [h \<mapsto> \<lparr>prev = h, nxt = p', data = NULL\<rparr>]) = Some (NULL, quick h Map.empty)"
    "queue_is_empty (quick h Map.empty) = None"
  using assms
  by (auto simp: quick_def queue_push_def queue_pop_def queue_is_empty_def set_prev_def set_nxt_def get_prev_def get_nxt_def
      Let_def fun_eq_iff)

text \<open>The states when no worker gets a turn before both tasks are added.\<close>

lemma batch_states:
  assumes "fresh_alloc mal" "new_pool mal n (s :: func tpool)" "{v, w} \<subseteq> dom (entities s)"
  shows "\<exists>s1 s2 s3. add_task mal Task_func1 NULL s = Some (0, s1) \<and> add_task mal Task_func2 NULL s1 = Some (0, s2) \<and>
    turns data [v, w] s2 = Some s3 \<and> handled s3 = [(Task_func1, NULL), (Task_func2, NULL)]"
proof -
  have h: "handled s = []" and u: "\<forall>u \<in> {v, w}. entities s u = Some False" using assms(2,3) by (auto simp: new_pool_def)
  obtain s1 x1 where s1: "add_task mal Task_func1 NULL s = Some (0, s1)" "tasks_ok mal s1 [x1] [(Task_func1, NULL)]"
    "entities s1 = entities s" "handled s1 = handled s"
    using add_task_ok [OF assms(1) new_pool_tasks_ok [OF assms(2)], of Task_func1 NULL] by auto
  obtain s2 x2 where s2: "add_task mal Task_func2 NULL s1 = Some (0, s2)"
    "tasks_ok mal s2 [x1, x2] [(Task_func1, NULL), (Task_func2, NULL)]" "entities s2 = entities s" "handled s2 = []"
    using add_task_ok [OF assms(1) s1(2), of Task_func2 NULL] s1(3,4) h by auto
  have "draining (taskq s2) [x1, x2]" using qb.turn [of "taskq s2" "[x1, x2]"] s2(2) by (simp add: tasks_ok_def)
  moreover have "holds_tasks s2 [x1, x2] [(Task_func1, NULL), (Task_func2, NULL)]" using s2(2) by (simp add: tasks_ok_def)
  ultimately obtain s' where "turns data [v, w] s2 = Some s'" "handled s' = [(Task_func1, NULL), (Task_func2, NULL)]"
    using turns_draining [of s2 "[x1, x2]" "[(Task_func1, NULL), (Task_func2, NULL)]" "[v, w]"] s2(3,4) u by auto
  then show ?thesis using s1(1) s2(1) by blast
qed

text \<open>The states when one takes the first task: it, then a second turn or the second task, and the turns after that.\<close>

lemma quick_states:
  assumes "fresh_alloc mal" "new_pool mal n (s :: func tpool)"
  shows "\<exists>s1 s2 s3 s4 s5. add_task mal Task_func1 NULL s = Some (0, s1) \<and> add_task mal Task_func2 NULL s2 = Some (0, s3) \<and>
    handled s4 = [(Task_func1, NULL), (Task_func2, NULL)] \<and>
    (\<forall>u \<in> dom (entities s). thread_task_cycle data u s1 = Some (True, s2) \<and> thread_task_cycle data u s2 = None \<and>
       thread_task_cycle data u s3 = Some (True, s4) \<and> thread_task_cycle data u s4 = Some (True, s5) \<and>
       thread_task_cycle data u s5 = None)"
proof -
  let ?m = "\<lambda>i. mal (mallocs s + i)" let ?h = "mal 1"
  have w: "\<forall>u \<in> dom (entities s). entities s u = Some False" and h: "handled s = []" using assms(2) by (simp_all add: new_pool_def)
  have ne: "?m 1 \<noteq> ?h" "?m 3 \<noteq> ?h" "?m 1 \<noteq> NULL" "?m 3 \<noteq> NULL" "?m 0 \<noteq> NULL" "?m 2 \<noteq> NULL" "?h \<noteq> NULL" "?m 0 \<noteq> ?m 2"
    using assms by (simp_all add: new_pool_def fresh_alloc_def inj_eq)
  have tq: "taskq s = quick ?h [?h \<mapsto> \<lparr>prev = ?h, nxt = ?h, data = NULL\<rparr>]" using assms(2) by (simp add: new_pool_def quick_def)
  note q = quick_pops [OF ne(1,2,3,4)]
  define s1 where "s1 = s\<lparr>tasks := (tasks s)(?m 0 \<mapsto> \<lparr>handler = Task_func1, arg = NULL\<rparr>), mallocs := mallocs s + 2,
    taskq := quick ?h [?h \<mapsto> \<lparr>prev = ?m 1, nxt = ?m 1, data = NULL\<rparr>, ?m 1 \<mapsto> \<lparr>prev = ?m 1, nxt = ?m 1, data = ?m 0\<rparr>]\<rparr>"
  define s2 where "s2 = s1\<lparr>taskq := quick ?h [?h \<mapsto> \<lparr>prev = ?m 1, nxt = ?h, data = NULL\<rparr>], handled := [(Task_func1, NULL)],
    tasks := (tasks s)(?m 0 := None)\<rparr>"
  define s3 where "s3 = s2\<lparr>tasks := (tasks s2)(?m 2 \<mapsto> \<lparr>handler = Task_func2, arg = NULL\<rparr>), mallocs := mallocs s + 4,
    taskq := quick ?h [?h \<mapsto> \<lparr>prev = ?m 3, nxt = ?m 3, data = NULL\<rparr>, ?m 3 \<mapsto> \<lparr>prev = ?h, nxt = ?h, data = ?m 2\<rparr>]\<rparr>"
  define s4 where "s4 = s3\<lparr>taskq := quick ?h [?h \<mapsto> \<lparr>prev = ?h, nxt = ?m 3, data = NULL\<rparr>],
    handled := [(Task_func1, NULL), (Task_func2, NULL)], tasks := (tasks s2)(?m 2 := None)\<rparr>"
  define s5 where "s5 = s4\<lparr>taskq := quick ?h Map.empty\<rparr>"
  note defs = thread_task_cycle_def is_empty_taskq_def pop_taskq_def del_task_def
  have 1: "add_task mal Task_func1 NULL s = Some (0, s1)"
    using ne q(1) by (simp add: add_task_def push_taskq_def malloc_def tq s1_def)
  have 2: "\<forall>u \<in> dom (entities s). thread_task_cycle data u s1 = Some (True, s2)"
    using q(2,3) w h ne by (simp add: defs s1_def s2_def)
  have 3: "\<forall>u \<in> dom (entities s). thread_task_cycle data u s2 = None"
    using q(4,5) w by (simp add: defs s1_def s2_def)
  have 4: "add_task mal Task_func2 NULL s2 = Some (0, s3)"
    using ne q(6) by (simp add: add_task_def push_taskq_def malloc_def s1_def s2_def s3_def eval_nat_numeral)
  have 5: "\<forall>u \<in> dom (entities s). thread_task_cycle data u s3 = Some (True, s4)"
    using q(7,8) w ne by (simp add: defs s1_def s2_def s3_def s4_def)
  have 6: "\<forall>u \<in> dom (entities s). thread_task_cycle data u s4 = Some (True, s5)"
    using q(9,10) w by (simp add: defs s1_def s2_def s3_def s4_def s5_def)
  have 7: "\<forall>u \<in> dom (entities s). thread_task_cycle data u s5 = None"
    using q(11) w by (simp add: defs s1_def s2_def s3_def s4_def s5_def)
  have "handled s4 = [(Task_func1, NULL), (Task_func2, NULL)]" by (simp add: s4_def)
  then show ?thesis using 1 2 3 4 5 6 7 by blast
qed



end
