(* ===== verification/Mmpool_Program.thy ===== *)
theory Mmpool_Program
  imports Mmpool_Correct
begin

text \<open>
  The program at the end of \<open>pool/mmpool.c\<close>: small blocks, cleared blocks and large blocks from one
  pool, a reset, small blocks again, and the end of the pool. The pool's own invariant, the alignment
  of its nodes and the room left in the first of them carry it through; at the end no block
  is left.
\<close>

section \<open>The program\<close>

datatype mp_out = Aligned u64 u64 | Calloc_wrong | Calloc_success

text \<open>\<open>for (i = 0; i < k; i ++) mp_alloc (p, n)\<close>\<close>

primrec alloc_times :: "mp_env \<Rightarrow> u64 \<Rightarrow> u64 \<Rightarrow> nat \<Rightarrow> mp_heap \<Rightarrow> mp_heap option" where
  "alloc_times e p n 0 s = Some s"
| "alloc_times e p n (Suc k) s = do { (mp, s) \<leftarrow> mp_alloc e p n s; alloc_times e p n k s }"

text \<open>
  The byte at \<open>a\<close>: what \<open>memset\<close> put there, or what the memory held before (\<open>mem\<close>); the program
  itself writes nothing.
\<close>

definition read_byte :: "(u64 \<Rightarrow> u8) \<Rightarrow> mp_heap \<Rightarrow> u64 \<Rightarrow> u8" where
  "read_byte mem s a = (if list_ex (\<lambda>(q, n). a - q < n) (zeroed s) then 0 else mem a)"

definition calloc_check :: "(u64 \<Rightarrow> u8) \<Rightarrow> mp_heap \<Rightarrow> u64 \<Rightarrow> mp_out list option" where
  "calloc_check mem s pp =
     (if pp = 0 then None
      else Some (concat (map (\<lambda>j. (if read_byte mem s (pp + of_nat j) \<noteq> 0 then [Calloc_wrong] else []) @
        [Calloc_success]) [0..<32])))"

primrec calloc_times ::
  "mp_env \<Rightarrow> (u64 \<Rightarrow> u8) \<Rightarrow> u64 \<Rightarrow> nat \<Rightarrow> mp_heap \<Rightarrow> (mp_out list \<times> mp_heap) option" where
  "calloc_times e mem p 0 s = Some ([], s)"
| "calloc_times e mem p (Suc k) s = do {
     (pp, s) \<leftarrow> mp_calloc e p 32 s;
     os \<leftarrow> calloc_check mem s pp;
     (os', s) \<leftarrow> calloc_times e mem p k s;
     Some (os @ os', s)
   }"

primrec large_times :: "mp_env \<Rightarrow> u64 \<Rightarrow> nat \<Rightarrow> mp_heap \<Rightarrow> mp_heap option" where
  "large_times e p 0 s = Some s"
| "large_times e p (Suc k) s = do {
     (l, s) \<leftarrow> mp_alloc e p 8192 s;
     s \<leftarrow> mp_free p l s;
     large_times e p k s
   }"

definition mmpool_main :: "mp_env \<Rightarrow> (u64 \<Rightarrow> u8) \<Rightarrow> u64 \<Rightarrow> mp_heap \<Rightarrow> (mp_out list \<times> mp_heap) option" where
  "mmpool_main e mem junk s = (
     let (p, s) = mp_create_pool e (push_bit 12 1) junk s in do {
       s \<leftarrow> alloc_times e p 512 10 s;
       (os, s) \<leftarrow> calloc_times e mem p 5 s;
       s \<leftarrow> large_times e p 5 s;
       s \<leftarrow> mp_reset_pool p s;
       s \<leftarrow> alloc_times e p 256 58 s;
       s \<leftarrow> mp_destory_pool p s;
       Some (Aligned (mp_align 24 32) (mp_align 17 32) # os, s)
     })"

section \<open>What an allocation does\<close>

lemma mp_alloc_effect:
  assumes inv: "pool_inv s pool ns ps rs" and env: "env_ok e" and P: "pools s pool = Some P"
    and n: "n \<le> max_size P" and fit: "\<forall>a\<in>set ns. fits (nodes s) a"
  obtains (fail) k where "mp_alloc e pool n s = Some (0, s)" "unat k = ps" "memalign e s MP_ALIGNMENT k = 0"
  | (bump) a x m where "a \<in> set ns" "nodes s a = Some x" "m = mp_align_ptr (last_ptr x) MP_ALIGNMENT"
      "unat m + unat n \<le> unat (end_ptr x)" "m \<noteq> 0" "mp_alloc e pool n s = Some (m, bump a (m + n) s)"
      "pool_inv (bump a (m + n) s) pool ns ps ((unat m, unat n) # rs)"
  | (new) q s' where "mp_alloc e pool n s = Some (q + 32, s')" "block_added s pool ns ps n q s'"
      "pool_inv s' pool (ns @ [q]) ps ((unat (q + 32), unat n) # rs)"
proof -
  have n32: "unat n + 32 \<le> ps" using inv P n by (auto simp: pool_inv_def word_le_nat_alt)
  from pool_current [OF inv P] obtain bs where
    bs: "chain (nodes s) (current P) (current P # bs)" "set (current P # bs) \<subseteq> set ns" by auto
  have "\<forall>a\<in>set (current P # bs). fits (nodes s) a" using fit bs(2) by auto
  from alloc_loop_spec [OF bs(1) this, of n] show thesis
  proof (elim disjE bexE exE conjE)
    assume "alloc_loop (current P) n s = Some (None, s)"
    then have "mp_alloc e pool n s = mp_alloc_block e pool n s"
      using P n by (subst mp_alloc_eq) simp
    with alloc_block_effect [OF inv env n32] show thesis by (metis fail new)
  next
    fix a and x :: mp_node_s
    let ?m = "mp_align_ptr (last_ptr x) MP_ALIGNMENT"
    assume a: "a \<in> set (current P # bs)" "nodes s a = Some x"
      "unat ?m + unat n \<le> unat (end_ptr x)"
      and r: "alloc_loop (current P) n s = Some (Some ?m, bump a (?m + n) s)"
    have ns: "a \<in> set ns" using a(1) bs(2) by blast
    have le: "unat (last_ptr x) \<le> unat ?m"
      using fit ns a(2) by (auto simp: fits_def word_le_nat_alt)
    have "32 \<le> unat (last_ptr x)" using inv ns a(2) by (auto simp: pool_inv_def node_ok_def)
    with le have "?m \<noteq> 0" by auto
    moreover have "mp_alloc e pool n s = Some (?m, bump a (?m + n) s)"
      using P n r by (subst mp_alloc_eq) simp
    ultimately show thesis using bump [OF ns a(2) refl a(3)] pool_inv_bump [OF inv ns a(2) le a(3)] by blast
  qed
qed

section \<open>The state between two steps of the program\<close>

text \<open>
  \<open>sound s pool ns ls X\<close>: the pool of 4096 bytes has the nodes \<open>ns\<close>, each aligned, and the large blocks
  \<open>ls\<close>, and these and \<open>X\<close> are all blocks there are.
\<close>

definition sound :: "mp_heap \<Rightarrow> u64 \<Rightarrow> u64 list \<Rightarrow> (u64 \<times> u64) list \<Rightarrow> u64 set \<Rightarrow> bool" where
  "sound s pool ns ls X \<longleftrightarrow> (\<exists>rs. pool_inv s pool ns 4128 rs) \<and> larges_inv s pool ns ls \<and>
     unat pool mod 32 = 0 \<and> (\<forall>a\<in>set (tl ns). unat a mod 32 = 0) \<and>
     (\<exists>P. pools s pool = Some P \<and> max_size P = 4095) \<and>
     dom (blocks s) = insert pool (set (tl ns) \<union> set (held ls) \<union> X) \<and>
     X \<inter> insert pool (set (tl ns)) = {}"

text \<open>
  \<open>tidy Q s pool ns\<close>: every node but the first has used a multiple of 32 bytes, and how much the first has,
  counted from the start of the pool, satisfies \<open>Q\<close>.
\<close>

definition tidy :: "(nat \<Rightarrow> bool) \<Rightarrow> mp_heap \<Rightarrow> u64 \<Rightarrow> u64 list \<Rightarrow> bool" where
  "tidy Q s pool ns \<longleftrightarrow>
     (\<forall>a\<in>set (tl ns). \<exists>x. nodes s a = Some x \<and> unat (last_ptr x) mod 32 = 0) \<and>
     (\<exists>x. nodes s (head pool) = Some x \<and> Q (unat (last_ptr x) - unat pool))"

definition up32 :: "nat \<Rightarrow> nat" where "up32 k = (k + 31) div 32 * 32"

definition usual :: "(nat \<Rightarrow> bool) \<Rightarrow> bool" where
  "usual Q \<longleftrightarrow> (\<forall>k. Q k \<longrightarrow> k = 56 \<or> k mod 32 = 0)"

lemma sound_nodes:
  assumes "sound s pool ns ls X"
  shows "ns = head pool # tl ns" "head pool \<notin> set (tl ns)" "unat (head pool) = unat pool + 24"
    "pool \<noteq> 0" "ns \<noteq> []" "head pool \<in> set ns" "set (tl ns) \<subseteq> set ns"
  using assms by (cases ns; auto simp: sound_def pool_inv_def)+

lemma tail_align:
  assumes "node_ok h 4128 a" "h a = Some x" "unat a mod 32 = 0" "unat (last_ptr x) mod 32 = 0"
  shows "mp_align_ptr (last_ptr x) MP_ALIGNMENT = last_ptr x" "fits h a"
proof -
  obtain j k where jk: "unat a = 32 * j" "unat (last_ptr x) = 32 * k"
    using assms(3,4) by (auto elim!: dvdE)
  have "32 * k \<le> 32 * j + 4128" "32 * j + 4128 < 18446744073709551616"
    using assms(1,2) jk unat_less_pow64 [of "end_ptr x"]
    by (auto simp: node_ok_def simp del: unat_less_pow64)
  then have "32 * k + 31 < 18446744073709551616" by presburger
  then show "mp_align_ptr (last_ptr x) MP_ALIGNMENT = last_ptr x"
    using unat_mp_align_ptr [of "last_ptr x"] jk by (simp add: word_unat_eq_iff)
  with assms(1,2) show "fits h a" by (auto simp: fits_def node_ok_def word_le_nat_alt)
qed

lemma head_align:
  assumes "sound s pool ns ls X" "nodes s (head pool) = Some x" "Q (unat (last_ptr x) - unat pool)" "usual Q"
  shows "unat (mp_align_ptr (last_ptr x) MP_ALIGNMENT) = unat pool + up32 (unat (last_ptr x) - unat pool)"
    "fits (nodes s) (head pool)" "unat (end_ptr x) = unat pool + 4152"
proof -
  have "node_ok (nodes s) 4128 (head pool)"
    using assms(1) sound_nodes [OF assms(1)]
    by (metis list.set_intros(1) pool_inv_def sound_def)
  then have x: "unat pool + 56 \<le> unat (last_ptr x)" "unat (last_ptr x) \<le> unat pool + 4152"
    "unat (end_ptr x) = unat pool + 4152"
    using assms(2) sound_nodes(3) [OF assms(1)] by (auto simp: node_ok_def)
  obtain j where j: "unat pool = 32 * j" using assms(1) by (auto simp: sound_def elim!: dvdE)
  obtain k where k: "unat (last_ptr x) = 32 * j + k" "56 \<le> k" "k \<le> 4152"
    by (rule that [of "unat (last_ptr x) - 32 * j"]) (use x(1,2) j in auto)
  have k32: "k = 56 \<or> k mod 32 = 0" using assms(3,4) j k(1) by (simp add: usual_def)
  have room: "32 * j + 4152 < 18446744073709551616"
    using x(3) j unat_less_pow64 [of "end_ptr x"] by (simp del: unat_less_pow64)
  have "unat (last_ptr x) + 31 < 18446744073709551616" using room k k32 by presburger
  moreover have "(32 * j + k + 31) div 32 * 32 = 32 * j + (k + 31) div 32 * 32"
  proof -
    have "32 * j + k + 31 = k + 31 + 32 * j" by simp
    also have "\<dots> div 32 = j + (k + 31) div 32" by (rule div_mult_self2) simp
    finally show ?thesis by (simp add: add_mult_distrib)
  qed
  ultimately show
    al: "unat (mp_align_ptr (last_ptr x) MP_ALIGNMENT) = unat pool + up32 (unat (last_ptr x) - unat pool)"
    using unat_mp_align_ptr [of "last_ptr x"] by (simp add: k(1) j up32_def)
  have "k \<le> up32 k \<and> up32 k \<le> 4152"
    using k32 k(3) by (auto simp: up32_def elim!: dvdE)
  with assms(2) al x(3) k(1) j show "fits (nodes s) (head pool)"
    by (simp add: fits_def word_le_nat_alt)
  show "unat (end_ptr x) = unat pool + 4152" by (rule x(3))
qed

lemma tidy_fits:
  assumes "sound s pool ns ls X" "tidy Q s pool ns" "usual Q"
  shows "\<forall>a\<in>set ns. fits (nodes s) a"
proof
  fix a assume "a \<in> set ns"
  then consider "a = head pool" | "a \<in> set (tl ns)" using sound_nodes(1) [OF assms(1)] by (metis set_ConsD)
  then show "fits (nodes s) a"
  proof cases
    case 1
    with head_align(2) [OF assms(1) _ _ assms(3)] assms(2) show ?thesis by (auto simp: tidy_def)
  next
    case 2
    moreover have "node_ok (nodes s) 4128 a"
      using assms(1) \<open>a \<in> set ns\<close> by (auto simp: sound_def pool_inv_def)
    ultimately show ?thesis
      using assms(1,2) tail_align(2) [of "nodes s" a] by (auto simp: sound_def tidy_def)
  qed
qed

text \<open>\<open>after Q n Q'\<close>: taking \<open>n\<close> bytes from the first node leads from \<open>Q\<close> to \<open>Q'\<close>.\<close>

definition after :: "(nat \<Rightarrow> bool) \<Rightarrow> nat \<Rightarrow> (nat \<Rightarrow> bool) \<Rightarrow> bool" where
  "after Q n Q' \<longleftrightarrow> n mod 32 = 0 \<and> (\<forall>k. Q k \<longrightarrow> Q' k \<and> (up32 k + n \<le> 4152 \<longrightarrow> Q' (up32 k + n)))"

lemma tidy_weaken: "tidy Q s pool ns \<Longrightarrow> after Q n Q' \<Longrightarrow> tidy Q' s pool ns"
  by (auto simp: tidy_def after_def)

lemma tidy_bump:
  assumes s: "sound s pool ns ls X" and Q: "tidy Q s pool ns" "usual Q" "after Q (unat n) Q'"
    and a: "a \<in> set ns" "nodes s a = Some x" and m: "m = mp_align_ptr (last_ptr x) MP_ALIGNMENT"
    and room: "unat m + unat n \<le> unat (end_ptr x)"
  shows "tidy Q' (bump a (m + n) s) pool ns"
proof -
  have mn: "unat (m + n) = unat m + unat n"
    by (rule unat_add64) (use le_less_trans [OF room unat_less_pow64] in simp)
  have n32: "unat n mod 32 = 0" using Q(3) by (simp add: after_def)
  note w = tidy_weaken [OF Q(1,3)]
  consider "a = head pool" | "a \<in> set (tl ns)" "a \<noteq> head pool"
    using a(1) sound_nodes(1,2) [OF s] by (metis set_ConsD)
  then show ?thesis
  proof cases
    case 1
    then have k: "Q (unat (last_ptr x) - unat pool)" using Q(1) a(2) by (auto simp: tidy_def)
    note h = head_align [OF s, OF a(2) [unfolded 1] k Q(2)]
    have "Q' (up32 (unat (last_ptr x) - unat pool) + unat n)"
      using Q(3) k room h(3) unfolding m h(1) after_def by simp
    with w 1 mn m h(1) a(2) sound_nodes(2) [OF s] show ?thesis by (auto simp: tidy_def bump_def)
  next
    case 2
    have "unat (m + n) mod 32 = 0"
      using mn n32 mp_align_ptr_multiple [of "last_ptr x"] m by (simp add: mod_add_eq [symmetric])
    with w 2 a(2) show ?thesis by (auto simp: tidy_def bump_def)
  qed
qed

lemma tidy_added:
  assumes s: "sound s pool ns ls X" and Q: "tidy Q s pool ns" "after Q (unat n) Q'"
    and b: "block_added s pool ns 4128 n q s'"
  shows "tidy Q' s' pool (ns @ [q])"
proof -
  note ns = sound_nodes(5-7) [OF s]
  have same: "\<exists>y. nodes s' a = Some y \<and> last_ptr y = last_ptr x"
    if "a \<in> set ns" "nodes s a = Some x" for a x
    using b that by (force simp: block_added_def)
  have "unat (q + 32 + n) mod 32 = 0"
    using b Q(2) by (simp add: block_added_def after_def mod_add_eq [symmetric])
  moreover obtain y where "nodes s' q = Some y" "last_ptr y = q + 32 + n"
    using b by (auto simp: block_added_def)
  moreover have "\<exists>y. nodes s' a = Some y \<and> unat (last_ptr y) mod 32 = 0" if a: "a \<in> set (tl ns)" for a
  proof -
    obtain x where x: "nodes s a = Some x" "unat (last_ptr x) mod 32 = 0"
      using Q(1) a by (auto simp: tidy_def)
    have "a \<in> set ns" using a ns(3) by blast
    from same [OF this x(1)] x(2) show ?thesis by auto
  qed
  moreover have "\<exists>y. nodes s' (head pool) = Some y \<and> Q' (unat (last_ptr y) - unat pool)"
  proof -
    obtain x where x: "nodes s (head pool) = Some x" "Q' (unat (last_ptr x) - unat pool)"
      using tidy_weaken [OF Q] by (auto simp: tidy_def)
    from same [OF ns(2) x(1)] x(2) show ?thesis by auto
  qed
  ultimately show ?thesis using ns(1) by (auto simp: tidy_def)
qed

lemma sound_bump:
  "sound s pool ns ls X \<Longrightarrow> pool_inv (bump a l s) pool ns 4128 rs \<Longrightarrow> sound (bump a l s) pool ns ls X"
  by (auto simp: sound_def larges_inv_def bump_def)

lemma sound_added:
  assumes s: "sound s pool ns ls X" and b: "block_added s pool ns 4128 n q s'"
    and inv: "pool_inv s' pool (ns @ [q]) 4128 rs"
  shows "sound s' pool (ns @ [q]) ls X"
proof -
  have tl: "tl (ns @ [q]) = tl ns @ [q]" using sound_nodes(5) [OF s] by simp
  have "larges_inv s' pool (ns @ [q]) ls"
    using s b unfolding sound_def larges_inv_def tl by (auto simp: block_added_def)
  moreover have "dom (blocks s') = insert q (dom (blocks s))" using b by (auto simp: block_added_def)
  moreover have "\<exists>P. pools s' pool = Some P \<and> max_size P = 4095"
    using s b by (auto simp: sound_def block_added_def)
  moreover have "q \<notin> X" using s b by (auto simp: sound_def block_added_def)
  ultimately show ?thesis
    using s b inv unfolding sound_def tl by (auto simp: block_added_def)
qed

text \<open>One allocation of the program, by \<open>mp_alloc_effect\<close>.\<close>

lemma sound_alloc:
  assumes s: "sound s pool ns ls X" and env: "env_ok e" and n: "n \<le> 4095"
    and Q: "tidy Q s pool ns" "usual Q"
  obtains m s' ns' where "mp_alloc e pool n s = Some (m, s')" "sound s' pool ns' ls X"
    "length ns' \<le> length ns + 1" "larges s' = larges s" "zeroed s' = zeroed s"
    "m = 0 \<Longrightarrow> s' = s \<and> ns' = ns \<and> (\<exists>k. unat k = 4128 \<and> memalign e s MP_ALIGNMENT k = 0)"
    "\<And>Q'. after Q (unat n) Q' \<Longrightarrow> tidy Q' s' pool ns'"
proof -
  obtain rs P where inv: "pool_inv s pool ns 4128 rs" and P: "pools s pool = Some P" "max_size P = 4095"
    using s by (auto simp: sound_def)
  have "n \<le> max_size P" using n P(2) by simp
  from inv env P(1) this tidy_fits [OF s Q] show thesis
  proof (cases rule: mp_alloc_effect)
    case (fail k)
    then show thesis using that [of 0 s ns] s tidy_weaken [OF Q(1)] by auto
  next
    case (bump a x m)
    show thesis
      by (rule that [OF bump(6) sound_bump [OF s bump(7)]])
        (use bump(5) tidy_bump [OF s Q _ bump(1-4)] in \<open>auto simp: bump_def\<close>)
  next
    case (new q s')
    have "q + 32 \<noteq> 0" using new(2) by (auto simp: block_added_def simp flip: unat_eq_zero)
    then show thesis
      by (intro that [OF new(1) sound_added [OF s new(2,3)]])
        (use new(2) tidy_added [OF s Q(1) _ new(2)] in \<open>auto simp: block_added_def\<close>)
  qed
qed

section \<open>The steps of the program\<close>

text \<open>The documented behaviour of \<open>malloc\<close>: a block that is not in use, or a null pointer.\<close>

definition malloc_ok :: "mp_env \<Rightarrow> bool" where
  "malloc_ok e \<longleftrightarrow> (\<forall>s n. let p = sys_malloc e s n in p \<noteq> 0 \<longrightarrow> blocks s p = None)"

text \<open>
  Enough memory: \<open>posix_memalign\<close> does not fail for a small block while fewer than 16 blocks, all of them
  small, are in use.
\<close>

definition has_room :: "mp_env \<Rightarrow> bool" where
  "has_room e \<longleftrightarrow> (\<forall>s n. card (dom (blocks s)) < 16 \<and> (\<forall>q k. blocks s q = Some k \<longrightarrow> unat k \<le> 4152) \<and>
     unat n \<le> 4152 \<longrightarrow> memalign e s MP_ALIGNMENT n \<noteq> 0)"

lemma sound_room:
  assumes s: "sound s pool ns [] {}" and len: "length ns < 16" and e: "has_room e" and n: "unat n \<le> 4152"
  shows "memalign e s MP_ALIGNMENT n \<noteq> 0"
proof -
  have dom: "dom (blocks s) = set (pool # tl ns)" using s by (auto simp: sound_def)
  have "card (dom (blocks s)) \<le> length (pool # tl ns)" unfolding dom by (rule card_length)
  also have "\<dots> = length ns" using sound_nodes(5) [OF s] by (cases ns) auto
  finally have "card (dom (blocks s)) < 16" using len by simp
  moreover have "unat k \<le> 4152" if "blocks s q = Some k" for q k
  proof -
    have "q = pool \<or> q \<in> set (tl ns)" using dom that by auto
    then have "\<exists>k. blocks s q = Some k \<and> unat k \<le> 4152" using s by (force simp: sound_def pool_inv_def)
    with that show ?thesis by auto
  qed
  ultimately show ?thesis using e n unfolding has_room_def by blast
qed

lemma alloc_times_ok:
  assumes "env_ok e" "n \<le> 4095" "usual Q" "after Q (unat n) Q"
    and "sound s pool ns ls {}" "tidy Q s pool ns"
  shows "\<exists>s' ns'. alloc_times e pool n k s = Some s' \<and> sound s' pool ns' ls {} \<and> tidy Q s' pool ns' \<and>
    length ns' \<le> length ns + k"
  using assms(5,6)
proof (induction k arbitrary: s ns)
  case (Suc k)
  from Suc.prems(1) assms(1,2) Suc.prems(2) assms(3) obtain m s' ns' where
    a: "mp_alloc e pool n s = Some (m, s')" "sound s' pool ns' ls {}" "length ns' \<le> length ns + 1"
      "tidy Q s' pool ns'"
    by (rule sound_alloc) (use assms(4) in blast)
  from Suc.IH [OF a(2,4)] a(1,3) show ?case by fastforce
qed auto

text \<open>
  \<open>filled i\<close>: how much of the first node is in use after the blocks of 512 bytes, of which it has seven at
  most, and \<open>i\<close> cleared blocks.
\<close>

definition sevenths :: "nat \<Rightarrow> bool" where
  "sevenths k \<longleftrightarrow> k = 56 \<or> (\<exists>j\<le>7. k = 64 + 512 * j)"

definition filled :: "nat \<Rightarrow> nat \<Rightarrow> bool" where
  "filled i k \<longleftrightarrow> k = 56 \<or> k mod 32 = 0 \<and> k \<le> 3648 + 32 * i"

definition tidied :: "nat \<Rightarrow> bool" where
  "tidied k \<longleftrightarrow> k = 56 \<or> k mod 32 = 0"

lemma up32_simps [simp]: "up32 56 = 64" "k mod 32 = 0 \<Longrightarrow> up32 k = k"
  by (auto simp: up32_def elim!: dvdE)

lemma sevenths_after: "usual sevenths" "after sevenths 512 sevenths"
proof -
  have m: "(64 + 512 * j) mod 32 = 0" for j :: nat by (simp add: mod_add_eq [symmetric] mod_mult_left_eq [symmetric])
  then show "usual sevenths" by (auto simp: usual_def sevenths_def)
  have "sevenths (64 + 512 * j + 512)" if "64 + 512 * j + 512 \<le> 4152" for j
    unfolding sevenths_def by (rule disjI2, rule exI [of _ "Suc j"]) (use that in simp)
  moreover have "sevenths 576" unfolding sevenths_def by (rule disjI2, rule exI [of _ 1]) simp
  ultimately show "after sevenths 512 sevenths" using m
    by (auto simp: after_def sevenths_def [of "_ :: nat"] simp del: mod_add_self2)
qed

lemma filled_after: "usual (filled i)" "after (filled i) 32 (filled (Suc i))"
  by (auto simp: usual_def after_def filled_def)

lemma sevenths_filled: "tidy sevenths s pool ns \<Longrightarrow> tidy (filled 0) s pool ns"
  by (auto simp: tidy_def sevenths_def filled_def)

lemma tidied_after: "usual tidied" "after tidied 256 tidied"
  by (auto simp: usual_def after_def tidied_def mod_add_eq [symmetric])

lemma sound_zeroed [simp]:
  "sound (s\<lparr>zeroed := z\<rparr>) pool ns ls X = sound s pool ns ls X"
  "tidy Q (s\<lparr>zeroed := z\<rparr>) pool ns = tidy Q s pool ns"
  by (simp_all add: sound_def tidy_def pool_inv_def larges_inv_def)

lemma calloc_check_ok:
  assumes "pp \<noteq> 0" "(pp, 32) \<in> set (zeroed s)"
  shows "calloc_check mem s pp = Some (replicate 32 Calloc_success)"
proof -
  have "read_byte mem s (pp + of_nat j) = 0" if "j < 32" for j
  proof -
    have "(of_nat j :: u64) < 32" using that by (simp add: word_less_nat_alt unat_of_nat64)
    then show ?thesis using assms(2) by (auto simp: read_byte_def list_ex_iff intro!: bexI [of _ "(pp, 32)"])
  qed
  then have "map (\<lambda>j. (if read_byte mem s (pp + of_nat j) \<noteq> 0 then [Calloc_wrong] else []) @ [Calloc_success]) [0..<32] =
      map (\<lambda>j. [Calloc_success]) [0..<32]"
    by (intro map_cong) auto
  also have "concat \<dots> = replicate 32 Calloc_success" by (simp add: upt_rec numeral_eq_Suc)
  finally show ?thesis using assms(1) by (simp only: calloc_check_def if_False)
qed

lemma calloc_times_ok:
  assumes "env_ok e" "has_room e"
    and "sound s pool ns [] {}" "tidy (filled i) s pool ns" "length ns + k \<le> 16"
  shows "\<exists>s' ns'. calloc_times e mem pool k s = Some (replicate (32 * k) Calloc_success, s') \<and>
    sound s' pool ns' [] {} \<and> tidy (filled (i + k)) s' pool ns'"
  using assms(3-5)
proof (induction k arbitrary: i s ns)
  case (Suc k)
  have "(32 :: u64) \<le> 4095" by simp
  from Suc.prems(1) assms(1) this Suc.prems(2) filled_after(1) obtain m s' ns' where
    a: "mp_alloc e pool 32 s = Some (m, s')" "sound s' pool ns' [] {}" "length ns' \<le> length ns + 1"
      "m = 0 \<Longrightarrow> \<exists>k. unat k = 4128 \<and> memalign e s MP_ALIGNMENT k = 0"
      "tidy (filled (Suc i)) s' pool ns'"
    by (rule sound_alloc) (use filled_after(2) [of i] in auto)
  have "m \<noteq> 0"
  proof
    assume "m = 0"
    from a(4) [OF this] obtain k where "unat k = 4128" "memalign e s MP_ALIGNMENT k = 0" by blast
    with sound_room [OF Suc.prems(1) _ assms(2), of k] Suc.prems(3) show False by simp
  qed
  let ?s = "s'\<lparr>zeroed := zeroed s' @ [(m, 32)]\<rparr>"
  have c: "mp_calloc e pool 32 s = Some (m, ?s)" using a(1) \<open>m \<noteq> 0\<close> by (simp add: mp_calloc_def)
  have o: "calloc_check mem ?s m = Some (replicate 32 Calloc_success)"
    by (rule calloc_check_ok) (use \<open>m \<noteq> 0\<close> in simp_all)
  have "length ns' + k \<le> 16" using a(3) Suc.prems(3) by simp
  with Suc.IH [of ?s ns' "Suc i"] a(2,5) obtain s2 ns2 where
    "calloc_times e mem pool k ?s = Some (replicate (32 * k) Calloc_success, s2)"
    "sound s2 pool ns2 [] {}" "tidy (filled (Suc i + k)) s2 pool ns2" by auto
  then show ?case using c o by (auto simp flip: replicate_add)
qed auto

section \<open>The large blocks\<close>

lemma pool_inv_blocks:
  assumes "pool_inv s pool ns ps rs" "pools s pool = Some P" "pools s' pool = Some (P\<lparr>large := l\<rparr>)"
    and "nodes s' = nodes s" "\<forall>a\<in>insert pool (set (tl ns)). blocks s' a = blocks s a"
  shows "pool_inv s' pool ns ps rs"
  using assms by (simp add: pool_inv_def)

lemma sound_blocks:
  assumes s: "sound s pool ns ls X" and P: "pools s pool = Some P" "pools s' pool = Some (P\<lparr>large := l\<rparr>)"
    and n: "nodes s' = nodes s" and b: "\<forall>a\<in>insert pool (set (tl ns)). blocks s' a = blocks s a"
    and l: "larges_inv s' pool ns ls'" and d: "dom (blocks s') = insert pool (set (tl ns) \<union> set (held ls') \<union> X')"
    and X: "X' \<inter> insert pool (set (tl ns)) = {}"
  shows "sound s' pool ns ls' X'"
  using s pool_inv_blocks [OF _ P n b] l d P X by (auto simp: sound_def)

text \<open>\<open>mp_free\<close> of the one large block.\<close>

lemma sound_free:
  assumes "sound s pool ns [(l, p)] {}" "p \<noteq> 0"
  shows "\<exists>s'. mp_free pool p s = Some s' \<and> sound s' pool ns [(l, 0)] {} \<and> nodes s' = nodes s"
proof -
  have li: "larges_inv s pool ns [(l, p)]" using assms(1) by (simp add: sound_def)
  then have p: "p \<noteq> pool" "p \<notin> set (tl ns)" using assms(2) by (auto simp: larges_inv_def)
  from mp_free_spec [OF li, of p] assms(2) obtain s' where
    f: "mp_free pool p s = Some s'" "blocks s' = blocks s |` (- {p})"
      "larges_inv s' pool ns [(l, 0)]" "pools s' = pools s" "nodes s' = nodes s"
    by (auto simp: drop_block_def)
  obtain P where P: "pools s pool = Some P" using assms(1) by (auto simp: sound_def)
  have "sound s' pool ns [(l, 0)] {}"
  proof (rule sound_blocks [OF assms(1) P])
    show "pools s' pool = Some (P\<lparr>large := large P\<rparr>)" using f(4) P by simp
    show "dom (blocks s') = insert pool (set (tl ns) \<union> set (held [(l, 0)]) \<union> {})"
      using f(2) p assms by (auto simp: sound_def)
  qed (use f p in \<open>auto simp: restrict_map_def\<close>)
  with f show ?thesis by blast
qed

text \<open>\<open>free (NULL)\<close>, which the program calls when the large block could not be had.\<close>

lemma sound_free_null:
  assumes "sound s pool ns ls {}" "ls = [] \<or> (\<exists>l. ls = [(l, 0)])"
  shows "mp_free pool 0 s = Some s"
proof -
  obtain P where P: "pools s pool = Some P" "lchain (larges s) (large P) ls"
    using assms(1) by (auto simp: sound_def larges_inv_def)
  have "free_loop (large P) 0 s = Some s"
    using assms(2)
  proof (elim disjE exE)
    assume "ls = []"
    then show ?thesis using P(2) by (subst free_loop.simps) simp
  next
    fix l assume ls: "ls = [(l, 0)]"
    then obtain x where x: "larges s l = Some x" "alloc x = 0" "large P = l" "l \<noteq> 0" using P(2) by auto
    have "x\<lparr>alloc := 0\<rparr> = x" using x(2) by (cases x) simp
    then have "(larges s)(l \<mapsto> x\<lparr>alloc := 0\<rparr>) = larges s" using x(1) by (auto simp: fun_eq_iff)
    then show ?thesis using x by (subst free_loop.simps) (simp add: sys_free_def upd_large_def)
  qed
  then show ?thesis by (simp add: mp_free_def P(1))
qed

definition few_larges :: "mp_heap \<Rightarrow> u64 \<Rightarrow> u64 list \<Rightarrow> (u64 \<times> u64) list \<Rightarrow> bool" where
  "few_larges s pool ns ls \<longleftrightarrow> ls = [] \<and> tidy (filled 5) s pool ns \<or> (\<exists>l. ls = [(l, 0)])"

text \<open>A large block that reuses the one record.\<close>

lemma sound_reuse:
  assumes s: "sound s pool ns [(l, 0)] {}" and e: "malloc_ok e" and p: "sys_malloc e s 8192 = p" "p \<noteq> 0"
  shows "\<exists>s'. mp_alloc e pool 8192 s = Some (p, s') \<and> sound s' pool ns [(l, p)] {}"
proof -
  obtain P x where P: "pools s pool = Some P" "max_size P = 4095" "large P = l" "l \<noteq> 0"
      and x: "larges s l = Some x" "alloc x = 0" "next_large x = 0"
    using s by (auto simp: sound_def larges_inv_def)
  have new: "blocks s p = None" using e p by (auto simp: malloc_ok_def Let_def)
  then have p2: "p \<noteq> pool" "p \<notin> set (tl ns)" using s by (auto simp: sound_def)
  let ?s = "take_block p 8192 s\<lparr>larges := (larges s)(l \<mapsto> x\<lparr>alloc := p\<rparr>)\<rparr>"
  have "mp_alloc e pool 8192 s = Some (p, ?s)"
    using P x p by (subst mp_alloc.simps)
      (simp add: large_begin_def Let_def reuse_loop.simps take_block_def upd_large_def)
  moreover have "sound ?s pool ns [(l, p)] {}"
  proof (rule sound_blocks [OF s P(1)])
    show "pools ?s pool = Some (P\<lparr>large := l\<rparr>)" using P by (simp add: take_block_def)
    show "larges_inv ?s pool ns [(l, p)]"
      using P x p(2) p2 by (simp add: larges_inv_def take_block_def)
    show "dom (blocks ?s) = insert pool (set (tl ns) \<union> set (held [(l, p)]) \<union> {})"
      using s p(2) by (auto simp: sound_def take_block_def)
  qed (use p2 in \<open>auto simp: take_block_def\<close>)
  ultimately show ?thesis by blast
qed

text \<open>The first large block, whose record comes from the pool; without a record the block is returned.\<close>

lemma sound_take:
  assumes "sound s pool ns [] {}" "p \<notin> dom (blocks s)"
  shows "sound (take_block p k s) pool ns [] {p}" "tidy Q (take_block p k s) pool ns = tidy Q s pool ns"
proof -
  obtain P where P: "pools s pool = Some P" using assms(1) by (auto simp: sound_def)
  show "sound (take_block p k s) pool ns [] {p}"
  proof (rule sound_blocks [OF assms(1) P])
    show "pools (take_block p k s) pool = Some (P\<lparr>large := large P\<rparr>)" using P by (simp add: take_block_def)
  qed (use assms in \<open>auto simp: sound_def larges_inv_def take_block_def domIff\<close>)
  show "tidy Q (take_block p k s) pool ns = tidy Q s pool ns" by (simp add: tidy_def take_block_def)
qed

lemma sound_first_large:
  assumes s: "sound s pool ns [] {}" and t: "tidy (filled 5) s pool ns" and env: "env_ok e" "malloc_ok e"
    and p: "sys_malloc e s 8192 = p" "p \<noteq> 0"
  shows "mp_alloc e pool 8192 s = Some (0, s) \<or>
    (\<exists>s' ns' l. mp_alloc e pool 8192 s = Some (p, s') \<and> sound s' pool ns' [(l, p)] {})"
proof -
  obtain P where P: "pools s pool = Some P" "max_size P = 4095" "large P = 0"
    using s by (auto simp: sound_def larges_inv_def)
  have new: "blocks s p = None" using env(2) p by (auto simp: malloc_ok_def Let_def)
  let ?t = "take_block p 8192 s"
  have t0: "sound ?t pool ns [] {p}" "tidy (filled 5) ?t pool ns" using sound_take [OF s, of p] t new by (simp_all add: domIff)
  have "sizeof_large \<le> 4095" by (simp add: sizeof_large_def)
  from t0(1) env(1) this t0(2) filled_after(1) obtain l s' ns' where
    a: "mp_alloc e pool sizeof_large ?t = Some (l, s')" "sound s' pool ns' [] {p}" "larges s' = larges ?t"
      "l = 0 \<Longrightarrow> s' = ?t"
    by (rule sound_alloc) blast
  have b: "large_begin e pool 8192 s = Some (Inr p, ?t)"
    using P p by (simp add: large_begin_def Let_def reuse_loop.simps take_block_def)
  then have code: "mp_alloc e pool 8192 s = large_end pool p l s'"
    using P a(1) by (subst mp_alloc.simps) simp
  show ?thesis
  proof (cases "l = 0")
    case True
    have "(blocks s)(p := None) = blocks s" using new by auto
    then have "large_end pool p 0 ?t = Some (0, s)"
      using p(2) by (simp add: large_end_def sys_free_def take_block_def)
    then show ?thesis using code a(4) True by simp
  next
    case False
    obtain P' where P': "pools s' pool = Some P'" "large P' = 0"
      using a(2) by (auto simp: sound_def larges_inv_def)
    let ?s = "s'\<lparr>larges := (larges s')(l \<mapsto> \<lparr>next_large = 0, alloc = p\<rparr>),
      pools := (pools s')(pool \<mapsto> P'\<lparr>large := l\<rparr>)\<rparr>"
    have "large_end pool p l s' = Some (p, ?s)"
      using False P' by (simp add: large_end_def upd_pool_def Let_def)
    moreover have "sound ?s pool ns' [(l, p)] {}"
    proof (rule sound_blocks [OF a(2) P'(1)])
      have "p \<noteq> pool" "p \<notin> set (tl ns')" "p \<in> dom (blocks s')"
        using a(2) by (auto simp: sound_def)
      then show "larges_inv ?s pool ns' [(l, p)]"
        using False p(2) by (simp add: larges_inv_def)
      show "dom (blocks ?s) = insert pool (set (tl ns') \<union> set (held [(l, p)]) \<union> {})"
        using a(2) p(2) by (auto simp: sound_def)
    qed auto
    ultimately show ?thesis using code by auto
  qed
qed

lemma large_turn:
  assumes s: "sound s pool ns ls {}" and few: "few_larges s pool ns ls" and env: "env_ok e" "malloc_ok e"
  shows "\<exists>m s1 s2 ns2 ls2. mp_alloc e pool 8192 s = Some (m, s1) \<and> mp_free pool m s1 = Some s2 \<and>
    sound s2 pool ns2 ls2 {} \<and> few_larges s2 pool ns2 ls2"
proof -
  let ?p = "sys_malloc e s 8192"
  have null: "mp_free pool 0 s = Some s"
    by (rule sound_free_null [OF s]) (use few in \<open>auto simp: few_larges_def\<close>)
  consider (none) "mp_alloc e pool 8192 s = Some (0, s)"
    | (some) s1 ns1 l where "?p \<noteq> 0" "mp_alloc e pool 8192 s = Some (?p, s1)" "sound s1 pool ns1 [(l, ?p)] {}"
  proof (cases "?p = 0")
    case True
    obtain P where "pools s pool = Some P" "max_size P = 4095" using s by (auto simp: sound_def)
    with True have "mp_alloc e pool 8192 s = Some (0, s)"
      by (subst mp_alloc.simps) (simp add: large_begin_def)
    then show thesis by (rule none)
  next
    case False
    from few consider "ls = []" "tidy (filled 5) s pool ns" | l where "ls = [(l, 0)]"
      by (auto simp: few_larges_def)
    then show thesis
    proof cases
      case 1
      with sound_first_large [OF _ _ env refl False] s none some [OF False] show thesis by blast
    next
      case 2
      with sound_reuse [OF _ env(2) refl False] s some [OF False] show thesis by blast
    qed
  qed
  then show ?thesis
  proof cases
    case none
    with null s few show ?thesis by blast
  next
    case some
    from sound_free [OF some(3,1)] obtain s2 where
      "mp_free pool ?p s1 = Some s2" "sound s2 pool ns1 [(l, 0)] {}" by blast
    moreover have "few_larges s2 pool ns1 [(l, 0)]" by (simp add: few_larges_def)
    ultimately show ?thesis using some(2) by blast
  qed
qed

lemma large_times_ok:
  assumes "env_ok e" "malloc_ok e" and "sound s pool ns ls {}" "few_larges s pool ns ls"
  shows "\<exists>s' ns' ls'. large_times e pool k s = Some s' \<and> sound s' pool ns' ls' {} \<and> few_larges s' pool ns' ls'"
  using assms(3,4)
proof (induction k arbitrary: s ns ls)
  case (Suc k)
  from large_turn [OF Suc.prems assms(1,2)] obtain m s1 s2 ns2 ls2 where
    "mp_alloc e pool 8192 s = Some (m, s1)" "mp_free pool m s1 = Some s2"
    "sound s2 pool ns2 ls2 {}" "few_larges s2 pool ns2 ls2" by blast
  with Suc.IH [OF this(3,4)] show ?case by simp
qed auto

section \<open>The pool at the start, after the reset, and at the end\<close>

lemma sound_create:
  assumes "env_ok e" "has_room e"
  shows "\<exists>p s. mp_create_pool e (push_bit 12 1) 0 empty_heap = (p, s) \<and> sound s p [head p] [] {} \<and>
    tidy sevenths s p [head p]"
proof -
  let ?n = "push_bit 12 1 :: u64"
  have n: "?n = 4096" by simp
  obtain p s where c: "mp_create_pool e ?n 0 empty_heap = (p, s)" by force
  have p: "p = memalign e empty_heap MP_ALIGNMENT 4152" "p \<noteq> 0"
    using c assms(2) by (auto simp: n mp_create_pool_def Let_def has_room_def empty_heap_def
        sizeof_pool_def sizeof_node_def split: if_splits)
  have u: "unat ?n + 56 < 18446744073709551616" by (simp add: n)
  have inv: "pool_inv s p [head p] 4128 []"
    using mp_create_pool_inv [OF assms(1) c p(2) u] by (simp add: n)
  have a: "unat p mod 32 = 0" "unat p + 4152 < 18446744073709551616"
    using env_ok_memalign(2,3) [OF assms(1) p(1) [symmetric] p(2)] by simp_all
  have f: "unat (p + 56) = unat p + 56" using a(2) by (simp add: unat_add64)
  have max: "MP_MAX_ALLOC_FROM_POOL = 4095" by (simp add: MP_MAX_ALLOC_FROM_POOL_def MP_PAGE_SIZE_def)
  have "snd (mp_create_pool e ?n 0 empty_heap) = s" using c by simp
  then have s: "blocks s = [p \<mapsto> 4152]" "pools s p = Some \<lparr>max_size = 4095, current = head p, large = 0\<rparr>"
    "\<exists>x. nodes s (head p) = Some x \<and> last_ptr x = p + 56"
    using p(2) unfolding n mp_create_pool_def Let_def empty_heap_def take_block_def sizeof_pool_def
      sizeof_node_def max p(1)
    by auto
  have "sound s p [head p] [] {}"
    using inv s(1,2) a(1) by (auto simp: sound_def larges_inv_def)
  moreover have "tidy sevenths s p [head p]" using s(3) f by (auto simp: tidy_def sevenths_def)
  ultimately show ?thesis using c by blast
qed

lemma sound_reset:
  assumes s: "sound s pool ns ls {}"
  shows "\<exists>s'. mp_reset_pool pool s = Some s' \<and> sound s' pool ns [] {} \<and> tidy tidied s' pool ns"
proof -
  obtain rs where "pool_inv s pool ns 4128 rs" "larges_inv s pool ns ls" using s by (auto simp: sound_def)
  from mp_reset_pool_spec [OF this] obtain s' P where
    r: "mp_reset_pool pool s = Some s'" "pool_inv s' pool ns 4128 []" "larges_inv s' pool ns []"
      "blocks s' = blocks s |` (- set (held ls))"
      "\<forall>a\<in>set ns. \<exists>x. nodes s' a = Some x \<and> unat (last_ptr x) = unat a + 32"
      "pools s pool = Some P" "pools s' pool = Some (P\<lparr>large := 0\<rparr>)" by blast
  have "set (held ls) \<inter> insert pool (set (tl ns)) = {}"
    using s unfolding sound_def larges_inv_def by blast
  then have "dom (blocks s') = insert pool (set (tl ns))"
    using s r(4) by (auto simp: sound_def)
  then have "sound s' pool ns [] {}" using s r by (auto simp: sound_def)
  moreover have "tidy tidied s' pool ns"
    using s r(5) sound_nodes(3,6,7) [OF s] unfolding tidy_def sound_def tidied_def
    by (intro conjI ballI; force)
  ultimately show ?thesis using r(1) by blast
qed

lemma sound_destory:
  assumes s: "sound s pool ns ls {}"
  shows "\<exists>s'. mp_destory_pool pool s = Some s' \<and> blocks s' = Map.empty"
proof -
  obtain rs where "pool_inv s pool ns 4128 rs" "larges_inv s pool ns ls" using s by (auto simp: sound_def)
  from mp_destory_pool_spec [OF this] obtain s' where d: "mp_destory_pool pool s = Some s'"
    "blocks s' = blocks s |` (- (insert pool (set (tl ns)) \<union> set (held ls)))" by blast
  have "dom (blocks s') = {}" unfolding d(2) dom_restrict using s by (auto simp: sound_def)
  then show ?thesis using d(1) by simp
qed

section \<open>The property\<close>


text \<open>
  An allocator with room for blocks at the multiples of 16384: a block in use is in the way of one of them at
  most, so that one of the first sixteen is free. It has one large block.
\<close>

definition slots_taken :: "mp_heap \<Rightarrow> nat set" where
  "slots_taken s = (\<lambda>q. (unat q + 4152) div 16384) ` dom (blocks s)"

definition slot_env :: mp_env where
  "slot_env = \<lparr>memalign = (\<lambda>s a n. if a = 32 \<and> unat n \<le> 4152 \<and> (\<forall>q k. blocks s q = Some k \<longrightarrow> unat k \<le> 4152)
       then case find (\<lambda>j. j \<notin> slots_taken s) [1..<17] of None \<Rightarrow> 0 | Some j \<Rightarrow> of_nat (16384 * j) else 0),
     sys_malloc = (\<lambda>s n. if blocks s 1048576 = None then 1048576 else 0)\<rparr>"

lemma slot_apart:
  assumes "q \<in> dom (blocks s)" "j \<notin> slots_taken s"
  shows "unat q + 4152 < 16384 * j \<or> 16384 * j + 4152 \<le> unat q"
proof -
  have "j \<noteq> (unat q + 4152) div 16384" using assms by (auto simp: slots_taken_def)
  then show ?thesis by linarith
qed

lemma find_slot:
  assumes "find (\<lambda>j. j \<notin> slots_taken s) [1..<17] = Some j"
  shows "j \<in> {1..<17}" "j \<notin> slots_taken s" "unat (of_nat (16384 * j) :: u64) = 16384 * j"
proof -
  show j: "j \<in> {1..<17}" "j \<notin> slots_taken s" using assms by (auto simp: find_Some_iff)
  show "unat (of_nat (16384 * j) :: u64) = 16384 * j" by (rule unat_of_nat64) (use j in auto)
qed

lemma slot_env_ok: "env_ok slot_env"
  unfolding env_ok_def Let_def
proof (intro allI impI)
  fix s a n assume "memalign slot_env s a n \<noteq> 0"
  then obtain j where j: "memalign slot_env s a n = of_nat (16384 * j)" "a = 32" "unat n \<le> 4152"
      "\<forall>q k. blocks s q = Some k \<longrightarrow> unat k \<le> 4152" "j \<in> {1..<17}" "j \<notin> slots_taken s"
      "unat (memalign slot_env s a n) = 16384 * j"
    using that find_slot by (auto simp: slot_env_def simp del: of_nat_mult upt_conv_Cons split: if_splits option.splits)
  note u = j(7)
  have far: "far (16384 * j, unat n) (unat q, unat m)" if "blocks s q = Some m" for q m
    using slot_apart [of q s j] that j(3,4,6) by (force simp: far_def)
  have "blocks s (memalign slot_env s a n) = None"
  proof (rule ccontr)
    assume "blocks s (memalign slot_env s a n) \<noteq> None"
    then show False using slot_apart [of "memalign slot_env s a n" s j] j(6) u by (auto simp: domIff)
  qed
  then show "blocks s (memalign slot_env s a n) = None \<and> unat (memalign slot_env s a n) mod unat a = 0 \<and>
      unat (memalign slot_env s a n) + unat n < 2 ^ 64 \<and>
      (\<forall>q m. blocks s q = Some m \<longrightarrow> far (unat (memalign slot_env s a n), unat n) (unat q, unat m))"
    using u j(2,3,5) far by (auto simp: mod_mult_left_eq [symmetric])
qed

lemma slot_env_malloc: "malloc_ok slot_env"
  by (simp add: malloc_ok_def slot_env_def)

lemma slot_env_room: "has_room slot_env"
  unfolding has_room_def
proof (intro allI impI, elim conjE)
  fix s :: mp_heap and n :: u64
  assume c: "card (dom (blocks s)) < 16" and small: "\<forall>q k. blocks s q = Some k \<longrightarrow> unat k \<le> 4152"
    and n: "unat n \<le> 4152"
  have fin: "finite (slots_taken s)" unfolding slots_taken_def by (rule finite_imageI) (rule finite)
  have "card (slots_taken s) < 16"
    unfolding slots_taken_def using card_image_le [of "dom (blocks s)"] c by (meson finite le_less_trans)
  moreover have "card {1..<17::nat} = 16" by simp
  ultimately have "\<not> {1..<17} \<subseteq> slots_taken s" using card_mono [OF fin, of "{1..<17}"] by linarith
  then have "find (\<lambda>j. j \<notin> slots_taken s) [1..<17] \<noteq> None" by (auto simp: find_None_iff)
  then obtain j where j: "find (\<lambda>j. j \<notin> slots_taken s) [1..<17] = Some j" by blast
  from find_slot(1,3) [OF this] have "(of_nat (16384 * j) :: u64) \<noteq> 0" by (auto simp flip: unat_eq_zero)
  then show "memalign slot_env s MP_ALIGNMENT n \<noteq> 0"
    using j small n by (simp add: slot_env_def MP_ALIGNMENT_def)
qed


end
