(* ===== verification/Spec2Isabelle.thy ===== *)
theory Spec2Isabelle
  imports Timewheel_Correct Rbtree_Correct Mmpool_Correct Skiplist_Correct Minheap_Correct Ringbuf_Correct
    Queue_Correct Dns_Correct Trycatch_Correct Deadlock_Correct Reactor_Correct Lockfree_Correct
    Webserver_Correct Reactor_Multi_Correct Netfamily_Correct Timerset_Correct Threadpool_Correct
    Blklist_Correct Btree_Correct Cpool_Correct Memleak_Correct Skiplist_Program Queue_Program Dns_Program
    Reactor_Start Reactor_Main Webserver_Blocks Webserver_Main Cpool_Program
    Mmpool_Program
begin

text \<open>
  A verification development for a repository of basic components in C and C++.

  The program. The repository is a collection of components, each in a file with a small program of its own, of
  which only the thread pool in C uses another, the linked queue: containers under \<open>util/\<close>, pools and a client under \<open>pool/\<close>, timers,
  servers and language tricks under \<open>src/\<close>. A theory \<open>X\<close> models the component \<open>X\<close>; \<open>X_Inv\<close> and other
  theories between hold its invariant and the lemmas on its loops, and \<open>X_Correct\<close> its properties, each behind a
  text that starts with its number C1, C2 and so on. A theory \<open>X_Program\<close>, \<open>X_Start\<close> or \<open>X_Main\<close> has the start of
  the program and its \<open>main\<close>, composed from the operations as the code composes them. \<open>Prelude\<close> has the types and lemmas that all share.

  Conventions.
  \<^item> A C structure is a record, an enumeration or a tagged union a datatype, an integer of the code a word of its
    width where overflow matters. The type \<open>ptr\<close> stands for pointers with \<open>NULL\<close> as 0; a heap is a partial map
    from pointers to records. Definitions have the names of the functions they model.
  \<^item> A computation in the option monad is \<open>None\<close> where the code runs into undefined behaviour: an access through a
    null or freed pointer, outside of an array, a signed overflow. A loop that may not end is a
    \<open>partial_function\<close>, where \<open>None\<close> also means that it does not return. So a theorem that
    something is \<open>Some\<close> says that the code returns and does nothing undefined.
  \<^item> What the code asks the system for (memory, the clock, sockets, the answers of \<open>epoll_wait\<close>, random
    numbers, the contents of files) is a parameter of the definitions, and what the theorems assume of it is the
    documented behaviour, as named hypotheses or premises.
  \<^item> Threads are step functions or step relations over a shared state; one step is one access to shared memory, or
    one critical section where all accesses are made with the mutex held.

  Interfaces. The theory \<open>Interfaces\<close> states as locales what a client of a container relies on, and proves what
  follows: \<open>ordered_index\<close> (provided by the red-black tree), \<open>bag\<close> with \<open>min_bag\<close> (the timer heap) and
  \<open>sorted_bag\<close> (the skip list and the ordered set of the timer, each also a \<open>min_bag\<close>), \<open>channel\<close> (the ring buffer),
  \<open>batch_queue\<close> (the linked queue), \<open>bounded_queue\<close> with its specification as a list (the lock-free queue used by
  one thread). Each is interpreted on the model of the code.

  The components.
  \<^item> \<open>Timewheel\<close>, \<open>Timewheel_Slots\<close>, \<open>Timewheel_Correct\<close>: \<open>src/timewheel.c\<close>. The state \<open>s_timer\<close> has the near
    slots, four levels, the time and the lock; operations \<open>add_node\<close>, \<open>add_timer\<close>, \<open>move_list\<close>, \<open>timer_shift\<close>,
    \<open>timer_execute\<close>, \<open>timer_update\<close> and so on. Every tick keeps the invariant, and a timer fires exactly at its
    expiry, unless it is put into a slot with index 0 of a lower level, where it stays for ever.
  \<^item> \<open>Rbtree\<close>, \<open>Rbtree_Rep\<close>, \<open>Rbtree_Insert\<close>, \<open>Rbtree_Correct\<close>: \<open>util/rbtree.c\<close>, at the level of pointers. The
    heap represents a tree, with a zipper for the position that the loops are at; insertion keeps the red-black
    invariant and adds one entry, printing sorts, the height is logarithmic. Deletion loses entries.
  \<^item> \<open>Mmpool\<close>, \<open>Mmpool_Inv\<close>, \<open>Mmpool_Correct\<close>: \<open>pool/mmpool.c\<close>. Regions handed out are disjoint and inside the pool;
    destroying releases exactly the blocks. Requests near the end of a block wrap around. \<open>Mmpool_Program\<close>: the program of the
    file, step by step over the invariant, ends with no block in use.
  \<^item> \<open>Skiplist\<close>, \<open>Skiplist_Inv\<close>, \<open>Skiplist_Correct\<close>: \<open>util/skiplist.c\<close>. The chains of the levels are sorted and each
    is contained in the one below; insertion sorts for all random levels, and removal under a condition. \<open>Skiplist_Program\<close>:
    \<open>sample/skiplist_test.c\<close>, which prints sorted levels and leaks the head node.
  \<^item> \<open>Minheap\<close>, \<open>Minheap_Inv\<close>, \<open>Minheap_Correct\<close>: \<open>util/minheap-timer.c\<close>. Pushing keeps the heap order and the
    bound of the array; popping breaks it.
  \<^item> \<open>Ringbuf\<close>, \<open>Ringbuf_Correct\<close>: \<open>util/ringbuf.c\<close>. Messages arrive unchanged while they fit.
  \<^item> \<open>Queue\<close>, \<open>Queue_Correct\<close>: \<open>util/queue.c\<close>. A batch of two or more comes out in order; a queue that was drained
    after that loses elements. \<open>Queue_Program\<close> has the program of the file.
  \<^item> \<open>Lockfree\<close>, \<open>Lockfree_Seq\<close>, \<open>Lockfree_Inv\<close>, \<open>Lockfree_Correct\<close>: \<open>util/ArrayLockFreeQueue.cpp\<close>. \<open>advance\<close> is one
    atomic access of one thread. Used by one thread it refines a bounded list (a call takes at most six
    steps, which is the fuel of \<open>alone\<close>); with several threads no index is claimed twice, as long as fewer steps
    than an index has values have been made, and with one producer the bound holds. With two producers elements
    can be lost.
  \<^item> \<open>Blklist\<close>, \<open>Blklist_Correct\<close>: \<open>util/blk_list.c\<close>. Items of the first two blocks are found at addresses of
    their own; destroying a list always fails.
  \<^item> \<open>Btree\<close>, \<open>Btree_Correct\<close>: \<open>util/btree.c\<close>. The unfinished insertion changes nothing, or fails.
  \<^item> \<open>Dns\<close>, \<open>Dns_Names\<close>, \<open>Dns_Correct\<close>: \<open>pool/asyn_dns_client.c\<close>. Requests are what the protocol says, replies are
    parsed to the addresses an encoder of the protocol put in, and every committed lookup is answered once; a
    compression pointer to itself is followed for ever. \<open>Dns_Program\<close>: \<open>main\<close> with its names, however answers come between its
    queries, and the memory of a response until \<open>dns_async_client_free_domains\<close> has given it back.
  \<^item> \<open>Threadpool\<close>, \<open>Threadpool_Correct\<close>: \<open>pool/ZeroThreadPool.h\<close> and \<open>pool/ZeroThreadPool.cpp\<close>. \<open>act\<close> is one step of
    a worker or of the client. Every task is taken exactly once, in order, in all interleavings; but no task ever
    wakes a worker, and stopping calls through a null pointer.
  \<^item> \<open>Cpool\<close>, \<open>Cpool_Correct\<close>: \<open>pool/thread_pool.c\<close> on the queue of \<open>util/queue.c\<close>, whose contract \<open>batch_queue\<close> it
    uses: a batch of tasks is run in order by whichever workers; after a single task the queue fails.
    \<open>Cpool_Program\<close>: \<open>main\<close>, whose result depends on when the workers get their turns. The file does not compile, and
    the theory says where it takes what is meant.
  \<^item> \<open>Trycatch\<close>, \<open>Trycatch_Correct\<close>: \<open>src/trycatch.c\<close>. The macros with their stack of frames and \<open>longjmp\<close> are
    equivalent to a structured meaning of exceptions.
  \<^item> \<open>Deadlock\<close>, \<open>Deadlock_Correct\<close>: \<open>src/deadlock.c\<close>. Mutual exclusion, a reachable deadlock, and that every run
    ends or is deadlocked within 49 steps.
  \<^item> \<open>Reactor\<close>, \<open>Reactor_Inv\<close>, \<open>Reactor_Correct\<close>: \<open>src/reactor_single.c\<close>. Runs of the event loop stay inside the table
    and the buffers, data is echoed, idle descriptors are closed. \<open>Reactor_Main\<close>: \<open>main\<close>, for every way its start can go.
  \<^item> \<open>Reactor_Multi\<close>, \<open>Reactor_Multi_Inv\<close>, \<open>Reactor_Multi_Correct\<close>: \<open>src/reactor.c\<close>. The server gathers what it
    reads but never answers. \<open>Reactor_Start\<close>: the only instance, which a failed start frees and still returns, the socket,
    and \<open>main\<close>, whose calls return, end the process or are undefined.
  \<^item> \<open>Webserver\<close>, \<open>Webserver_Table\<close>, \<open>Webserver_Http\<close>, \<open>Webserver_Correct\<close>: \<open>src/webserver.c\<close>. The table of events
    grows and keeps its events apart, and a request for a file is answered with the head and the file. \<open>Webserver_Blocks\<close>: the
    chain of blocks in memory, which refines the list of blocks of \<open>Webserver\<close> and is freed completely. \<open>Webserver_Main\<close>: from
    the start of the program on clients are served. \<open>Sockets\<close> has the addresses that the three servers bind to.
  \<^item> \<open>Memleak\<close>, \<open>Memleak_Correct\<close>: \<open>src/memleak.c\<close> in the variant that overrides \<open>malloc\<close> and \<open>free\<close>. The \<open>.mem\<close>
    files are the blocks in use, but each leaves a stream open, until no file can be opened.
  \<^item> \<open>Netfamily\<close>, \<open>Netfamily_Correct\<close>: \<open>src/net_family.c\<close>. Headers are read from the bytes of a packet; ARP requests
    are answered, and a connection is established by a SYN and a later ACK.
  \<^item> \<open>Timerset\<close>, \<open>Timerset_Correct\<close>: \<open>src/timer.cpp\<close>. The set of tasks is sorted by the order that the code
    defines, an instance of \<open>linorder\<close>; no task fires early whatever callbacks do, and the main loop
    fires all of them before it reads the end of the empty set.

  Bounds. Recursion is structural, over a list or a number of turns given by the caller, or a
  \<open>partial_function\<close>, for which the theorems prove that it returns. A counter that a loop of the code has is the
  argument of the recursion. The only fuels are the six steps of a lone call of the lock-free queue, which
  the first property of that component proves to be enough, and the rest of the line buffer in \<open>find_blank\<close>, whose end is an access
  behind the buffer.

  Not modelled, and why. What is left of the source are declarations, messages printed for a reader, code behind \<open>#if 0\<close>, functions that
  are empty or that nothing calls, the set-up of hooks and thread keys, and the programs at the end of \<open>util/rbtree.c\<close>, \<open>util/ringbuf.c\<close> and
  two of the C++ files, which try the modelled operations out and are compiled only with \<open>DEBUG\<close>, which is off;
  \<open>rb_node_create\<close>, which that of \<open>util/rbtree.c\<close> uses, returns no value. Of \<open>src/memleak.c\<close> the two other variants have empty bodies. Where a file reads or
  writes shared data without its mutex, the data race itself is outside of the model: C gives it no
  meaning. The components of the manifest say for each file what is left out.
\<close>

end
